(* ===== verification/Kore_Prelude.thy ===== *)
theory Kore_Prelude
  imports Main
    "HOL-Library.Word"
    "HOL-Library.Char_ord"
    "HOL-Library.List_Lexorder"
    "HOL-Library.AList"
    "HOL-Library.Multiset"
begin

text \<open>
  Shared vocabulary of the development: what the Rust standard library gives the server.

  \<^item> \<open>bytes\<close> is \<open>bytes::Bytes\<close> / \<open>&[u8]\<close>: a list of 8-bit characters, ordered lexicographically
    by byte value (theories Char_ord and List_Lexorder), as \<open>Ord\<close> for byte slices is.
  \<^item> \<open>i64\<close> values are \<open>int\<close> with the range \<open>in_i64\<close> and the wrap-around \<open>wrap_i64\<close> written out;
    \<open>usize\<close> and \<open>u64\<close> counts are \<open>nat\<close>, bounded by \<open>usize_max\<close> where overflow matters.
  \<^item> \<open>show_int\<close> / \<open>parse_i64\<close> / \<open>parse_u64\<close> are \<open>ToString\<close> and \<open>str::parse\<close> on integers,
    \<open>utf8_decode\<close> is \<open>str::from_utf8\<close> followed by \<open>chars\<close>.
  \<^item> A \<open>HashMap\<close> is an association list with distinct keys in its iteration order; the
    operations are \<open>map_of\<close>, \<open>AList.update\<close> and \<open>AList.delete\<close>, and every theorem about a
    \<open>HashMap\<close> is stated through \<open>map_of\<close>, sets or sizes, never through the iteration order.
\<close>

named_theorems hash_map_simps \<open>rules for maps kept as association lists\<close>

section \<open>Bytes and machine integers\<close>

type_synonym bytes = "char list"

abbreviation CR :: char where "CR \<equiv> CHR 0x0D"
abbreviation LF :: char where "LF \<equiv> CHR 0x0A"
abbreviation crlf :: bytes where "crlf \<equiv> [CR, LF]"

definition i64_max :: int where "i64_max = 9223372036854775807"
definition i64_min :: int where "i64_min = - 9223372036854775808"
definition usize_max :: nat where "usize_max = 18446744073709551615"

definition in_i64 :: "int \<Rightarrow> bool" where
  "in_i64 n \<longleftrightarrow> i64_min \<le> n \<and> n \<le> i64_max"

text \<open>\<open>i64\<close> addition in a release build wraps around.\<close>

definition wrap_i64 :: "int \<Rightarrow> int" where
  "wrap_i64 n = (n + 9223372036854775808) mod 18446744073709551616 - 9223372036854775808"

lemma in_i64_wrap: "in_i64 (wrap_i64 n)"
proof -
  have "0 \<le> (n + 9223372036854775808) mod 18446744073709551616"
    and "(n + 9223372036854775808) mod 18446744073709551616 < 18446744073709551616"
    by simp_all
  then show ?thesis
    by (simp add: in_i64_def wrap_i64_def i64_min_def i64_max_def)
qed

lemma wrap_i64_id: "in_i64 n \<Longrightarrow> wrap_i64 n = n"
  by (simp add: in_i64_def wrap_i64_def i64_min_def i64_max_def)

text \<open>Unchecked and atomic \<open>usize\<close> and \<open>u64\<close> additions wrap around too.\<close>

definition wrapping_add :: "nat \<Rightarrow> nat \<Rightarrow> nat" where
  "wrapping_add a b = (a + b) mod (usize_max + 1)"

text \<open>A sum of unchecked additions: wrapping at each \<open>+\<close> is wrapping the sum once.\<close>

definition wrap_usize :: "nat \<Rightarrow> nat" where
  "wrap_usize n = n mod (usize_max + 1)"

lemma wrapping_add_small: "a + b \<le> usize_max \<Longrightarrow> wrapping_add a b = a + b"
  by (simp add: wrapping_add_def)

definition saturating_add :: "nat \<Rightarrow> nat \<Rightarrow> nat" where
  "saturating_add a b = min usize_max (a + b)"

definition saturating_mul :: "nat \<Rightarrow> nat \<Rightarrow> nat" where
  "saturating_mul a b = min usize_max (a * b)"

section \<open>Decimal text of integers\<close>

definition digit_char :: "nat \<Rightarrow> char" where
  "digit_char d = ''0123456789'' ! d"

definition is_digit :: "char \<Rightarrow> bool" where
  "is_digit c \<longleftrightarrow> 48 \<le> (of_char c :: nat) \<and> (of_char c :: nat) \<le> 57"

definition digit_val :: "char \<Rightarrow> nat" where
  "digit_val c = of_char c - 48"

fun show_nat :: "nat \<Rightarrow> bytes" where
  "show_nat n = (if n < 10 then [digit_char n] else show_nat (n div 10) @ [digit_char (n mod 10)])"

declare show_nat.simps [simp del]

definition show_int :: "int \<Rightarrow> bytes" where
  "show_int n = (if n < 0 then CHR ''-'' # show_nat (nat (- n)) else show_nat (nat n))"

definition digits_value :: "bytes \<Rightarrow> nat" where
  "digits_value s = foldl (\<lambda>a c. 10 * a + digit_val c) 0 s"

definition parse_digits :: "bytes \<Rightarrow> nat option" where
  "parse_digits s = (if s \<noteq> [] \<and> list_all is_digit s then Some (digits_value s) else None)"

text \<open>\<open>str::parse::<i64>\<close>: an optional sign, at least one digit, and no overflow.\<close>

definition parse_i64 :: "bytes \<Rightarrow> int option" where
  "parse_i64 s =
     (case s of
        [] \<Rightarrow> None
      | c # cs \<Rightarrow>
          (if c = CHR ''-''
           then (case parse_digits cs of
                   None \<Rightarrow> None
                 | Some v \<Rightarrow> if in_i64 (- int v) then Some (- int v) else None)
           else (case parse_digits (if c = CHR ''+'' then cs else s) of
                   None \<Rightarrow> None
                 | Some v \<Rightarrow> if in_i64 (int v) then Some (int v) else None)))"

definition parse_u64 :: "bytes \<Rightarrow> nat option" where
  "parse_u64 s =
     (case s of
        [] \<Rightarrow> None
      | c # cs \<Rightarrow>
          (case parse_digits (if c = CHR ''+'' then cs else s) of
             None \<Rightarrow> None
           | Some v \<Rightarrow> if v \<le> usize_max then Some v else None))"

lemma digit_char_cases:
  assumes "d < 10"
  shows "is_digit (digit_char d) \<and> digit_val (digit_char d) = d"
proof -
  have "d \<in> {0, 1, 2, 3, 4, 5, 6, 7, 8, 9}"
    using assms by auto
  then show ?thesis
    by (auto simp: digit_char_def is_digit_def digit_val_def)
qed

lemma is_digit_simps [simp]:
  "\<not> is_digit CR" "\<not> is_digit LF" "\<not> is_digit (CHR ''-'')" "\<not> is_digit (CHR ''+'')"
  by (simp_all add: is_digit_def)

lemma show_nat_digits: "list_all is_digit (show_nat n)"
proof (induction n rule: show_nat.induct)
  case (1 n)
  show ?case
  proof (cases "n < 10")
    case True
    then show ?thesis by (simp add: show_nat.simps [of n] digit_char_cases)
  next
    case False
    with 1 have "list_all is_digit (show_nat (n div 10))" by simp
    with False show ?thesis by (simp add: show_nat.simps [of n] digit_char_cases)
  qed
qed

lemma show_nat_not_Nil [simp]: "show_nat n \<noteq> []"
  by (simp add: show_nat.simps [of n])

lemma digits_value_snoc: "digits_value (s @ [c]) = 10 * digits_value s + digit_val c"
  by (simp add: digits_value_def)

lemma digits_value_show_nat: "digits_value (show_nat n) = n"
proof (induction n rule: show_nat.induct)
  case (1 n)
  show ?case
  proof (cases "n < 10")
    case True
    then show ?thesis
      by (simp add: show_nat.simps [of n] digits_value_def digit_char_cases)
  next
    case False
    with 1 have "digits_value (show_nat (n div 10)) = n div 10" by simp
    with False show ?thesis
      by (simp add: show_nat.simps [of n] digits_value_snoc digit_char_cases)
  qed
qed

lemma parse_digits_show_nat [simp]: "parse_digits (show_nat n) = Some n"
  by (simp add: parse_digits_def show_nat_digits digits_value_show_nat)

lemma show_nat_ConsE:
  obtains c cs where "show_nat n = c # cs" and "is_digit c"
  using show_nat_digits [of n] show_nat_not_Nil [of n] by (cases "show_nat n") auto

theorem parse_i64_show_int:
  assumes "in_i64 n"
  shows "parse_i64 (show_int n) = Some n"
proof (cases "n < 0")
  case True
  with assms show ?thesis by (simp add: show_int_def parse_i64_def)
next
  case False
  obtain c cs where c: "show_nat (nat n) = c # cs" and d: "is_digit c"
    by (rule show_nat_ConsE)
  have "parse_digits (c # cs) = Some (nat n)"
    using parse_digits_show_nat [of "nat n"] c by simp
  moreover have "c \<noteq> CHR ''-''" and "c \<noteq> CHR ''+''"
    using d by auto
  ultimately show ?thesis
    using False assms c by (simp add: show_int_def parse_i64_def)
qed

lemma parse_u64_show_nat:
  assumes "n \<le> usize_max"
  shows "parse_u64 (show_nat n) = Some n"
proof -
  obtain c cs where c: "show_nat n = c # cs" and d: "is_digit c"
    by (rule show_nat_ConsE)
  have "parse_digits (c # cs) = Some n"
    using parse_digits_show_nat [of n] c by simp
  moreover have "c \<noteq> CHR ''+''"
    using d by auto
  ultimately show ?thesis
    using assms c by (simp add: parse_u64_def)
qed

lemma parse_i64_range: "parse_i64 s = Some n \<Longrightarrow> in_i64 n"
  by (auto simp: parse_i64_def split: list.splits if_splits option.splits)

lemma parse_u64_range: "parse_u64 s = Some n \<Longrightarrow> n \<le> usize_max"
  by (auto simp: parse_u64_def split: list.splits if_splits option.splits)

section \<open>UTF-8\<close>

text \<open>
  \<open>str::from_utf8\<close> accepts exactly the well-formed sequences of the Unicode standard: no
  overlong encoding, no surrogate, nothing above \<open>U+10FFFF\<close>. The result is the list of
  code points (\<open>chars\<close>).
\<close>

definition is_cont :: "nat \<Rightarrow> bool" where
  "is_cont b \<longleftrightarrow> 128 \<le> b \<and> b \<le> 191"

fun utf8_decode_nat :: "nat list \<Rightarrow> nat list option" where
  "utf8_decode_nat [] = Some []"
| "utf8_decode_nat (a # bs) =
     (if a < 128 then map_option ((#) a) (utf8_decode_nat bs)
      else case bs of
        [] \<Rightarrow> None
      | b # cs \<Rightarrow>
          if 194 \<le> a \<and> a \<le> 223 \<and> is_cont b
          then map_option ((#) ((a - 192) * 64 + (b - 128))) (utf8_decode_nat cs)
          else (case cs of
             [] \<Rightarrow> None
           | c # ds \<Rightarrow>
               if 224 \<le> a \<and> a \<le> 239 \<and> is_cont b \<and> is_cont c
                  \<and> (a = 224 \<longrightarrow> 160 \<le> b) \<and> (a = 237 \<longrightarrow> b \<le> 159)
               then map_option ((#) ((a - 224) * 4096 + (b - 128) * 64 + (c - 128)))
                      (utf8_decode_nat ds)
               else (case ds of
                  [] \<Rightarrow> None
                | d # es \<Rightarrow>
                    if 240 \<le> a \<and> a \<le> 244 \<and> is_cont b \<and> is_cont c \<and> is_cont d
                       \<and> (a = 240 \<longrightarrow> 144 \<le> b) \<and> (a = 244 \<longrightarrow> b \<le> 143)
                    then map_option ((#) ((a - 240) * 262144 + (b - 128) * 4096
                                          + (c - 128) * 64 + (d - 128)))
                           (utf8_decode_nat es)
                    else None)))"

definition utf8_decode :: "bytes \<Rightarrow> nat list option" where
  "utf8_decode s = utf8_decode_nat (map of_char s)"

lemma utf8_decode_nat_ascii: "list_all (\<lambda>a. a < 128) s \<Longrightarrow> utf8_decode_nat s = Some s"
  by (induction s) auto

lemma utf8_decode_digits:
  assumes "list_all is_digit s"
  shows "utf8_decode s = Some (map of_char s)"
proof -
  have "list_all (\<lambda>a. a < 128) (map of_char s :: nat list)"
    using assms by (auto simp: list_all_iff is_digit_def)
  then show ?thesis
    by (simp add: utf8_decode_def utf8_decode_nat_ascii)
qed

lemma utf8_decode_show_int: "\<exists>t. utf8_decode (show_int n) = Some t"
proof (cases "n < 0")
  case True
  have "list_all (\<lambda>a. a < 128) (map of_char (show_nat (nat (- n))) :: nat list)"
    using show_nat_digits [of "nat (- n)"] by (auto simp: list_all_iff is_digit_def)
  then show ?thesis
    using True by (simp add: show_int_def utf8_decode_def utf8_decode_nat_ascii)
next
  case False
  then show ?thesis
    using utf8_decode_digits [OF show_nat_digits] by (simp add: show_int_def)
qed

section \<open>Hash maps as association lists\<close>

abbreviation hm_wf :: "('k \<times> 'v) list \<Rightarrow> bool" where
  "hm_wf m \<equiv> distinct (map fst m)"

lemmas hash_map_core [hash_map_simps] =
  update_conv' delete_conv' distinct_update distinct_delete

lemma hm_wf_map_of_iff [hash_map_simps]:
  "hm_wf m \<Longrightarrow> map_of m k = Some v \<longleftrightarrow> (k, v) \<in> set m"
  by simp

lemma dom_map_of_keys: "dom (map_of m) = set (map fst m)"
  by (simp add: dom_map_of_conv_image_fst)

lemma hm_size_dom: "hm_wf m \<Longrightarrow> length m = card (dom (map_of m))"
  by (metis distinct_card dom_map_of_keys length_map)

lemma length_update_new: "map_of m k = None \<Longrightarrow> length (AList.update k v m) = Suc (length m)"
  by (induction m) (auto split: if_splits)

lemma length_update_old: "map_of m k = Some w \<Longrightarrow> length (AList.update k v m) = length m"
  by (induction m) (auto split: if_splits)

lemma update_absent: "map_of m k = None \<Longrightarrow> AList.update k v m = m @ [(k, v)]"
  by (induction m) (auto split: if_splits)

lemma delete_absent: "map_of m k = None \<Longrightarrow> AList.delete k m = m"
  by (induction m) (auto split: if_splits)

lemma length_delete_some:
  assumes "hm_wf m" and "map_of m k = Some v"
  shows "Suc (length (AList.delete k m)) = length m"
  using assms
proof (induction m)
  case Nil
  then show ?case by simp
next
  case (Cons a m)
  obtain j w where a: "a = (j, w)" by (cases a)
  show ?case
  proof (cases "j = k")
    case True
    with Cons.prems a have "map_of m k = None"
      by (simp add: map_of_eq_None_iff)
    then have "AList.delete k m = m" by (rule delete_absent)
    with True a show ?thesis by simp
  next
    case False
    with Cons a show ?thesis by simp
  qed
qed

text \<open>A sum over the entries of a map, after a removal and after an insertion.\<close>

lemma sum_list_delete:
  fixes f :: "'k \<times> 'v \<Rightarrow> nat"
  assumes "hm_wf m"
  shows "sum_list (map f (AList.delete k m)) + (case map_of m k of None \<Rightarrow> 0 | Some v \<Rightarrow> f (k, v)) = sum_list (map f m)"
  using assms
proof (induction m)
  case (Cons a m)
  obtain j w where a: "a = (j, w)" by (cases a)
  show ?case
  proof (cases "j = k")
    case True
    with Cons.prems a have "map_of m k = None" by (simp add: map_of_eq_None_iff)
    then show ?thesis using True a by (simp add: delete_absent)
  next
    case False
    with Cons a show ?thesis by (simp split: option.splits)
  qed
qed simp

lemma sum_list_update:
  fixes f :: "'k \<times> 'v \<Rightarrow> nat"
  shows "sum_list (map f (AList.update k v m)) + (case map_of m k of None \<Rightarrow> 0 | Some w \<Rightarrow> f (k, w))
    = sum_list (map f m) + f (k, v)"
  by (induction m) (auto split: option.splits)

section \<open>Search in a slice\<close>

text \<open>\<open>Iterator::position\<close>: the index of the first element that satisfies the predicate.\<close>

fun position :: "('a \<Rightarrow> bool) \<Rightarrow> 'a list \<Rightarrow> nat option" where
  "position p [] = None"
| "position p (x # xs) = (if p x then Some 0 else map_option Suc (position p xs))"

lemma position_split:
  "position p xs = Some i \<Longrightarrow>
     i < length xs \<and> p (xs ! i) \<and> list_all (\<lambda>x. \<not> p x) (take i xs)"
  by (induction xs arbitrary: i) (auto split: if_splits)

lemma position_None: "position p xs = None \<longleftrightarrow> list_all (\<lambda>x. \<not> p x) xs"
  by (induction xs) auto

lemma position_append:
  "list_all (\<lambda>x. \<not> p x) xs \<Longrightarrow> p y \<Longrightarrow> position p (xs @ y # ys) = Some (length xs)"
  by (induction xs) auto


section \<open>Index ranges\<close>

text \<open>How the range operations read an index: negative from the tail, clamped at the head.\<close>

definition clamp_index :: "nat \<Rightarrow> int \<Rightarrow> nat" where
  "clamp_index len i = nat (if i < 0 then int len + i else i)"

lemma take_drop_map_nth:
  "e \<le> length xs \<Longrightarrow> take (e - s) (drop s xs) = map ((!) xs) [s..<e]"
  by (rule nth_equalityI) auto

lemma clamp_index_int:
  "(if i < 0 then max (int len + i) 0 else i) = int (clamp_index len i)"
  by (simp add: clamp_index_def)

end
