(* ===== verification/Resp.thy ===== *)
theory Resp
  imports Kore_Prelude
begin

text \<open>
  The wire protocol, \<open>src/src/protocol/resp.rs\<close>: the RESP2/RESP3 value type, its serializer
  (\<open>RespValue::serialize\<close>, \<open>write_to\<close>) and the incremental parser (\<open>RespParser\<close>).

  The parser's cursor over the buffered slice is the list of bytes not yet read: \<open>get_u8\<close> takes
  the head, \<open>set_position\<close> and \<open>advance\<close> drop a prefix. \<open>Result\<close> is a sum with the error on the
  left. \<open>Vec::with_capacity(n)\<close> panics when the requested allocation exceeds \<open>isize::MAX\<close> bytes;
  the size of a \<open>RespValue\<close> is the compiler's choice, so it is the parameter \<open>sz\<close> of the parser.
  \<open>parse_value\<close> is recursive on the nesting of the frame; the model spends one unit of fuel per
  nesting level, \<open>parse_with_consumed\<close> starts with more fuel than bytes, and
  \<open>parse_value_enough_fuel\<close> shows that fuel never runs out.
\<close>

section \<open>Values and serialization\<close>

datatype resp_value =
    SimpleString bytes
  | RespError bytes
  | Integer int
  | BulkString "bytes option"
  | RespArray "resp_value list"
  | NullArray
  | Multiple "resp_value list"
  | RespMap "(resp_value \<times> resp_value) list"
  | RespBool bool
  | RespNull
  | RespPush "resp_value list"

lemma size_fst_resp_map [termination_simp]:
  "(k, v) \<in> set ps \<Longrightarrow> size k < Suc (size_list (size_prod size size) ps)"
  by (drule size_list_estimation' [where f = "size_prod size size" and y = "size k"]) simp_all

lemma size_snd_resp_map [termination_simp]:
  "(k, v) \<in> set ps \<Longrightarrow> size v < Suc (size_list (size_prod size size) ps)"
  by (drule size_list_estimation' [where f = "size_prod size size" and y = "size v"]) simp_all

fun write_to :: "resp_value \<Rightarrow> bytes \<Rightarrow> bytes" where
  "write_to (SimpleString s) buf = buf @ ''+'' @ s @ crlf"
| "write_to (RespError e) buf = buf @ ''-'' @ e @ crlf"
| "write_to (Integer i) buf = buf @ '':'' @ show_int i @ crlf"
| "write_to (BulkString None) buf = buf @ ''$-1'' @ crlf"
| "write_to (BulkString (Some s)) buf =
     buf @ ''$'' @ show_nat (length s) @ crlf @ s @ crlf"
| "write_to (RespArray arr) buf =
     fold (\<lambda>val b. write_to val b) arr (buf @ ''*'' @ show_nat (length arr) @ crlf)"
| "write_to NullArray buf = buf @ ''*-1'' @ crlf"
| "write_to (Multiple values) buf = fold (\<lambda>val b. write_to val b) values buf"
| "write_to (RespMap pairs) buf =
     fold (\<lambda>(k, v) b. write_to v (write_to k b)) pairs
       (buf @ ''%'' @ show_nat (length pairs) @ crlf)"
| "write_to (RespBool True) buf = buf @ ''#t'' @ crlf"
| "write_to (RespBool False) buf = buf @ ''#f'' @ crlf"
| "write_to RespNull buf = buf @ ''_'' @ crlf"
| "write_to (RespPush arr) buf =
     fold (\<lambda>val b. write_to val b) arr (buf @ ''>'' @ show_nat (length arr) @ crlf)"

definition serialize :: "resp_value \<Rightarrow> bytes" where
  "serialize v = (if v = SimpleString ''OK'' then ''+OK'' @ crlf else write_to v [])"

section \<open>The parser\<close>

datatype perr =
    ParseError bytes
  | CapacityOverflow \<comment> \<open>panic of \<open>Vec::with_capacity\<close>\<close>
  | OutOfFuel

fun read_line :: "bytes \<Rightarrow> perr + (bytes \<times> bytes)" where
  "read_line (a # b # r) =
     (if a = CR \<and> b = LF then Inr ([], r)
      else case read_line (b # r) of
        Inl e \<Rightarrow> Inl e
      | Inr (line, rest) \<Rightarrow> Inr (a # line, rest))"
| "read_line _ = Inl (ParseError ''incomplete line'')"

fun expect_crlf :: "bytes \<Rightarrow> perr + bytes" where
  "expect_crlf (cr # lf # r) =
     (if cr \<noteq> CR \<or> lf \<noteq> LF then Inl (ParseError ''expected CRLF'') else Inr r)"
| "expect_crlf _ = Inl (ParseError ''incomplete data'')"

text \<open>The length or integer line shared by the parsers: read, check UTF-8, parse as \<open>i64\<close>.\<close>

definition read_i64_line :: "bytes \<Rightarrow> bytes \<Rightarrow> perr + (int \<times> bytes)" where
  "read_i64_line what cur =
     (case read_line cur of
        Inl e \<Rightarrow> Inl e
      | Inr (line, rest) \<Rightarrow>
          (case utf8_decode line of
             None \<Rightarrow> Inl (ParseError (''invalid UTF-8 in '' @ what))
           | Some _ \<Rightarrow>
               (case parse_i64 line of
                  None \<Rightarrow> Inl (ParseError (''invalid '' @ what))
                | Some n \<Rightarrow> Inr (n, rest))))"

definition with_capacity :: "nat \<Rightarrow> int \<Rightarrow> perr option" where
  "with_capacity sz len = (if len * int sz > i64_max then Some CapacityOverflow else None)"

fun parse_bool :: "bytes \<Rightarrow> perr + (resp_value \<times> bytes)" where
  "parse_bool [] = Inl (ParseError ''incomplete bool'')"
| "parse_bool (b # cur) =
     (case expect_crlf cur of
        Inl e \<Rightarrow> Inl e
      | Inr rest \<Rightarrow>
          (if b = CHR ''t'' \<or> b = CHR ''T'' then Inr (RespBool True, rest)
           else if b = CHR ''f'' \<or> b = CHR ''F'' then Inr (RespBool False, rest)
           else Inl (ParseError ''invalid bool'')))"

definition parse_simple_string :: "bytes \<Rightarrow> perr + (resp_value \<times> bytes)" where
  "parse_simple_string cur =
     (case read_line cur of Inl e \<Rightarrow> Inl e | Inr (line, rest) \<Rightarrow> Inr (SimpleString line, rest))"

definition parse_error :: "bytes \<Rightarrow> perr + (resp_value \<times> bytes)" where
  "parse_error cur =
     (case read_line cur of Inl e \<Rightarrow> Inl e | Inr (line, rest) \<Rightarrow> Inr (RespError line, rest))"

definition parse_integer :: "bytes \<Rightarrow> perr + (resp_value \<times> bytes)" where
  "parse_integer cur =
     (case read_i64_line ''integer'' cur of Inl e \<Rightarrow> Inl e | Inr (n, rest) \<Rightarrow> Inr (Integer n, rest))"

definition max_bulk_len :: int where "max_bulk_len = 500 * 1024 * 1024"
definition max_array_len :: int where "max_array_len = 100000"

definition parse_bulk_string :: "bytes \<Rightarrow> perr + (resp_value \<times> bytes)" where
  "parse_bulk_string cur =
     (case read_i64_line ''bulk string length'' cur of
        Inl e \<Rightarrow> Inl e
      | Inr (len, rest) \<Rightarrow>
          if len = -1 then Inr (BulkString None, rest)
          else if len < 0 then Inl (ParseError ''negative bulk string length'')
          else if len > max_bulk_len then Inl (ParseError ''bulk string too large'')
          else if length rest < nat len + 2 then Inl (ParseError ''incomplete bulk string data'')
          else
            (let data = take (nat len) rest; cur' = drop (nat len) rest in
             case cur' of
               cr # lf # rest' \<Rightarrow>
                 if cr \<noteq> CR \<or> lf \<noteq> LF then Inl (ParseError ''invalid bulk string terminator'')
                 else Inr (BulkString (Some data), rest')
             | _ \<Rightarrow> Inl (ParseError ''missing bulk string terminator'')))"

text \<open>
  The element loops of \<open>parse_array\<close>, \<open>parse_push\<close> and \<open>parse_map\<close>, over the parser \<open>pv\<close> for one
  value (\<open>parse_value\<close> itself, one nesting level down).
\<close>

fun parse_values ::
  "(bytes \<Rightarrow> perr + (resp_value \<times> bytes)) \<Rightarrow> nat \<Rightarrow> bytes \<Rightarrow> perr + (resp_value list \<times> bytes)"
where
  "parse_values pv 0 cur = Inr ([], cur)"
| "parse_values pv (Suc n) cur =
     (case pv cur of
        Inl e \<Rightarrow> Inl e
      | Inr (v, rest) \<Rightarrow>
          (case parse_values pv n rest of
             Inl e \<Rightarrow> Inl e
           | Inr (vs, rest') \<Rightarrow> Inr (v # vs, rest')))"

fun parse_pairs ::
  "(bytes \<Rightarrow> perr + (resp_value \<times> bytes)) \<Rightarrow> nat \<Rightarrow> bytes \<Rightarrow>
     perr + ((resp_value \<times> resp_value) list \<times> bytes)"
where
  "parse_pairs pv 0 cur = Inr ([], cur)"
| "parse_pairs pv (Suc n) cur =
     (case pv cur of
        Inl e \<Rightarrow> Inl e
      | Inr (k, rest) \<Rightarrow>
          (case pv rest of
             Inl e \<Rightarrow> Inl e
           | Inr (v, rest') \<Rightarrow>
               (case parse_pairs pv n rest' of
                  Inl e \<Rightarrow> Inl e
                | Inr (kvs, rest'') \<Rightarrow> Inr ((k, v) # kvs, rest''))))"

definition parse_array ::
  "(bytes \<Rightarrow> perr + (resp_value \<times> bytes)) \<Rightarrow> nat \<Rightarrow> bytes \<Rightarrow> perr + (resp_value \<times> bytes)" where
  "parse_array pv sz cur =
     (case read_i64_line ''array length'' cur of
        Inl e \<Rightarrow> Inl e
      | Inr (len, rest) \<Rightarrow>
          if len = -1 then Inr (NullArray, rest)
          else if len < 0 then Inl (ParseError ''negative array length'')
          else if len > max_array_len then Inl (ParseError ''array too large'')
          else (case with_capacity sz len of
                  Some p \<Rightarrow> Inl p
                | None \<Rightarrow>
                    (case parse_values pv (nat len) rest of
                       Inl e \<Rightarrow> Inl e
                     | Inr (arr, rest') \<Rightarrow> Inr (RespArray arr, rest'))))"

definition parse_map ::
  "(bytes \<Rightarrow> perr + (resp_value \<times> bytes)) \<Rightarrow> nat \<Rightarrow> bytes \<Rightarrow> perr + (resp_value \<times> bytes)" where
  "parse_map pv sz cur =
     (case read_i64_line ''map length'' cur of
        Inl e \<Rightarrow> Inl e
      | Inr (len, rest) \<Rightarrow>
          if len < 0 then Inl (ParseError ''negative map length'')
          else (case with_capacity (2 * sz) len of
                  Some p \<Rightarrow> Inl p
                | None \<Rightarrow>
                    (case parse_pairs pv (nat len) rest of
                       Inl e \<Rightarrow> Inl e
                     | Inr (pairs, rest') \<Rightarrow> Inr (RespMap pairs, rest'))))"

definition parse_push ::
  "(bytes \<Rightarrow> perr + (resp_value \<times> bytes)) \<Rightarrow> nat \<Rightarrow> bytes \<Rightarrow> perr + (resp_value \<times> bytes)" where
  "parse_push pv sz cur =
     (case read_i64_line ''push length'' cur of
        Inl e \<Rightarrow> Inl e
      | Inr (len, rest) \<Rightarrow>
          if len < 0 then Inl (ParseError ''negative push length'')
          else (case with_capacity sz len of
                  Some p \<Rightarrow> Inl p
                | None \<Rightarrow>
                    (case parse_values pv (nat len) rest of
                       Inl e \<Rightarrow> Inl e
                     | Inr (arr, rest') \<Rightarrow> Inr (RespPush arr, rest'))))"

definition parse_null :: "bytes \<Rightarrow> perr + (resp_value \<times> bytes)" where
  "parse_null cur = (case expect_crlf cur of Inl e \<Rightarrow> Inl e | Inr rest \<Rightarrow> Inr (RespNull, rest))"

primrec parse_value :: "nat \<Rightarrow> nat \<Rightarrow> bytes \<Rightarrow> perr + (resp_value \<times> bytes)" where
  "parse_value 0 sz cur = Inl OutOfFuel"
| "parse_value (Suc fuel) sz cur =
     (case cur of
        [] \<Rightarrow> Inl (ParseError ''incomplete data'')
      | type_byte # cur' \<Rightarrow>
          if type_byte = CHR ''+'' then parse_simple_string cur'
          else if type_byte = CHR ''-'' then parse_error cur'
          else if type_byte = CHR '':'' then parse_integer cur'
          else if type_byte = CHR ''$'' then parse_bulk_string cur'
          else if type_byte = CHR ''*'' then parse_array (parse_value fuel sz) sz cur'
          else if type_byte = CHR ''%'' then parse_map (parse_value fuel sz) sz cur'
          else if type_byte = CHR ''#'' then parse_bool cur'
          else if type_byte = CHR ''_'' then parse_null cur'
          else if type_byte = CHR ''>'' then parse_push (parse_value fuel sz) sz cur'
          else Inl (ParseError (''invalid RESP type byte: '' @ show_nat (of_char type_byte))))"

record resp_parser =
  buffer :: bytes

definition new_parser :: resp_parser where
  "new_parser = \<lparr>buffer = []\<rparr>"

definition feed :: "resp_parser \<Rightarrow> bytes \<Rightarrow> resp_parser" where
  "feed p data = p\<lparr>buffer := buffer p @ data\<rparr>"

definition parse_with_consumed ::
  "nat \<Rightarrow> resp_parser \<Rightarrow> resp_parser \<times> (perr + (resp_value \<times> nat) option)" where
  "parse_with_consumed sz p =
     (if buffer p = [] then (p, Inr None)
      else case parse_value (Suc (length (buffer p))) sz (buffer p) of
        Inr (value, rest) \<Rightarrow>
          (let pos = length (buffer p) - length rest in
           (p\<lparr>buffer := drop pos (buffer p)\<rparr>, Inr (Some (value, pos))))
      | Inl (ParseError _) \<Rightarrow> (p, Inr None)
      | Inl e \<Rightarrow> (p, Inl e))"

definition parse :: "nat \<Rightarrow> resp_parser \<Rightarrow> resp_parser \<times> (perr + resp_value option)" where
  "parse sz p =
     (case parse_with_consumed sz p of
        (p', Inl e) \<Rightarrow> (p', Inl e)
      | (p', Inr r) \<Rightarrow> (p', Inr (map_option fst r)))"


section \<open>Framing: the contract of an incremental decoder\<close>

text \<open>
  What a byte-stream client needs of a decoder: a successful decode consumes a prefix that alone
  determines the result, whatever follows, and no proper prefix of it decodes (it asks for more
  data). Several parts rely on it: the connection loop, the replication stream and the AOF
  loader.
\<close>

locale frame_decoder =
  fixes dec :: "bytes \<Rightarrow> perr + ('a \<times> bytes)"
  assumes frame: "dec cur = Inr (v, rest) \<Longrightarrow>
    \<exists>c. cur = c @ rest \<and> (\<forall>x. dec (c @ x) = Inr (v, x)) \<and>
        (\<forall>p q. c = p @ q \<longrightarrow> q \<noteq> [] \<longrightarrow> (\<exists>m. dec p = Inl (ParseError m)))"
begin

lemma rest_suffix: "dec cur = Inr (v, rest) \<Longrightarrow> \<exists>c. cur = c @ rest"
  using frame by blast

lemma rest_length: "dec cur = Inr (v, rest) \<Longrightarrow> length rest \<le> length cur"
  using rest_suffix by fastforce

lemma extend: "dec cur = Inr (v, rest) \<Longrightarrow> dec (cur @ x) = Inr (v, rest @ x)"
  using frame by fastforce

lemma needs_more:
  assumes "dec (p @ q) = Inr (v, [])" and "q \<noteq> []"
  shows "\<exists>m. dec p = Inl (ParseError m)"
  using frame [OF assms(1)] assms(2) by auto

lemma rest_drop:
  assumes "dec cur = Inr (v, rest)"
  shows "drop (length cur - length rest) cur = rest"
  using rest_suffix [OF assms] by auto

end

text \<open>Sequencing of decoders, and the combinators that keep the contract.\<close>

definition pbind ::
  "(bytes \<Rightarrow> perr + ('a \<times> bytes)) \<Rightarrow> ('a \<Rightarrow> bytes \<Rightarrow> perr + ('b \<times> bytes)) \<Rightarrow>
     bytes \<Rightarrow> perr + ('b \<times> bytes)" where
  "pbind p k cur = (case p cur of Inl e \<Rightarrow> Inl e | Inr (a, rest) \<Rightarrow> k a rest)"

lemma frame_return [intro]: "frame_decoder (\<lambda>cur. Inr (v, cur))"
  by unfold_locales auto

lemma frame_fail [intro]: "frame_decoder (\<lambda>cur. Inl e)"
  by unfold_locales auto

lemma frame_if [intro]:
  "frame_decoder p \<Longrightarrow> frame_decoder q \<Longrightarrow> frame_decoder (\<lambda>cur. if b then p cur else q cur)"
  by (cases b) simp_all

lemma frame_pbind [intro]:
  assumes p: "frame_decoder p" and k: "\<And>a. frame_decoder (k a)"
  shows "frame_decoder (pbind p k)"
proof
  fix cur v rest
  assume "pbind p k cur = Inr (v, rest)"
  then obtain a r1 where 1: "p cur = Inr (a, r1)" and 2: "k a r1 = Inr (v, rest)"
    by (auto simp: pbind_def split: sum.splits prod.splits)
  obtain c1 where c1: "cur = c1 @ r1" "\<And>x. p (c1 @ x) = Inr (a, x)"
    "\<And>u w. c1 = u @ w \<Longrightarrow> w \<noteq> [] \<Longrightarrow> \<exists>m. p u = Inl (ParseError m)"
    using frame_decoder.frame [OF p 1] by blast
  obtain c2 where c2: "r1 = c2 @ rest" "\<And>x. k a (c2 @ x) = Inr (v, x)"
    "\<And>u w. c2 = u @ w \<Longrightarrow> w \<noteq> [] \<Longrightarrow> \<exists>m. k a u = Inl (ParseError m)"
    using frame_decoder.frame [OF k 2] by blast
  have "\<exists>m. pbind p k u = Inl (ParseError m)" if uw: "c1 @ c2 = u @ w" "w \<noteq> []" for u w
  proof -
    obtain t where "c1 = u @ t \<and> w = t @ c2 \<or> u = c1 @ t \<and> c2 = t @ w"
      using uw(1) by (auto simp: append_eq_append_conv2)
    then consider "c1 = u @ t" "t \<noteq> []" | t' where "u = c1 @ t'" "c2 = t' @ w"
      by (cases "t = []") auto
    then show ?thesis
    proof cases
      case 1
      then obtain m where "p u = Inl (ParseError m)" using c1(3) by blast
      then show ?thesis by (simp add: pbind_def)
    next
      case (2 t')
      then obtain m where "k a t' = Inl (ParseError m)" using c2(3) uw(2) by blast
      then show ?thesis using 2(1) c1(2) [of t'] by (simp add: pbind_def)
    qed
  qed
  then show "\<exists>c. cur = c @ rest \<and> (\<forall>x. pbind p k (c @ x) = Inr (v, x)) \<and>
      (\<forall>u w. c = u @ w \<longrightarrow> w \<noteq> [] \<longrightarrow> (\<exists>m. pbind p k u = Inl (ParseError m)))"
    using c1(1,2) c2(1,2) by (intro exI [of _ "c1 @ c2"]) (auto simp: pbind_def)
qed

lemma read_line_sound:
  "read_line cur = Inr (line, rest) \<Longrightarrow>
     cur = line @ crlf @ rest \<and> (\<forall>x. read_line (line @ crlf @ x) = Inr (line, x)) \<and>
     (\<forall>p q. line @ crlf = p @ q \<longrightarrow> q \<noteq> [] \<longrightarrow> (\<exists>m. read_line p = Inl (ParseError m)))"
proof (induction cur arbitrary: line rule: read_line.induct)
  case (1 a b r)
  show ?case
  proof (cases "a = CR \<and> b = LF")
    case True
    with 1 show ?thesis
      by (auto simp: append_eq_Cons_conv Cons_eq_append_conv)
  next
    case False
    with 1 obtain l where l: "read_line (b # r) = Inr (l, rest)" "line = a # l"
      by (auto split: sum.splits prod.splits)
    note IH = 1(1) [OF False l(1)]
    have hd: "\<exists>t. l @ crlf @ x = b # t" for x
      using IH by (cases l) auto
    have ext: "read_line (line @ crlf @ x) = Inr (line, x)" for x
    proof -
      obtain t where t: "l @ crlf @ x = b # t" using hd by blast
      then have "read_line (b # t) = Inr (l, x)" using IH by metis
      then show ?thesis using False l(2) t by auto
    qed
    have "\<exists>m. read_line p = Inl (ParseError m)" if pq: "line @ crlf = p @ q" "q \<noteq> []" for p q
    proof (cases p)
      case Nil
      then show ?thesis by simp
    next
      case (Cons a' p')
      with pq l(2) have p': "a' = a" "l @ crlf = p' @ q" by auto
      then obtain m where m: "read_line p' = Inl (ParseError m)"
        using IH pq(2) by blast
      show ?thesis
      proof (cases p')
        case Nil
        then show ?thesis using Cons by simp
      next
        case (Cons b' p'')
        with p'(2) hd [of "[]"] have "b' = b" by auto
        then have "p = a # b # p''" "read_line (b # p'') = Inl (ParseError m)"
          using \<open>p = a' # p'\<close> Cons p'(1) m by simp_all
        then show ?thesis using False by auto
      qed
    qed
    moreover have "a # b # r = line @ crlf @ rest" using IH l(2) by simp
    ultimately show ?thesis using ext by blast
  qed
qed simp_all

lemma frame_read_line [intro]: "frame_decoder read_line"
proof
  fix cur line rest
  assume "read_line cur = Inr (line, rest)"
  from read_line_sound [OF this] show "\<exists>c. cur = c @ rest \<and>
      (\<forall>x. read_line (c @ x) = Inr (line, x)) \<and>
      (\<forall>p q. c = p @ q \<longrightarrow> q \<noteq> [] \<longrightarrow> (\<exists>m. read_line p = Inl (ParseError m)))"
    by (intro exI [of _ "line @ crlf"]) simp
qed

definition crlf_unit :: "bytes \<Rightarrow> perr + (unit \<times> bytes)" where
  "crlf_unit cur = (case expect_crlf cur of Inl e \<Rightarrow> Inl e | Inr rest \<Rightarrow> Inr ((), rest))"

definition get_u8 :: "bytes \<Rightarrow> bytes \<Rightarrow> perr + (char \<times> bytes)" where
  "get_u8 msg cur = (case cur of [] \<Rightarrow> Inl (ParseError msg) | b # rest \<Rightarrow> Inr (b, rest))"

lemma expect_crlf_Inr: "expect_crlf cur = Inr rest \<longleftrightarrow> cur = CR # LF # rest"
  by (cases cur rule: expect_crlf.cases) auto

lemma frame_crlf_unit [intro]: "frame_decoder crlf_unit"
proof
  fix cur v rest
  assume "crlf_unit cur = Inr (v, rest)"
  then have "cur = crlf @ rest"
    by (simp add: crlf_unit_def expect_crlf_Inr split: sum.splits)
  moreover have "\<exists>m. crlf_unit p = Inl (ParseError m)" if "crlf = p @ q" "q \<noteq> []" for p q
    using that by (auto simp: crlf_unit_def Cons_eq_append_conv)
  ultimately show "\<exists>c. cur = c @ rest \<and> (\<forall>x. crlf_unit (c @ x) = Inr (v, x)) \<and>
      (\<forall>p q. c = p @ q \<longrightarrow> q \<noteq> [] \<longrightarrow> (\<exists>m. crlf_unit p = Inl (ParseError m)))"
    by (intro exI [of _ crlf]) (auto simp: crlf_unit_def)
qed

lemma frame_get_u8 [intro]: "frame_decoder (get_u8 msg)"
proof
  fix cur b rest
  assume "get_u8 msg cur = Inr (b, rest)"
  then have "cur = [b] @ rest" by (simp add: get_u8_def split: list.splits)
  moreover have "\<exists>m. get_u8 msg p = Inl (ParseError m)" if "[b] = p @ q" "q \<noteq> []" for p q
    using that by (auto simp: get_u8_def Cons_eq_append_conv)
  ultimately show "\<exists>c. cur = c @ rest \<and> (\<forall>x. get_u8 msg (c @ x) = Inr (b, x)) \<and>
      (\<forall>p q. c = p @ q \<longrightarrow> q \<noteq> [] \<longrightarrow> (\<exists>m. get_u8 msg p = Inl (ParseError m)))"
    by (intro exI [of _ "[b]"]) (auto simp: get_u8_def)
qed

text \<open>The parsers of the source as sequences of these decoders.\<close>

definition i64_of_line :: "bytes \<Rightarrow> bytes \<Rightarrow> bytes \<Rightarrow> perr + (int \<times> bytes)" where
  "i64_of_line what line =
     (case utf8_decode line of
        None \<Rightarrow> (\<lambda>cur. Inl (ParseError (''invalid UTF-8 in '' @ what)))
      | Some _ \<Rightarrow>
          (case parse_i64 line of
             None \<Rightarrow> (\<lambda>cur. Inl (ParseError (''invalid '' @ what)))
           | Some n \<Rightarrow> (\<lambda>cur. Inr (n, cur))))"

lemma read_i64_line_pbind: "read_i64_line what = pbind read_line (i64_of_line what)"
  by (rule ext)
    (simp add: read_i64_line_def pbind_def i64_of_line_def split: sum.split prod.split option.split)

lemma frame_read_i64_line [intro]: "frame_decoder (read_i64_line what)"
  unfolding read_i64_line_pbind
  by (rule frame_pbind) (auto simp: i64_of_line_def split: option.split)

definition bulk_body :: "nat \<Rightarrow> bytes \<Rightarrow> perr + (resp_value \<times> bytes)" where
  "bulk_body n rest =
     (if length rest < n + 2 then Inl (ParseError ''incomplete bulk string data'')
      else case drop n rest of
        cr # lf # rest' \<Rightarrow>
          if cr \<noteq> CR \<or> lf \<noteq> LF then Inl (ParseError ''invalid bulk string terminator'')
          else Inr (BulkString (Some (take n rest)), rest')
      | _ \<Rightarrow> Inl (ParseError ''missing bulk string terminator''))"

lemma bulk_body_Inr:
  "bulk_body n cur = Inr (v, rest) \<longleftrightarrow>
     (\<exists>d. length d = n \<and> cur = d @ crlf @ rest \<and> v = BulkString (Some d))"
proof
  assume L: "bulk_body n cur = Inr (v, rest)"
  then have d: "drop n cur = crlf @ rest" and n: "n + 2 \<le> length cur"
    and v: "v = BulkString (Some (take n cur))"
    by (auto simp: bulk_body_def split: if_splits list.splits)
  show "\<exists>d. length d = n \<and> cur = d @ crlf @ rest \<and> v = BulkString (Some d)"
    using n v append_take_drop_id [of n cur, symmetric] unfolding d
    by (intro exI [of _ "take n cur"]) auto
qed (auto simp: bulk_body_def)

lemma frame_bulk_body [intro]: "frame_decoder (bulk_body n)"
proof
  fix cur v rest
  assume "bulk_body n cur = Inr (v, rest)"
  then obtain d where d: "length d = n" "cur = d @ crlf @ rest" "v = BulkString (Some d)"
    by (auto simp: bulk_body_Inr)
  have "\<exists>m. bulk_body n p = Inl (ParseError m)" if "d @ crlf = p @ q" "q \<noteq> []" for p q
  proof -
    have "length p + length q = n + 2"
      using arg_cong [OF that(1), of length] d(1) by simp
    then have "length p < n + 2" using that(2) by (cases q) auto
    then show ?thesis by (simp add: bulk_body_def)
  qed
  then show "\<exists>c. cur = c @ rest \<and> (\<forall>x. bulk_body n (c @ x) = Inr (v, x)) \<and>
      (\<forall>p q. c = p @ q \<longrightarrow> q \<noteq> [] \<longrightarrow> (\<exists>m. bulk_body n p = Inl (ParseError m)))"
    using d by (intro exI [of _ "d @ crlf"]) (auto simp: bulk_body_Inr)
qed

lemma parse_bulk_string_pbind:
  "parse_bulk_string = pbind (read_i64_line ''bulk string length'')
     (\<lambda>len cur. if len = -1 then Inr (BulkString None, cur)
        else if len < 0 then Inl (ParseError ''negative bulk string length'')
        else if len > max_bulk_len then Inl (ParseError ''bulk string too large'')
        else bulk_body (nat len) cur)"
  by (rule ext)
    (simp add: parse_bulk_string_def pbind_def bulk_body_def Let_def split: sum.split prod.split list.split)

lemma parse_bool_pbind:
  "parse_bool = pbind (get_u8 ''incomplete bool'') (\<lambda>b. pbind crlf_unit (\<lambda>_ rest.
     if b = CHR ''t'' \<or> b = CHR ''T'' then Inr (RespBool True, rest)
     else if b = CHR ''f'' \<or> b = CHR ''F'' then Inr (RespBool False, rest)
     else Inl (ParseError ''invalid bool'')))"
proof
  fix cur
  show "parse_bool cur = pbind (get_u8 ''incomplete bool'') (\<lambda>b. pbind crlf_unit (\<lambda>_ rest.
     if b = CHR ''t'' \<or> b = CHR ''T'' then Inr (RespBool True, rest)
     else if b = CHR ''f'' \<or> b = CHR ''F'' then Inr (RespBool False, rest)
     else Inl (ParseError ''invalid bool''))) cur"
    by (cases cur) (simp_all add: pbind_def get_u8_def crlf_unit_def split: sum.split)
qed

lemma parse_line_pbind:
  "parse_simple_string = pbind read_line (\<lambda>line cur. Inr (SimpleString line, cur))"
  "parse_error = pbind read_line (\<lambda>line cur. Inr (RespError line, cur))"
  "parse_integer = pbind (read_i64_line ''integer'') (\<lambda>n cur. Inr (Integer n, cur))"
  "parse_null = pbind crlf_unit (\<lambda>_ cur. Inr (RespNull, cur))"
  by (rule ext, simp add: parse_simple_string_def parse_error_def parse_integer_def parse_null_def
      crlf_unit_def pbind_def split: sum.split prod.split)+

lemma parse_values_pbind:
  "parse_values pv (Suc n) =
     pbind pv (\<lambda>v. pbind (parse_values pv n) (\<lambda>vs cur. Inr (v # vs, cur)))"
  by (rule ext) (simp add: pbind_def split: sum.split prod.split)

lemma parse_pairs_pbind:
  "parse_pairs pv (Suc n) =
     pbind pv (\<lambda>k. pbind pv (\<lambda>v. pbind (parse_pairs pv n) (\<lambda>kvs cur. Inr ((k, v) # kvs, cur))))"
  by (rule ext) (simp add: pbind_def split: sum.split prod.split)

lemma parse_array_pbind:
  "parse_array pv sz = pbind (read_i64_line ''array length'')
     (\<lambda>len cur. if len = -1 then Inr (NullArray, cur)
        else if len < 0 then Inl (ParseError ''negative array length'')
        else if len > max_array_len then Inl (ParseError ''array too large'')
        else if with_capacity sz len \<noteq> None then Inl CapacityOverflow
        else pbind (parse_values pv (nat len)) (\<lambda>arr cur. Inr (RespArray arr, cur)) cur)"
  by (rule ext)
    (simp add: parse_array_def pbind_def with_capacity_def split: sum.split prod.split)

lemma parse_map_pbind:
  "parse_map pv sz = pbind (read_i64_line ''map length'')
     (\<lambda>len cur. if len < 0 then Inl (ParseError ''negative map length'')
        else if with_capacity (2 * sz) len \<noteq> None then Inl CapacityOverflow
        else pbind (parse_pairs pv (nat len)) (\<lambda>kvs cur. Inr (RespMap kvs, cur)) cur)"
  by (rule ext) (simp add: parse_map_def pbind_def with_capacity_def split: sum.split prod.split)

lemma parse_push_pbind:
  "parse_push pv sz = pbind (read_i64_line ''push length'')
     (\<lambda>len cur. if len < 0 then Inl (ParseError ''negative push length'')
        else if with_capacity sz len \<noteq> None then Inl CapacityOverflow
        else pbind (parse_values pv (nat len)) (\<lambda>arr cur. Inr (RespPush arr, cur)) cur)"
  by (rule ext) (simp add: parse_push_def pbind_def with_capacity_def split: sum.split prod.split)

lemma frame_parse_values [intro]: "frame_decoder pv \<Longrightarrow> frame_decoder (parse_values pv n)"
proof (induction n)
  case 0
  have "parse_values pv 0 = (\<lambda>cur. Inr ([], cur))" by (rule ext) simp
  then show ?case by auto
next
  case (Suc n)
  then show ?case unfolding parse_values_pbind by auto
qed

lemma frame_parse_pairs [intro]: "frame_decoder pv \<Longrightarrow> frame_decoder (parse_pairs pv n)"
proof (induction n)
  case 0
  have "parse_pairs pv 0 = (\<lambda>cur. Inr ([], cur))" by (rule ext) simp
  then show ?case by auto
next
  case (Suc n)
  then show ?case unfolding parse_pairs_pbind by auto
qed

lemma parse_value_pbind:
  "parse_value (Suc fuel) sz = pbind (get_u8 ''incomplete data'') (\<lambda>b.
     if b = CHR ''+'' then parse_simple_string
     else if b = CHR ''-'' then parse_error
     else if b = CHR '':'' then parse_integer
     else if b = CHR ''$'' then parse_bulk_string
     else if b = CHR ''*'' then parse_array (parse_value fuel sz) sz
     else if b = CHR ''%'' then parse_map (parse_value fuel sz) sz
     else if b = CHR ''#'' then parse_bool
     else if b = CHR ''_'' then parse_null
     else if b = CHR ''>'' then parse_push (parse_value fuel sz) sz
     else (\<lambda>cur. Inl (ParseError (''invalid RESP type byte: '' @ show_nat (of_char b)))))"
  by (rule ext) (simp add: pbind_def get_u8_def split: list.split)

lemma frame_leaf [intro]:
  "frame_decoder parse_simple_string" "frame_decoder parse_error" "frame_decoder parse_integer"
  "frame_decoder parse_null"
  unfolding parse_line_pbind by auto

lemma frame_parse_bool [intro]: "frame_decoder parse_bool"
  unfolding parse_bool_pbind by (intro frame_pbind frame_get_u8 frame_crlf_unit frame_if) auto

lemma frame_parse_bulk_string [intro]: "frame_decoder parse_bulk_string"
  unfolding parse_bulk_string_pbind
  by (intro frame_pbind frame_read_i64_line frame_if frame_return frame_fail frame_bulk_body)

lemma frame_aggregates [intro]:
  assumes "frame_decoder pv"
  shows "frame_decoder (parse_array pv sz)" "frame_decoder (parse_map pv sz)"
    "frame_decoder (parse_push pv sz)"
  unfolding parse_array_pbind parse_map_pbind parse_push_pbind
  by (intro frame_pbind frame_read_i64_line frame_if frame_return frame_fail
      frame_parse_values frame_parse_pairs assms)+

interpretation value_frame: frame_decoder "parse_value fuel sz" for fuel sz
proof (induction fuel)
  case 0
  have "parse_value 0 sz = (\<lambda>cur. Inl OutOfFuel)" by (rule ext) simp
  then show ?case by (simp add: frame_fail)
next
  case (Suc fuel)
  show ?case unfolding parse_value_pbind
    by (intro frame_pbind frame_get_u8)
      (simp add: frame_leaf frame_parse_bool frame_parse_bulk_string frame_fail
        frame_aggregates [OF Suc])
qed


section \<open>Fuel\<close>

text \<open>
  \<open>never_stuck n p\<close>: on at most \<open>n\<close> bytes the parser \<open>p\<close> does not run out of fuel.
  \<open>refines_fuel p q\<close>: \<open>q\<close> answers as \<open>p\<close> does wherever \<open>p\<close> does not run out of fuel.
\<close>

definition never_stuck :: "nat \<Rightarrow> (bytes \<Rightarrow> perr + ('a \<times> bytes)) \<Rightarrow> bool" where
  "never_stuck n p \<longleftrightarrow> (\<forall>cur. length cur \<le> n \<longrightarrow> p cur \<noteq> Inl OutOfFuel)"

definition refines_fuel ::
  "(bytes \<Rightarrow> perr + ('a \<times> bytes)) \<Rightarrow> (bytes \<Rightarrow> perr + ('a \<times> bytes)) \<Rightarrow> bool" where
  "refines_fuel p q \<longleftrightarrow> (\<forall>cur. p cur \<noteq> Inl OutOfFuel \<longrightarrow> q cur = p cur)"

lemma never_stuck_basic [intro]:
  "never_stuck n (\<lambda>cur. Inr (v, cur))"
  "e \<noteq> OutOfFuel \<Longrightarrow> never_stuck n (\<lambda>cur. Inl e)"
  "never_stuck n (get_u8 msg)" "never_stuck n crlf_unit" "never_stuck n (bulk_body k)"
proof -
  show "never_stuck n crlf_unit" unfolding never_stuck_def
  proof (intro allI impI)
    fix cur
    show "crlf_unit cur \<noteq> Inl OutOfFuel"
      by (cases cur rule: expect_crlf.cases) (simp_all add: crlf_unit_def)
  qed
qed (simp_all add: never_stuck_def get_u8_def bulk_body_def split: list.split)

lemma never_stuck_read_line [intro]: "never_stuck n read_line"
proof -
  have "read_line cur \<noteq> Inl OutOfFuel" for cur
    by (induction cur rule: read_line.induct) (auto split: sum.splits)
  then show ?thesis by (simp add: never_stuck_def)
qed

lemma never_stuck_if [intro]:
  "never_stuck n p \<Longrightarrow> never_stuck n q \<Longrightarrow> never_stuck n (\<lambda>cur. if b then p cur else q cur)"
  by (cases b) simp_all

lemma never_stuck_pbind [intro]:
  assumes "frame_decoder p" "never_stuck n p" "\<And>a. never_stuck n (k a)"
  shows "never_stuck n (pbind p k)"
  unfolding never_stuck_def
proof (intro allI impI)
  fix cur :: bytes
  assume cur: "length cur \<le> n"
  show "pbind p k cur \<noteq> Inl OutOfFuel"
  proof (cases "p cur")
    case (Inl e)
    then show ?thesis using assms(2) cur by (auto simp: never_stuck_def pbind_def)
  next
    case (Inr ar)
    obtain a r where ar: "ar = (a, r)" by (cases ar)
    have "length r \<le> n" using frame_decoder.rest_length [OF assms(1)] Inr ar cur by fastforce
    then show ?thesis using assms(3) Inr ar by (simp add: never_stuck_def pbind_def)
  qed
qed

lemma never_stuck_read_i64_line [intro]: "never_stuck n (read_i64_line what)"
  unfolding read_i64_line_pbind
  by (intro never_stuck_pbind frame_read_line never_stuck_read_line)
    (auto simp: never_stuck_def i64_of_line_def split: option.split)

lemma never_stuck_values [intro]:
  "frame_decoder pv \<Longrightarrow> never_stuck n pv \<Longrightarrow> never_stuck n (parse_values pv k)"
proof (induction k)
  case 0
  then show ?case by (simp add: never_stuck_def)
next
  case (Suc k)
  then show ?case unfolding parse_values_pbind by (intro never_stuck_pbind) auto
qed

lemma never_stuck_pairs [intro]:
  "frame_decoder pv \<Longrightarrow> never_stuck n pv \<Longrightarrow> never_stuck n (parse_pairs pv k)"
proof (induction k)
  case 0
  then show ?case by (simp add: never_stuck_def)
next
  case (Suc k)
  then show ?case unfolding parse_pairs_pbind by (intro never_stuck_pbind) auto
qed

lemma never_stuck_aggregates:
  assumes "frame_decoder pv" "never_stuck n pv"
  shows "never_stuck n (parse_array pv sz)" "never_stuck n (parse_map pv sz)"
    "never_stuck n (parse_push pv sz)"
  unfolding parse_array_pbind parse_map_pbind parse_push_pbind
  by (intro never_stuck_pbind frame_read_i64_line never_stuck_read_i64_line never_stuck_if
      never_stuck_basic frame_parse_values frame_parse_pairs never_stuck_values never_stuck_pairs
      assms; simp)+

lemma never_stuck_leaf:
  "never_stuck n parse_simple_string" "never_stuck n parse_error" "never_stuck n parse_integer"
  "never_stuck n parse_null" "never_stuck n parse_bool" "never_stuck n parse_bulk_string"
  unfolding parse_line_pbind parse_bool_pbind parse_bulk_string_pbind
  by (intro never_stuck_pbind never_stuck_if never_stuck_read_line never_stuck_read_i64_line
      never_stuck_basic frame_read_line frame_read_i64_line frame_crlf_unit frame_get_u8; simp)+

lemma never_stuck_parse_value: "n < fuel \<Longrightarrow> never_stuck n (parse_value fuel sz)"
proof (induction fuel arbitrary: n)
  case 0
  then show ?case by simp
next
  case (Suc fuel)
  show ?case unfolding never_stuck_def
  proof (intro allI impI)
    fix cur :: bytes
    assume cur: "length cur \<le> n"
    show "parse_value (Suc fuel) sz cur \<noteq> Inl OutOfFuel"
    proof (cases cur)
      case Nil
      then show ?thesis by simp
    next
      case (Cons b cur')
      then have "length cur' < fuel" using cur Suc.prems by simp
      then have "never_stuck (length cur') (parse_value fuel sz)" by (rule Suc.IH)
      note agg = never_stuck_aggregates [OF value_frame.frame_decoder_axioms this]
      show ?thesis
        using agg [of sz] never_stuck_leaf [of "length cur'"]
        by (simp add: Cons never_stuck_def)
    qed
  qed
qed

lemma parse_value_enough_fuel: "length cur < fuel \<Longrightarrow> parse_value fuel sz cur \<noteq> Inl OutOfFuel"
  using never_stuck_parse_value [of "length cur" fuel sz] by (simp add: never_stuck_def)

lemma refines_fuel_refl [simp]: "refines_fuel p p"
  by (simp add: refines_fuel_def)

lemma refines_fuel_if:
  "refines_fuel p p' \<Longrightarrow> refines_fuel q q' \<Longrightarrow>
     refines_fuel (\<lambda>cur. if b then p cur else q cur) (\<lambda>cur. if b then p' cur else q' cur)"
  by (cases b) simp_all

lemma refines_fuel_pbind:
  assumes "refines_fuel p p'" and "\<And>a. refines_fuel (k a) (k' a)"
  shows "refines_fuel (pbind p k) (pbind p' k')"
  unfolding refines_fuel_def
proof (intro allI impI)
  fix cur
  assume *: "pbind p k cur \<noteq> Inl OutOfFuel"
  then have "p cur \<noteq> Inl OutOfFuel" by (auto simp: pbind_def)
  then have p: "p' cur = p cur" using assms(1) by (simp add: refines_fuel_def)
  show "pbind p' k' cur = pbind p k cur"
    using * assms(2) p by (cases "p cur") (auto simp: pbind_def refines_fuel_def)
qed

lemma refines_fuel_values:
  "refines_fuel pv pv' \<Longrightarrow> refines_fuel (parse_values pv n) (parse_values pv' n)"
proof (induction n)
  case 0
  then show ?case by (simp add: refines_fuel_def)
next
  case (Suc n)
  then show ?case unfolding parse_values_pbind by (intro refines_fuel_pbind) simp_all
qed

lemma refines_fuel_pairs:
  "refines_fuel pv pv' \<Longrightarrow> refines_fuel (parse_pairs pv n) (parse_pairs pv' n)"
proof (induction n)
  case 0
  then show ?case by (simp add: refines_fuel_def)
next
  case (Suc n)
  then show ?case unfolding parse_pairs_pbind by (intro refines_fuel_pbind) simp_all
qed

lemma refines_fuel_aggregates:
  assumes "refines_fuel pv pv'"
  shows "refines_fuel (parse_array pv sz) (parse_array pv' sz)"
    "refines_fuel (parse_map pv sz) (parse_map pv' sz)"
    "refines_fuel (parse_push pv sz) (parse_push pv' sz)"
  unfolding parse_array_pbind parse_map_pbind parse_push_pbind
  by (intro refines_fuel_pbind refines_fuel_if refines_fuel_refl refines_fuel_values
      refines_fuel_pairs assms)+

lemma refines_fuel_Suc: "refines_fuel (parse_value fuel sz) (parse_value (Suc fuel) sz)"
proof (induction fuel)
  case 0
  then show ?case by (simp add: refines_fuel_def)
next
  case (Suc fuel)
  show ?case
    by (subst (1 2) parse_value_pbind, rule refines_fuel_pbind [OF refines_fuel_refl])
      (simp add: refines_fuel_aggregates [OF Suc])
qed

lemma parse_value_more_fuel:
  "parse_value fuel sz cur \<noteq> Inl OutOfFuel \<Longrightarrow> parse_value (fuel + k) sz cur = parse_value fuel sz cur"
proof (induction k)
  case (Suc k)
  then show ?case using refines_fuel_Suc [of "fuel + k" sz] by (simp add: refines_fuel_def)
qed simp

lemma parse_value_fuel_irrelevant:
  assumes "parse_value f sz cur \<noteq> Inl OutOfFuel" "parse_value g sz cur \<noteq> Inl OutOfFuel"
  shows "parse_value f sz cur = parse_value g sz cur"
  using parse_value_more_fuel [OF assms(1), of "g - f"] parse_value_more_fuel [OF assms(2), of "f - g"]
  by (cases "f \<le> g") simp_all


section \<open>Round trip\<close>

fun line_safe :: "bytes \<Rightarrow> bool" where
  "line_safe (a # b # r) = ((a \<noteq> CR \<or> b \<noteq> LF) \<and> line_safe (b # r))"
| "line_safe _ = True"

text \<open>
  The values whose wire form reads back: lines without CRLF, \<open>i64\<close> integers, and payloads and
  aggregates within the parser's limits. \<open>Multiple\<close> is a batch of frames, not a frame.
\<close>

fun encodable :: "nat \<Rightarrow> resp_value \<Rightarrow> bool" where
  "encodable sz (SimpleString s) = line_safe s"
| "encodable sz (RespError s) = line_safe s"
| "encodable sz (Integer i) = in_i64 i"
| "encodable sz (BulkString None) = True"
| "encodable sz (BulkString (Some d)) = (int (length d) \<le> max_bulk_len)"
| "encodable sz (RespArray vs) =
     (int (length vs) \<le> max_array_len \<and> int (length vs) * int sz \<le> i64_max \<and>
      (\<forall>v \<in> set vs. encodable sz v))"
| "encodable sz NullArray = True"
| "encodable sz (Multiple vs) = False"
| "encodable sz (RespMap kvs) =
     (int (length kvs) \<le> i64_max \<and> int (length kvs) * int (2 * sz) \<le> i64_max \<and>
      (\<forall>(k, v) \<in> set kvs. encodable sz k \<and> encodable sz v))"
| "encodable sz (RespBool b) = True"
| "encodable sz RespNull = True"
| "encodable sz (RespPush vs) =
     (int (length vs) \<le> i64_max \<and> int (length vs) * int sz \<le> i64_max \<and>
      (\<forall>v \<in> set vs. encodable sz v))"

abbreviation enc :: "resp_value \<Rightarrow> bytes" where
  "enc v \<equiv> write_to v []"

lemma serialize_enc: "serialize v = enc v"
  by (simp add: serialize_def)

lemma fold_write_append:
  assumes "\<And>v b. v \<in> set vs \<Longrightarrow> w v b = b @ w v []"
  shows "fold w vs buf = buf @ concat (map (\<lambda>v. w v []) vs)"
  using assms
proof (induction vs arbitrary: buf)
  case (Cons v vs)
  have "fold w vs (w v buf) = w v buf @ concat (map (\<lambda>v. w v []) vs)"
    by (rule Cons.IH, rule Cons.prems) simp
  moreover have "w v buf = buf @ w v []" by (rule Cons.prems) simp
  ultimately show ?case by (simp only: fold_simps list.map concat.simps append_assoc o_def)
qed simp

abbreviation write_pair :: "resp_value \<times> resp_value \<Rightarrow> bytes \<Rightarrow> bytes" where
  "write_pair \<equiv> \<lambda>(k, v) b. write_to v (write_to k b)"

lemma write_to_append: "write_to v buf = buf @ enc v"
proof (induction v arbitrary: buf rule: resp_value.induct)
  case (BulkString d)
  then show ?case by (cases d) simp_all
next
  case (RespArray vs)
  show ?case by (simp only: write_to.simps fold_write_append [OF RespArray] append_assoc append_Nil)
next
  case (Multiple vs)
  show ?case by (simp only: write_to.simps fold_write_append [OF Multiple] append_Nil)
next
  case (RespPush vs)
  show ?case by (simp only: write_to.simps fold_write_append [OF RespPush] append_assoc append_Nil)
next
  case (RespMap kvs)
  have pair: "write_pair kv b = b @ write_pair kv []" if "kv \<in> set kvs" for kv b
  proof -
    obtain k v where kv: "kv = (k, v)" by (cases kv)
    then have "k \<in> Basic_BNFs.fsts kv" "v \<in> Basic_BNFs.snds kv" by auto
    then have "write_to k b = b @ enc k" "\<And>c. write_to v c = c @ enc v"
      using RespMap [OF that] by blast+
    from this(1) this(2) [of "b @ enc k"] this(2) [of "enc k"] show ?thesis unfolding kv by simp
  qed
  show ?case by (simp only: write_to.simps fold_write_append [OF pair] append_assoc append_Nil)
next
  case (RespBool b)
  then show ?case by (cases b) simp_all
qed simp_all

lemma concat_enc: "fold write_to vs buf = buf @ concat (map enc vs)"
  by (rule fold_write_append, rule write_to_append)

lemma concat_enc_pairs: "fold write_pair kvs buf = buf @ concat (map (\<lambda>(k, v). enc k @ enc v) kvs)"
proof (induction kvs arbitrary: buf)
  case (Cons kv kvs)
  obtain k v where kv: "kv = (k, v)" by (cases kv)
  have "write_to v (write_to k buf) = buf @ enc k @ enc v"
    using write_to_append [of k buf] write_to_append [of v "buf @ enc k"] by simp
  then show ?case using Cons [of "buf @ enc k @ enc v"] by (simp add: kv)
qed simp

lemma enc_aggregate:
  "enc (RespArray vs) = ''*'' @ show_nat (length vs) @ crlf @ concat (map enc vs)"
  "enc (RespPush vs) = ''>'' @ show_nat (length vs) @ crlf @ concat (map enc vs)"
  "enc (Multiple vs) = concat (map enc vs)"
  "enc (RespMap kvs) =
     ''%'' @ show_nat (length kvs) @ crlf @ concat (map (\<lambda>(k, v). enc k @ enc v) kvs)"
  by (simp_all add: concat_enc concat_enc_pairs)

lemma line_safe_no_CR: "CR \<notin> set s \<Longrightarrow> line_safe s"
  by (induction s rule: line_safe.induct) auto

lemma line_safe_show_int: "line_safe (show_int n)"
proof (rule line_safe_no_CR)
  have "CR \<notin> set (show_nat k)" for k
    using show_nat_digits [of k] by (auto simp: is_digit_def list_all_iff)
  then show "CR \<notin> set (show_int n)" by (simp add: show_int_def)
qed

lemma read_line_safe: "line_safe s \<Longrightarrow> read_line (s @ crlf @ r) = Inr (s, r)"
proof (induction s rule: line_safe.induct)
  case (1 a b s)
  then have "read_line (b # s @ crlf @ r) = Inr (b # s, r)" by simp
  then show ?case using 1 by auto
qed auto

lemma read_i64_line_show:
  "in_i64 n \<Longrightarrow> read_i64_line what (show_int n @ crlf @ r) = Inr (n, r)"
  using read_line_safe [OF line_safe_show_int, of n r] utf8_decode_show_int [of n]
  by (auto simp: read_i64_line_def parse_i64_show_int)

lemma read_i64_line_show_nat:
  "int n \<le> i64_max \<Longrightarrow> read_i64_line what (show_nat n @ crlf @ r) = Inr (int n, r)"
  using read_i64_line_show [of "int n"] by (simp add: show_int_def in_i64_def i64_min_def)

lemma parse_values_enc:
  "(\<And>v r. v \<in> set vs \<Longrightarrow> pv (enc v @ r) = Inr (v, r)) \<Longrightarrow>
     parse_values pv (length vs) (concat (map enc vs) @ r) = Inr (vs, r)"
  by (induction vs) simp_all

lemma parse_pairs_enc:
  "(\<And>k v r. (k, v) \<in> set kvs \<Longrightarrow> pv (enc k @ r) = Inr (k, r) \<and> pv (enc v @ r) = Inr (v, r)) \<Longrightarrow>
     parse_pairs pv (length kvs) (concat (map (\<lambda>(k, v). enc k @ enc v) kvs) @ r) = Inr (kvs, r)"
proof (induction kvs)
  case (Cons kv kvs)
  obtain k v where kv: "kv = (k, v)" by (cases kv)
  have pv: "pv (enc k @ r) = Inr (k, r)" "pv (enc v @ r) = Inr (v, r)" for r
    using Cons.prems [of k v] kv by auto
  have "parse_pairs pv (length kvs) (concat (map (\<lambda>(k, v). enc k @ enc v) kvs) @ r) = Inr (kvs, r)"
    by (rule Cons.IH, rule Cons.prems) simp
  then show ?case by (simp add: kv pv)
qed simp

lemma max_len_i64: "max_bulk_len \<le> i64_max" "max_array_len \<le> i64_max"
  by (simp_all add: max_bulk_len_def max_array_len_def i64_max_def)

lemma parse_value_enc:
  "size v < fuel \<Longrightarrow> encodable sz v \<Longrightarrow> parse_value fuel sz (enc v @ r) = Inr (v, r)"
proof (induction v arbitrary: fuel r rule: resp_value.induct)
  case (SimpleString s)
  then show ?case using read_line_safe [of s r]
    by (cases fuel) (simp_all add: parse_simple_string_def)
next
  case (RespError s)
  then show ?case using read_line_safe [of s r] by (cases fuel) (simp_all add: parse_error_def)
next
  case (Integer i)
  then show ?case using read_i64_line_show [of i _ r]
    by (cases fuel) (simp_all add: parse_integer_def)
next
  case (BulkString d)
  show ?case
  proof (cases d)
    case None
    have "read_i64_line ''bulk string length'' (''-1'' @ crlf @ r) = Inr (-1, r)"
      using read_i64_line_show [of "-1" _ r]
      by (simp add: show_int_def show_nat.simps in_i64_def i64_min_def i64_max_def digit_char_def)
    then show ?thesis using BulkString None by (cases fuel) (simp_all add: parse_bulk_string_def)
  next
    case (Some s)
    then have "int (length s) \<le> i64_max" using BulkString max_len_i64 by simp
    note l = read_i64_line_show_nat [OF this, of "''bulk string length''" "s @ crlf @ r"]
    show ?thesis using BulkString Some l
      by (cases fuel) (simp_all add: parse_bulk_string_def Let_def)
  qed
next
  case (RespArray vs)
  obtain f where f: "fuel = Suc f" using RespArray.prems(1) by (cases fuel) auto
  have "parse_value f sz (enc v @ r) = Inr (v, r)" if "v \<in> set vs" for v r
    using RespArray that size_list_estimation' [OF that, of "size v" size] f by (intro RespArray.IH) auto
  note vs = parse_values_enc [of vs, OF this]
  have "int (length vs) \<le> i64_max" using RespArray.prems max_len_i64 by simp
  note l = read_i64_line_show_nat [OF this, of "''array length''" "concat (map enc vs) @ r"]
  show ?case using RespArray.prems vs l f
    by (simp del: write_to.simps add: enc_aggregate parse_array_def with_capacity_def)
next
  case NullArray
  have "read_i64_line ''array length'' (''-1'' @ crlf @ r) = Inr (-1, r)"
    using read_i64_line_show [of "-1" _ r]
    by (simp add: show_int_def show_nat.simps in_i64_def i64_min_def i64_max_def digit_char_def)
  then show ?case using NullArray by (cases fuel) (simp_all add: parse_array_def)
next
  case (RespMap kvs)
  obtain f where f: "fuel = Suc f" using RespMap.prems(1) by (cases fuel) auto
  have "parse_value f sz (enc k @ r) = Inr (k, r) \<and> parse_value f sz (enc v @ r) = Inr (v, r)"
    if kv: "(k, v) \<in> set kvs" for k v r
    using RespMap.prems RespMap.IH [OF kv] size_fst_resp_map [OF kv] size_snd_resp_map [OF kv] kv f
    by fastforce
  note kvs = parse_pairs_enc [of kvs, OF this]
  have "int (length kvs) \<le> i64_max" using RespMap.prems by simp
  note l = read_i64_line_show_nat [OF this, of "''map length''"
      "concat (map (\<lambda>(k, v). enc k @ enc v) kvs) @ r"]
  show ?case using RespMap.prems kvs l f
    by (simp del: write_to.simps add: enc_aggregate parse_map_def with_capacity_def)
next
  case (RespPush vs)
  obtain f where f: "fuel = Suc f" using RespPush.prems(1) by (cases fuel) auto
  have "parse_value f sz (enc v @ r) = Inr (v, r)" if "v \<in> set vs" for v r
    using RespPush that size_list_estimation' [OF that, of "size v" size] f by (intro RespPush.IH) auto
  note vs = parse_values_enc [of vs, OF this]
  have "int (length vs) \<le> i64_max" using RespPush.prems by simp
  note l = read_i64_line_show_nat [OF this, of "''push length''" "concat (map enc vs) @ r"]
  show ?case using RespPush.prems vs l f
    by (simp del: write_to.simps add: enc_aggregate parse_push_def with_capacity_def)
next
  case (RespBool b)
  then show ?case by (cases fuel; cases b) simp_all
next
  case RespNull
  then show ?case by (cases fuel) (simp_all add: parse_null_def)
qed simp_all

section \<open>The incremental parser\<close>

lemma parse_with_consumed_cases:
  assumes "b \<noteq> []" and "length b < fuel"
  shows "parse_with_consumed sz \<lparr>buffer = b\<rparr> =
    (case parse_value fuel sz b of
       Inr (v, rest) \<Rightarrow> (\<lparr>buffer = rest\<rparr>, Inr (Some (v, length b - length rest)))
     | Inl (ParseError _) \<Rightarrow> (\<lparr>buffer = b\<rparr>, Inr None)
     | Inl e \<Rightarrow> (\<lparr>buffer = b\<rparr>, Inl e))"
proof -
  have "parse_value (Suc (length b)) sz b = parse_value fuel sz b"
    using assms(2) by (intro parse_value_fuel_irrelevant parse_value_enough_fuel) simp_all
  moreover have "drop (length b - length rest) b = rest"
    if "parse_value fuel sz b = Inr (v, rest)" for v rest
    using value_frame.rest_suffix [OF that] by auto
  ultimately show ?thesis using assms(1)
    by (auto simp: parse_with_consumed_def Let_def split: sum.splits perr.splits)
qed

lemma parse_value_progress:
  assumes "parse_value fuel sz b = Inr (v, rest)"
  shows "length rest < length b"
proof (cases fuel)
  case (Suc f)
  then obtain t b' where b: "b = t # b'" using assms by (cases b) auto
  obtain c where c: "b = c @ rest" "\<And>x. parse_value fuel sz (c @ x) = Inr (v, x)"
    using value_frame.frame [OF assms] by blast
  have "c \<noteq> []" using c(2) [of "[]"] Suc by auto
  then show ?thesis using c(1) by simp
qed (use assms in simp)

lemma parse_with_consumed_framing:
  assumes "parse_with_consumed sz \<lparr>buffer = b\<rparr> = (p', Inr (Some (v, n)))"
  obtains c where "b = c @ buffer p'" "n = length c" "c \<noteq> []"
    "\<And>x. parse_with_consumed sz \<lparr>buffer = c @ x\<rparr> = (\<lparr>buffer = x\<rparr>, Inr (Some (v, n)))"
    "\<And>k. k < n \<Longrightarrow> parse_with_consumed sz \<lparr>buffer = take k c\<rparr> = (\<lparr>buffer = take k c\<rparr>, Inr None)"
proof -
  have ne: "b \<noteq> []" using assms by (auto simp: parse_with_consumed_def)
  let ?f = "Suc (length b)"
  obtain rest where r: "parse_value ?f sz b = Inr (v, rest)" "p' = \<lparr>buffer = rest\<rparr>"
    "n = length b - length rest"
    using assms parse_with_consumed_cases [OF ne, of ?f sz]
    by (auto split: sum.splits perr.splits)
  obtain c where c: "b = c @ rest" "\<And>x. parse_value ?f sz (c @ x) = Inr (v, x)"
    "\<And>p q. c = p @ q \<Longrightarrow> q \<noteq> [] \<Longrightarrow> \<exists>m. parse_value ?f sz p = Inl (ParseError m)"
    using value_frame.frame [OF r(1)] by blast
  have "c \<noteq> []" using parse_value_progress [OF r(1)] c(1) by auto
  moreover have "parse_with_consumed sz \<lparr>buffer = c @ x\<rparr> = (\<lparr>buffer = x\<rparr>, Inr (Some (v, n)))" for x
  proof -
    let ?g = "?f + length x"
    have "parse_value ?g sz (c @ x) = Inr (v, x)" using c(2) parse_value_more_fuel [of ?f sz "c @ x"] by simp
    then show ?thesis using parse_with_consumed_cases [of "c @ x" ?g sz] \<open>c \<noteq> []\<close> c(1) r(3) by simp
  qed
  moreover have "parse_with_consumed sz \<lparr>buffer = take k c\<rparr> = (\<lparr>buffer = take k c\<rparr>, Inr None)"
    if "k < n" for k
  proof (cases "take k c = []")
    case True
    then show ?thesis by (simp add: parse_with_consumed_def)
  next
    case False
    have "\<exists>m. parse_value ?f sz (take k c) = Inl (ParseError m)"
      using that c(1) r(3) by (intro c(3) [of _ "drop k c"]) simp_all
    then show ?thesis using parse_with_consumed_cases [OF False, of ?f sz] c(1) by auto
  qed
  ultimately show thesis using that [of c] c(1) r(2,3) by simp
qed

lemma parse_with_consumed_enc:
  assumes "encodable sz v"
  shows "parse_with_consumed sz \<lparr>buffer = serialize v @ rest\<rparr> =
    (\<lparr>buffer = rest\<rparr>, Inr (Some (v, length (serialize v))))"
proof -
  let ?b = "enc v @ rest" and ?f = "Suc (size v + length (enc v @ rest))"
  have "parse_value ?f sz ?b = Inr (v, rest)" using assms by (intro parse_value_enc) simp_all
  moreover have "?b \<noteq> []" using parse_value_progress [OF calculation] by auto
  ultimately show ?thesis using parse_with_consumed_cases [of ?b ?f sz] by (simp add: serialize_enc)
qed

lemma parse_simps:
  "parse_with_consumed sz p = (p', Inr r) \<Longrightarrow> parse sz p = (p', Inr (map_option fst r))"
  "parse_with_consumed sz p = (p', Inl e) \<Longrightarrow> parse sz p = (p', Inl e)"
  by (simp_all add: parse_def)

lemma parse_SomeE:
  assumes "parse sz p = (p', Inr (Some v))"
  obtains n where "parse_with_consumed sz p = (p', Inr (Some (v, n)))"
  using assms by (auto simp: parse_def split: prod.splits sum.splits)

lemma parse_shrinks [termination_simp]:
  assumes "parse sz p = (p', Inr (Some v))"
  shows "length (buffer p') < length (buffer p)"
proof -
  obtain n where "parse_with_consumed sz p = (p', Inr (Some (v, n)))"
    using parse_SomeE [OF assms] .
  moreover obtain b where b: "p = \<lparr>buffer = b\<rparr>" by (cases p)
  ultimately have "parse_with_consumed sz \<lparr>buffer = b\<rparr> = (p', Inr (Some (v, n)))" by simp
  then show ?thesis by (rule parse_with_consumed_framing) (simp add: b)
qed


section \<open>Properties of the protocol\<close>

text \<open>
  C3. Round trip: feeding a fresh parser the wire form of a value within the protocol's limits,
  followed by any other bytes, parses exactly that value, reports exactly its wire length as
  consumed (the figure the replication offset is advanced by) and leaves the following bytes.
\<close>

theorem resp_round_trip:
  assumes "encodable sz v"
  shows "parse_with_consumed sz (feed new_parser (serialize v @ rest)) =
    (\<lparr>buffer = rest\<rparr>, Inr (Some (v, length (serialize v))))"
  using parse_with_consumed_enc [OF assms] by (simp add: feed_def new_parser_def)

theorem resp_round_trip_witness:
  "encodable 56 (RespArray [BulkString (Some ''SET''), BulkString (Some ''k''), Integer (-7)]) \<and>
   parse_with_consumed 56 (feed new_parser
       (serialize (RespArray [BulkString (Some ''SET''), BulkString (Some ''k''), Integer (-7)]) @ ''*1'')) =
     (\<lparr>buffer = ''*1''\<rparr>,
      Inr (Some (RespArray [BulkString (Some ''SET''), BulkString (Some ''k''), Integer (-7)],
        length (serialize (RespArray [BulkString (Some ''SET''), BulkString (Some ''k''), Integer (-7)])))))"
proof -
  have "encodable 56 (RespArray [BulkString (Some ''SET''), BulkString (Some ''k''), Integer (-7)])"
    by (simp add: max_bulk_len_def max_array_len_def i64_max_def i64_min_def in_i64_def)
  then show ?thesis using resp_round_trip by blast
qed

text \<open>
  C9. Framing: when the parser returns a value it has consumed a non-empty prefix of the buffer
  and kept the rest; every shorter prefix of that frame leaves the buffer untouched and asks for
  more data; and the same frame followed by any other bytes gives the same value and leaves those
  bytes. So how the network splits a request never changes what is parsed.
\<close>

theorem resp_framing:
  assumes "parse_with_consumed sz \<lparr>buffer = b\<rparr> = (p', Inr (Some (v, n)))"
  shows "0 < n \<and> n \<le> length b \<and> p' = \<lparr>buffer = drop n b\<rparr> \<and>
    (\<forall>k < n. parse_with_consumed sz \<lparr>buffer = take k b\<rparr> = (\<lparr>buffer = take k b\<rparr>, Inr None)) \<and>
    (\<forall>x. parse_with_consumed sz \<lparr>buffer = take n b @ x\<rparr> = (\<lparr>buffer = x\<rparr>, Inr (Some (v, n))))"
proof -
  obtain c where c: "b = c @ buffer p'" "n = length c" "c \<noteq> []"
    "\<And>x. parse_with_consumed sz \<lparr>buffer = c @ x\<rparr> = (\<lparr>buffer = x\<rparr>, Inr (Some (v, n)))"
    "\<And>k. k < n \<Longrightarrow> parse_with_consumed sz \<lparr>buffer = take k c\<rparr> = (\<lparr>buffer = take k c\<rparr>, Inr None)"
    using parse_with_consumed_framing [OF assms] by metis
  have "take n b = c" "drop n b = buffer p'" "\<And>k. k < n \<Longrightarrow> take k b = take k c"
    using c(2) by (subst c(1), simp)+
  then show ?thesis using c(1-3) c(4) c(5) by (auto simp: c(1))
qed

theorem resp_framing_witness:
  "parse_with_consumed 56 \<lparr>buffer = '':12'' @ crlf @ ''+''\<rparr> =
     (\<lparr>buffer = ''+''\<rparr>, Inr (Some (Integer 12, 5))) \<and>
   parse_with_consumed 56 \<lparr>buffer = take 4 ('':12'' @ crlf @ ''+'')\<rparr> =
     (\<lparr>buffer = take 4 ('':12'' @ crlf @ ''+'')\<rparr>, Inr None) \<and>
   parse_with_consumed 56 \<lparr>buffer = take 5 ('':12'' @ crlf @ ''+'') @ ''$3''\<rparr> =
     (\<lparr>buffer = ''$3''\<rparr>, Inr (Some (Integer 12, 5)))"
proof -
  have *: "parse_with_consumed 56 \<lparr>buffer = '':12'' @ crlf @ ''+''\<rparr> =
      (\<lparr>buffer = ''+''\<rparr>, Inr (Some (Integer 12, 5)))"
    by code_simp
  moreover have "(4 :: nat) < 5" by simp
  ultimately show ?thesis using resp_framing [OF *] by blast
qed


text \<open>
  A map or push header announcing \<open>i64::MAX\<close> elements makes the pre-allocation panic, for every
  non-zero size of a value.
\<close>

theorem resp_huge_header_panics:
  assumes "0 < sz" and "t = CHR ''%'' \<or> t = CHR ''>'' \<and> 1 < sz"
  shows "parse sz (feed new_parser (t # ''9223372036854775807'' @ crlf)) =
    (\<lparr>buffer = t # ''9223372036854775807'' @ crlf\<rparr>, Inl CapacityOverflow)"
proof -
  have "show_nat 9223372036854775807 = ''9223372036854775807''"
    by (simp add: show_nat.simps digit_char_def)
  then have l: "read_i64_line what (''9223372036854775807'' @ crlf) = Inr (i64_max, [])" for what
    using read_i64_line_show_nat [of 9223372036854775807 what "[]"] by (simp add: i64_max_def)
  have "with_capacity (2 * sz) i64_max = Some CapacityOverflow"
    "1 < sz \<Longrightarrow> with_capacity sz i64_max = Some CapacityOverflow"
    using assms(1) by (simp_all add: with_capacity_def i64_max_def)
  then have "parse_value fuel sz (t # ''9223372036854775807'' @ crlf) = Inl CapacityOverflow"
    if "0 < fuel" for fuel
    using assms(2) that l by (cases fuel) (auto simp: parse_map_def parse_push_def i64_max_def)
  then show ?thesis
    by (simp del: parse_value.simps add: parse_def parse_with_consumed_def feed_def new_parser_def)
qed

theorem resp_huge_header_panics_witness:
  "parse 56 (feed new_parser (CHR ''%'' # ''9223372036854775807'' @ crlf)) =
    (\<lparr>buffer = CHR ''%'' # ''9223372036854775807'' @ crlf\<rparr>, Inl CapacityOverflow)"
  using resp_huge_header_panics [of 56 "CHR ''%''"] by simp

text \<open>
  A buffer that starts with a byte that is no RESP type never leaves that state: whatever
  else arrives, every parse asks for more data and keeps all of it. The parser maps malformed
  input and incomplete input to the same answer.
\<close>

theorem resp_malformed_stalls:
  assumes "buffer p = t # b" and "t \<notin> set ''+-:$*%#_>''"
  shows "parse sz (feed p data) = (feed p data, Inr None)"
  using assms by (simp add: parse_def parse_with_consumed_def feed_def)

theorem resp_malformed_stalls_witness:
  "buffer \<lparr>buffer = ''PING''\<rparr> = CHR ''P'' # ''ING'' \<and> CHR ''P'' \<notin> set ''+-:$*%#_>'' \<and>
   parse 56 (feed \<lparr>buffer = ''PING''\<rparr> crlf) = (feed \<lparr>buffer = ''PING''\<rparr> crlf, Inr None)"
  using resp_malformed_stalls [of "\<lparr>buffer = ''PING''\<rparr>" "CHR ''P''" "''ING''" 56 crlf] by simp

end
