(* ===== verification/Memory.thy ===== *)
theory Memory
  imports Kore_Prelude
begin

text \<open>
  Memory accounting, \<open>src/src/memory.rs\<close>: the size estimates and the \<open>MemoryTracker\<close>. Sizes are \<open>nat\<close>
  in the range of \<open>usize\<close>; unchecked and atomic additions wrap at \<open>2 ^ 64\<close>, as in a release build.
  Each atomic operation is one function on the tracker, and the operations are their compositions:
  what another thread may do between two atomic steps is what can come between the two functions.
  \<open>utilization\<close> (a float percentage) is not modelled.
\<close>

section \<open>Size estimates\<close>

definition BYTES_OVERHEAD :: nat where "BYTES_OVERHEAD = 24"

definition DICT_ENTRY_OVERHEAD :: nat where "DICT_ENTRY_OVERHEAD = 32"

definition align_up_8 :: "nat \<Rightarrow> nat" where
  "align_up_8 n = saturating_add n 7 div 8 * 8"

definition with_alloc_overhead :: "nat \<Rightarrow> nat" where
  "with_alloc_overhead raw =
     (if raw = 0 then 0
      else align_up_8 (saturating_add raw (wrapping_add raw 7 div 8)))"

definition estimate_string_entry :: "nat \<Rightarrow> nat \<Rightarrow> nat \<Rightarrow> nat" where
  "estimate_string_entry key_len value_len entry_struct_size =
     with_alloc_overhead
       (wrap_usize (key_len + value_len + entry_struct_size + BYTES_OVERHEAD * 2 + DICT_ENTRY_OVERHEAD))"

definition logical_string_entry :: "nat \<Rightarrow> nat \<Rightarrow> nat \<Rightarrow> nat" where
  "logical_string_entry key_len value_len entry_struct_size =
     wrap_usize (key_len + value_len + entry_struct_size)"

definition estimate_typed_key_base :: "nat \<Rightarrow> nat \<Rightarrow> nat" where
  "estimate_typed_key_base key_len empty_struct_size =
     with_alloc_overhead (wrap_usize (key_len + BYTES_OVERHEAD + DICT_ENTRY_OVERHEAD + empty_struct_size))"

definition estimate_hash_field :: "nat \<Rightarrow> nat \<Rightarrow> nat" where
  "estimate_hash_field field_len value_len =
     with_alloc_overhead (wrap_usize (field_len + value_len + BYTES_OVERHEAD * 2 + DICT_ENTRY_OVERHEAD))"

definition estimate_list_element :: "nat \<Rightarrow> nat" where
  "estimate_list_element elem_len = with_alloc_overhead (wrap_usize (elem_len + BYTES_OVERHEAD + 16))"

definition estimate_set_member :: "nat \<Rightarrow> nat" where
  "estimate_set_member member_len =
     with_alloc_overhead (wrap_usize (member_len + BYTES_OVERHEAD + DICT_ENTRY_OVERHEAD))"

definition estimate_zset_member :: "nat \<Rightarrow> nat \<Rightarrow> nat" where
  "estimate_zset_member member_len skip_node_size =
     with_alloc_overhead (wrap_usize (member_len + BYTES_OVERHEAD + DICT_ENTRY_OVERHEAD + skip_node_size + 8))"

definition estimate_keyed_object :: "nat \<Rightarrow> nat \<Rightarrow> nat" where
  "estimate_keyed_object key_len content_size =
     saturating_add (with_alloc_overhead (wrap_usize (key_len + BYTES_OVERHEAD + DICT_ENTRY_OVERHEAD))) content_size"

section \<open>The tracker\<close>

datatype memory_category =
    Cache | PubSub | SortedSets | GeoSets | Hashes | Lists | Sets | Streams | Search

record memory_tracker =
  cache_memory :: nat
  pubsub_memory :: nat
  sorted_sets_memory :: nat
  geo_sets_memory :: nat
  hashes_memory :: nat
  lists_memory :: nat
  sets_memory :: nat
  streams_memory :: nat
  search_memory :: nat
  total :: nat
  max_memory :: nat
  max_message_size :: nat

definition new_tracker :: "nat \<Rightarrow> nat \<Rightarrow> memory_tracker" where
  "new_tracker mx msg =
     \<lparr>cache_memory = 0, pubsub_memory = 0, sorted_sets_memory = 0, geo_sets_memory = 0,
      hashes_memory = 0, lists_memory = 0, sets_memory = 0, streams_memory = 0,
      search_memory = 0, total = 0, max_memory = mx, max_message_size = msg\<rparr>"

text \<open>\<open>category_atomic\<close>: reading a counter and storing into it.\<close>

fun category_memory :: "memory_category \<Rightarrow> memory_tracker \<Rightarrow> nat" where
  "category_memory Cache t = cache_memory t"
| "category_memory PubSub t = pubsub_memory t"
| "category_memory SortedSets t = sorted_sets_memory t"
| "category_memory GeoSets t = geo_sets_memory t"
| "category_memory Hashes t = hashes_memory t"
| "category_memory Lists t = lists_memory t"
| "category_memory Sets t = sets_memory t"
| "category_memory Streams t = streams_memory t"
| "category_memory Search t = search_memory t"

fun store_category :: "memory_category \<Rightarrow> nat \<Rightarrow> memory_tracker \<Rightarrow> memory_tracker" where
  "store_category Cache v t = t\<lparr>cache_memory := v\<rparr>"
| "store_category PubSub v t = t\<lparr>pubsub_memory := v\<rparr>"
| "store_category SortedSets v t = t\<lparr>sorted_sets_memory := v\<rparr>"
| "store_category GeoSets v t = t\<lparr>geo_sets_memory := v\<rparr>"
| "store_category Hashes v t = t\<lparr>hashes_memory := v\<rparr>"
| "store_category Lists v t = t\<lparr>lists_memory := v\<rparr>"
| "store_category Sets v t = t\<lparr>sets_memory := v\<rparr>"
| "store_category Streams v t = t\<lparr>streams_memory := v\<rparr>"
| "store_category Search v t = t\<lparr>search_memory := v\<rparr>"

definition set_max_memory :: "nat \<Rightarrow> memory_tracker \<Rightarrow> memory_tracker" where
  "set_max_memory sz t = t\<lparr>max_memory := sz\<rparr>"

definition set_max_message_size :: "nat \<Rightarrow> memory_tracker \<Rightarrow> memory_tracker" where
  "set_max_message_size sz t = t\<lparr>max_message_size := sz\<rparr>"

definition can_allocate :: "nat \<Rightarrow> memory_category \<Rightarrow> memory_tracker \<Rightarrow> bool" where
  "can_allocate sz cat t =
     (if cat = PubSub \<and> sz > max_message_size t then False
      else if max_memory t = 0 then True
      else wrapping_add (total t) sz \<le> max_memory t)"

text \<open>The two atomic steps of \<open>account\<close>.\<close>

definition account_category :: "nat \<Rightarrow> memory_category \<Rightarrow> memory_tracker \<Rightarrow> memory_tracker" where
  "account_category sz cat t = store_category cat (wrapping_add (category_memory cat t) sz) t"

definition account_total :: "nat \<Rightarrow> memory_tracker \<Rightarrow> memory_tracker" where
  "account_total sz t = t\<lparr>total := wrapping_add (total t) sz\<rparr>"

definition account :: "nat \<Rightarrow> memory_category \<Rightarrow> memory_tracker \<Rightarrow> memory_tracker" where
  "account sz cat t =
     (if sz = 0 then t else account_total sz (account_category sz cat t))"

definition allocate :: "nat \<Rightarrow> memory_category \<Rightarrow> memory_tracker \<Rightarrow> memory_tracker \<times> bool" where
  "allocate sz cat t =
     (if \<not> can_allocate sz cat t then (t, False) else (account sz cat t, True))"

text \<open>The two atomic steps of \<open>deallocate\<close>; the first returns the amount the second takes off.\<close>

definition deallocate_category ::
  "nat \<Rightarrow> memory_category \<Rightarrow> memory_tracker \<Rightarrow> memory_tracker \<times> nat" where
  "deallocate_category sz cat t =
     (let prev = category_memory cat t in (store_category cat (prev - sz) t, min prev sz))"

definition deallocate_total :: "nat \<Rightarrow> memory_tracker \<Rightarrow> memory_tracker" where
  "deallocate_total actual t = (if actual > 0 then t\<lparr>total := total t - actual\<rparr> else t)"

definition deallocate :: "nat \<Rightarrow> memory_category \<Rightarrow> memory_tracker \<Rightarrow> memory_tracker" where
  "deallocate sz cat t =
     (if sz = 0 then t
      else let (t', actual) = deallocate_category sz cat t in deallocate_total actual t')"

definition reset :: "memory_tracker \<Rightarrow> memory_tracker" where
  "reset t =
     t\<lparr>cache_memory := 0, pubsub_memory := 0, sorted_sets_memory := 0, geo_sets_memory := 0,
       hashes_memory := 0, lists_memory := 0, sets_memory := 0, streams_memory := 0,
       search_memory := 0, total := 0\<rparr>"

definition KEYSPACE_CATEGORIES :: "memory_category list" where
  "KEYSPACE_CATEGORIES = [Cache, SortedSets, GeoSets, Hashes, Lists, Sets, Streams, Search]"

fun take_counts ::
  "memory_category list \<Rightarrow> memory_tracker \<Rightarrow> nat \<Rightarrow> memory_tracker \<times> (memory_category \<times> nat) list \<times> nat" where
  "take_counts [] t taken = (t, [], taken)"
| "take_counts (cat # cats) t taken =
     (let v = category_memory cat t;
          (t', out, taken') = take_counts cats (store_category cat 0 t) (saturating_add taken v)
      in (t', (cat, v) # out, taken'))"

definition take_keyspace_counts :: "memory_tracker \<Rightarrow> memory_tracker \<times> (memory_category \<times> nat) list" where
  "take_keyspace_counts t =
     (let (t', out, taken) = take_counts KEYSPACE_CATEGORIES t 0
      in (if taken > 0 then t'\<lparr>total := total t' - taken\<rparr> else t', out))"

fun install_counts :: "memory_category list \<Rightarrow> nat list \<Rightarrow> memory_tracker \<Rightarrow> nat \<Rightarrow> memory_tracker \<times> nat" where
  "install_counts (cat # cats) (v # vs) t installed =
     install_counts cats vs (store_category cat v t) (saturating_add installed v)"
| "install_counts _ _ t installed = (t, installed)"

definition install_keyspace_counts :: "(memory_category \<times> nat) list \<Rightarrow> memory_tracker \<Rightarrow> memory_tracker" where
  "install_keyspace_counts counts t =
     (let (t', installed) = install_counts KEYSPACE_CATEGORIES (map snd counts) t 0
      in if installed > 0 then t'\<lparr>total := wrapping_add (total t') installed\<rparr> else t')"

definition reset_category :: "memory_category \<Rightarrow> memory_tracker \<Rightarrow> memory_tracker" where
  "reset_category cat t =
     (let prev = category_memory cat t; t' = store_category cat 0 t
      in if prev > 0 then t'\<lparr>total := total t' - prev\<rparr> else t')"

definition total_memory :: "memory_tracker \<Rightarrow> nat" where
  "total_memory t = total t"

section \<open>The running total\<close>

definition category_sum :: "memory_tracker \<Rightarrow> nat" where
  "category_sum t =
     sum_list (map (\<lambda>c. category_memory c t)
       [Cache, PubSub, SortedSets, GeoSets, Hashes, Lists, Sets, Streams, Search])"

definition mem_ok :: "memory_tracker \<Rightarrow> bool" where
  "mem_ok t \<longleftrightarrow> total t = category_sum t \<and> total t \<le> usize_max"

lemma store_category_simps [simp]:
  "category_memory c (store_category d v t) = (if c = d then v else category_memory c t)"
  "total (store_category d v t) = total t" "max_memory (store_category d v t) = max_memory t"
  by (cases d; cases c; simp)+

lemma category_sum_store:
  "category_sum (store_category c v t) + category_memory c t = category_sum t + v"
  by (cases c) (simp_all add: category_sum_def)

lemma total_update [simp]:
  "category_memory c (t\<lparr>total := v\<rparr>) = category_memory c t" "category_sum (t\<lparr>total := v\<rparr>) = category_sum t"
  by (cases c; simp) (simp add: category_sum_def)

lemma category_le_sum: "category_memory c t \<le> category_sum t"
  by (cases c) (simp_all add: category_sum_def)

lemma store_category_twice [simp]:
  "store_category c v (store_category c w t) = store_category c v t"
  "store_category c (category_memory c t) t = t"
  "store_category c v (t\<lparr>total := n\<rparr>) = (store_category c v t)\<lparr>total := n\<rparr>"
  by (cases c; simp)+

lemma account_ok:
  assumes "mem_ok t" "total t + sz \<le> usize_max"
  shows "account sz c t =
      (store_category c (category_memory c t + sz) t)\<lparr>total := total t + sz\<rparr>" "mem_ok (account sz c t)"
proof -
  have "category_memory c t + sz \<le> usize_max"
    using assms category_le_sum [of c t] by (simp add: mem_ok_def)
  then show eq: "account sz c t =
      (store_category c (category_memory c t + sz) t)\<lparr>total := total t + sz\<rparr>"
    using assms(2)
    by (simp add: account_def account_total_def account_category_def wrapping_add_small)
  show "mem_ok (account sz c t)"
    unfolding eq using assms category_sum_store [of c "category_memory c t + sz" t]
    by (simp add: mem_ok_def)
qed

lemma deallocate_ok:
  assumes "mem_ok t"
  shows "deallocate sz c t =
      (store_category c (category_memory c t - sz) t)\<lparr>total := total t - min (category_memory c t) sz\<rparr>"
    "mem_ok (deallocate sz c t)"
proof -
  show eq: "deallocate sz c t =
      (store_category c (category_memory c t - sz) t)\<lparr>total := total t - min (category_memory c t) sz\<rparr>"
    by (simp add: deallocate_def deallocate_category_def deallocate_total_def Let_def)
  show "mem_ok (deallocate sz c t)"
    unfolding eq using assms category_sum_store [of c "category_memory c t - sz" t] category_le_sum [of c t]
    by (auto simp: mem_ok_def min_def)
qed

lemma reset_ok: "mem_ok (reset t)"
  by (simp add: mem_ok_def reset_def category_sum_def)

lemma deallocate_account:
  assumes "mem_ok t" "total t + sz \<le> usize_max"
  shows "deallocate sz c (account sz c t) = t"
proof -
  have "t\<lparr>total := total t\<rparr> = t" by simp
  then show ?thesis
    using deallocate_ok(1) [OF account_ok(2) [OF assms], of sz c c] by (simp add: account_ok(1) [OF assms])
qed

lemma reset_category_ok:
  assumes "mem_ok t"
  shows "mem_ok (reset_category c t)"
  using assms category_sum_store [of c 0 t] category_le_sum [of c t]
  by (auto simp: mem_ok_def reset_category_def Let_def)

lemma take_counts_spec:
  "distinct cats \<Longrightarrow> taken + sum_list (map (\<lambda>c. category_memory c t) cats) \<le> usize_max \<Longrightarrow>
     take_counts cats t taken =
       (fold (\<lambda>c. store_category c 0) cats t, map (\<lambda>c. (c, category_memory c t)) cats,
        taken + sum_list (map (\<lambda>c. category_memory c t) cats))"
proof (induction cats arbitrary: t taken)
  case (Cons c cats)
  have same: "map (\<lambda>d. category_memory d (store_category c 0 t)) cats = map (\<lambda>d. category_memory d t) cats"
    "map (\<lambda>d. (d, category_memory d (store_category c 0 t))) cats = map (\<lambda>d. (d, category_memory d t)) cats"
    using Cons.prems(1) by auto
  have "saturating_add taken (category_memory c t) = taken + category_memory c t"
    using Cons.prems(2) by (simp add: saturating_add_def)
  then show ?case
    using Cons.IH [of "taken + category_memory c t" "store_category c 0 t"] Cons.prems
    unfolding same by (simp add: Let_def add.assoc)
qed simp

lemma install_counts_spec:
  "length vs = length cats \<Longrightarrow> installed + sum_list vs \<le> usize_max \<Longrightarrow>
     install_counts cats vs t installed =
       (fold (\<lambda>(c, v). store_category c v) (zip cats vs) t, installed + sum_list vs)"
proof (induction cats vs t installed rule: install_counts.induct)
  case (1 cat cats v vs t installed)
  have "saturating_add installed v = installed + v"
    using "1.prems"(2) by (simp add: saturating_add_def)
  then show ?case using 1 by (simp add: add.assoc)
qed auto

lemma keyspace_total:
  assumes "mem_ok t"
  shows "total t = pubsub_memory t + sum_list (map (\<lambda>c. category_memory c t) KEYSPACE_CATEGORIES)"
    "sum_list (map (\<lambda>c. category_memory c t) KEYSPACE_CATEGORIES) \<le> usize_max"
  using assms by (simp_all add: mem_ok_def category_sum_def KEYSPACE_CATEGORIES_def)

lemma take_keyspace_ok:
  assumes "mem_ok t"
  shows "take_keyspace_counts t =
      ((fold (\<lambda>c. store_category c 0) KEYSPACE_CATEGORIES t)\<lparr>total := pubsub_memory t\<rparr>,
       map (\<lambda>c. (c, category_memory c t)) KEYSPACE_CATEGORIES)"
    "mem_ok (fst (take_keyspace_counts t))"
proof -
  have d: "distinct KEYSPACE_CATEGORIES" by (simp add: KEYSPACE_CATEGORIES_def)
  have tot: "total (fold (\<lambda>c. store_category c 0) cats u) = total u" for cats u
    by (induction cats arbitrary: u) simp_all
  have upd: "u\<lparr>total := total u\<rparr> = u" for u :: memory_tracker by simp
  show eq: "take_keyspace_counts t =
      ((fold (\<lambda>c. store_category c 0) KEYSPACE_CATEGORIES t)\<lparr>total := pubsub_memory t\<rparr>,
       map (\<lambda>c. (c, category_memory c t)) KEYSPACE_CATEGORIES)"
    using take_counts_spec [OF d, of 0 t] keyspace_total [OF assms] upd [of "fold (\<lambda>c. store_category c 0) KEYSPACE_CATEGORIES t"]
    by (auto simp: take_keyspace_counts_def tot)
  show "mem_ok (fst (take_keyspace_counts t))"
    unfolding eq using assms
    by (simp add: mem_ok_def category_sum_def KEYSPACE_CATEGORIES_def)
qed

lemma install_take:
  assumes "mem_ok t"
  shows "install_keyspace_counts (snd (take_keyspace_counts t)) (fst (take_keyspace_counts t)) = t"
proof -
  let ?vs = "map (\<lambda>c. category_memory c t) KEYSPACE_CATEGORIES"
  let ?t0 = "(fold (\<lambda>c. store_category c 0) KEYSPACE_CATEGORIES t)\<lparr>total := pubsub_memory t\<rparr>"
  have i: "install_counts KEYSPACE_CATEGORIES ?vs ?t0 0 =
      (fold (\<lambda>(c, v). store_category c v) (zip KEYSPACE_CATEGORIES ?vs) ?t0, sum_list ?vs)"
    using install_counts_spec [of ?vs KEYSPACE_CATEGORIES 0 ?t0] keyspace_total(2) [OF assms] by simp
  have f: "fold (\<lambda>(c, v). store_category c v) (zip KEYSPACE_CATEGORIES ?vs) ?t0 = t\<lparr>total := pubsub_memory t\<rparr>"
    by (simp add: KEYSPACE_CATEGORIES_def)
  have "wrapping_add (pubsub_memory t) (sum_list ?vs) = total t"
    using keyspace_total [OF assms] assms by (simp add: wrapping_add_small mem_ok_def)
  moreover have "t\<lparr>total := total t\<rparr> = t" by simp
  moreover have "sum_list ?vs = 0 \<Longrightarrow> pubsub_memory t = total t" using keyspace_total(1) [OF assms] by simp
  ultimately show ?thesis
    by (auto simp: install_keyspace_counts_def take_keyspace_ok(1) [OF assms] i f o_def Let_def simp del: sum_list_eq_0_iff)
qed

lemma fold_store_zip:
  "distinct cats \<Longrightarrow> length vs = length cats \<Longrightarrow>
     category_sum (fold (\<lambda>(c, v). store_category c v) (zip cats vs) t)
       + sum_list (map (\<lambda>c. category_memory c t) cats) = category_sum t + sum_list vs"
proof (induction cats arbitrary: vs t)
  case (Cons c cats)
  from Cons.prems obtain v vs' where vs: "vs = v # vs'" "length vs' = length cats" by (cases vs) auto
  have same: "map (\<lambda>d. category_memory d (store_category c v t)) cats = map (\<lambda>d. category_memory d t) cats"
    using Cons.prems(1) by auto
  show ?case
    using Cons.IH [of vs' "store_category c v t"] Cons.prems(1) vs category_sum_store [of c v t]
    unfolding same by simp
qed simp

text \<open>Installing counters into a tracker whose keyspace counters are zero.\<close>

lemma install_ok:
  assumes "mem_ok t" "\<And>c. c \<in> set KEYSPACE_CATEGORIES \<Longrightarrow> category_memory c t = 0"
    and "length counts = 8" "total t + sum_list (map snd counts) \<le> usize_max"
  shows "mem_ok (install_keyspace_counts counts t)"
proof -
  let ?vs = "map snd counts"
  have len: "length ?vs = length KEYSPACE_CATEGORIES" using assms(3) by (simp add: KEYSPACE_CATEGORIES_def)
  have zero: "sum_list (map (\<lambda>c. category_memory c t) KEYSPACE_CATEGORIES) = 0"
    using assms(2) by (simp add: sum_list_eq_0_iff)
  let ?t' = "fold (\<lambda>(c, v). store_category c v) (zip KEYSPACE_CATEGORIES ?vs) t"
  have i: "install_counts KEYSPACE_CATEGORIES ?vs t 0 = (?t', sum_list ?vs)"
    using install_counts_spec [OF len, of 0 t] assms(4) by simp
  have "category_sum ?t' = category_sum t + sum_list ?vs"
    using fold_store_zip [OF _ len, of t] zero by (simp add: KEYSPACE_CATEGORIES_def)
  moreover have "total (fold (\<lambda>(c, v). store_category c v) cvs u) = total u" for cvs u
    by (induction cvs arbitrary: u) auto
  ultimately show ?thesis
    using assms(1,4)
    by (auto simp: install_keyspace_counts_def i mem_ok_def wrapping_add_small simp del: sum_list_eq_0_iff)
qed

lemma take_keyspace_zero:
  assumes "mem_ok t" "c \<in> set KEYSPACE_CATEGORIES"
  shows "category_memory c (fst (take_keyspace_counts t)) = 0"
  using assms(2) by (auto simp: take_keyspace_ok(1) [OF assms(1)] KEYSPACE_CATEGORIES_def)

text \<open>
  The trackers that uninterleaved operations reach from a fresh one, as long as the total fits a
  \<open>usize\<close>. The last rule is the swap of a scratch keyspace \<open>s\<close> into the live tracker \<open>t\<close>.
\<close>

inductive mem_reachable :: "memory_tracker \<Rightarrow> bool" where
  new: "mem_reachable (new_tracker mx msg)"
| set_max: "mem_reachable t \<Longrightarrow> mem_reachable (set_max_memory sz t)"
| set_message: "mem_reachable t \<Longrightarrow> mem_reachable (set_max_message_size sz t)"
| account: "mem_reachable t \<Longrightarrow> total t + sz \<le> usize_max \<Longrightarrow> mem_reachable (account sz c t)"
| allocate: "mem_reachable t \<Longrightarrow> total t + sz \<le> usize_max \<Longrightarrow> mem_reachable (fst (allocate sz c t))"
| deallocate: "mem_reachable t \<Longrightarrow> mem_reachable (deallocate sz c t)"
| reset: "mem_reachable t \<Longrightarrow> mem_reachable (reset t)"
| reset_category: "mem_reachable t \<Longrightarrow> mem_reachable (reset_category c t)"
| take: "mem_reachable t \<Longrightarrow> mem_reachable (fst (take_keyspace_counts t))"
| swap: "mem_reachable t \<Longrightarrow> mem_reachable s \<Longrightarrow> pubsub_memory t + total s \<le> usize_max \<Longrightarrow>
    mem_reachable (install_keyspace_counts (snd (take_keyspace_counts s)) (fst (take_keyspace_counts t)))"

lemma mem_reachable_ok: "mem_reachable t \<Longrightarrow> mem_ok t"
proof (induction rule: mem_reachable.induct)
  case (new mx msg)
  show ?case by (simp add: mem_ok_def new_tracker_def category_sum_def)
next
  case (set_max t sz)
  then show ?case by (simp add: mem_ok_def set_max_memory_def category_sum_def)
next
  case (set_message t sz)
  then show ?case by (simp add: mem_ok_def set_max_message_size_def category_sum_def)
next
  case (allocate t sz c)
  then show ?case by (simp add: allocate_def account_ok(2))
next
  case (swap t s)
  have "sum_list (map snd (snd (take_keyspace_counts s))) \<le> total s"
    using keyspace_total(1) [OF swap.IH(2)] by (simp add: take_keyspace_ok(1) [OF swap.IH(2)] o_def)
  moreover have "total (fst (take_keyspace_counts t)) = pubsub_memory t" "length (snd (take_keyspace_counts s)) = 8"
    by (simp_all add: take_keyspace_ok(1) [OF swap.IH(1)] take_keyspace_ok(1) [OF swap.IH(2)] KEYSPACE_CATEGORIES_def)
  ultimately show ?case
    using swap.hyps(3) by (intro install_ok take_keyspace_ok(2) swap.IH take_keyspace_zero) auto
qed (simp_all add: account_ok(2) deallocate_ok(2) reset_ok reset_category_ok take_keyspace_ok(2))

lemma align_up_8_bounds:
  assumes "n + 7 \<le> usize_max"
  shows "n \<le> align_up_8 n" "align_up_8 n < n + 8" "8 dvd align_up_8 n"
proof -
  have "align_up_8 n = (n + 7) div 8 * 8" using assms by (simp add: align_up_8_def saturating_add_def)
  moreover have "(n + 7) div 8 * 8 = (n + 7) - (n + 7) mod 8" by (simp add: minus_mod_eq_div_mult)
  moreover have "(n + 7) mod 8 < 8" by simp
  ultimately show "n \<le> align_up_8 n" "align_up_8 n < n + 8" "8 dvd align_up_8 n" by presburger+
qed

section \<open>Properties\<close>

text \<open>
  C30. In every tracker reached by the operations of \<open>MemoryTracker\<close> the running \<open>total\<close> is the sum of
  the nine category counters; accounting an object and releasing it restores the tracker, and
  taking the keyspace counters and installing them again does too.
\<close>

theorem memory_total_is_sum:
  assumes "mem_reachable t" and "total t + sz \<le> usize_max"
  shows "total_memory t = category_sum t \<and> deallocate sz c (account sz c t) = t
    \<and> install_keyspace_counts (snd (take_keyspace_counts t)) (fst (take_keyspace_counts t)) = t
    \<and> total_memory (fst (take_keyspace_counts t)) = category_memory PubSub t"
proof -
  have ok: "mem_ok t" by (rule mem_reachable_ok [OF assms(1)])
  have "total_memory (fst (take_keyspace_counts t)) = category_memory PubSub t"
    by (simp add: total_memory_def take_keyspace_ok(1) [OF ok])
  moreover have "total_memory t = category_sum t" using ok by (simp add: total_memory_def mem_ok_def)
  ultimately show ?thesis using deallocate_account [OF ok assms(2)] install_take [OF ok] by blast
qed

theorem memory_total_is_sum_witness:
  "deallocate 24 Lists (account 24 Lists (account 10 Cache (new_tracker 100 8))) = account 10 Cache (new_tracker 100 8)
   \<and> total_memory (account 10 Cache (new_tracker 100 8)) = category_sum (account 10 Cache (new_tracker 100 8))"
proof -
  have "mem_reachable (account 10 Cache (new_tracker 100 8))"
    by (rule mem_reachable.account [OF mem_reachable.new]) (simp add: new_tracker_def usize_max_def)
  moreover have "total (account 10 Cache (new_tracker 100 8)) + 24 \<le> usize_max"
    by (simp add: account_def account_category_def account_total_def new_tracker_def wrapping_add_def usize_max_def)
  ultimately show ?thesis using memory_total_is_sum by blast
qed

text \<open>
  C32. \<open>allocate\<close> succeeds exactly when the category allows the size and the total stays within a
  non-zero limit; it then charges exactly the size, and a refused allocation changes nothing. The
  price of an object is a multiple of 8 that is at least the object and at most 9/8 of it plus 8.
\<close>

theorem allocate_within_limit:
  assumes "mem_reachable t" and "total t + sz \<le> usize_max" and "allocate sz c t = (t', ok)"
    and "raw + (raw + 7) div 8 + 7 \<le> usize_max"
  shows "(ok \<longleftrightarrow> (c = PubSub \<longrightarrow> sz \<le> max_message_size t)
            \<and> (max_memory t = 0 \<or> total_memory t + sz \<le> max_memory t))
    \<and> (ok \<longrightarrow> total_memory t' = total_memory t + sz \<and> category_memory c t' = category_memory c t + sz
            \<and> (max_memory t' = 0 \<or> total_memory t' \<le> max_memory t'))
    \<and> (\<not> ok \<longrightarrow> t' = t)
    \<and> raw \<le> with_alloc_overhead raw \<and> 8 dvd with_alloc_overhead raw
    \<and> 8 * with_alloc_overhead raw \<le> 9 * raw + 64"
proof -
  have can: "can_allocate sz c t \<longleftrightarrow> (c = PubSub \<longrightarrow> sz \<le> max_message_size t)
      \<and> (max_memory t = 0 \<or> total t + sz \<le> max_memory t)"
    using assms(2) by (auto simp: can_allocate_def wrapping_add_small)
  have price: "with_alloc_overhead raw = align_up_8 (raw + (raw + 7) div 8) \<or> raw = 0 \<and> with_alloc_overhead raw = 0"
    using assms(4) by (simp add: with_alloc_overhead_def saturating_add_def wrapping_add_small)
  have "raw \<le> with_alloc_overhead raw \<and> 8 dvd with_alloc_overhead raw \<and> 8 * with_alloc_overhead raw \<le> 9 * raw + 64"
  proof (cases "with_alloc_overhead raw = 0 \<and> raw = 0")
    case False
    then have "with_alloc_overhead raw = align_up_8 (raw + (raw + 7) div 8)" using price by blast
    moreover have "8 * ((raw + 7) div 8) \<le> raw + 7" by (rule times_div_less_eq_dividend)
    ultimately show ?thesis using align_up_8_bounds [OF assms(4)] by auto
  qed auto
  moreover have "total (account sz c t) = total t + sz" "max_memory (account sz c t) = max_memory t"
    "category_memory c (account sz c t) = category_memory c t + sz"
    by (simp_all add: account_ok(1) [OF mem_reachable_ok [OF assms(1)] assms(2)])
  ultimately show ?thesis
    using assms(3) can by (auto simp: allocate_def total_memory_def split: if_splits)
qed

theorem allocate_within_limit_witness:
  "total_memory (fst (allocate 24 Lists (new_tracker 100 8))) = 24
   \<and> with_alloc_overhead 100 = 120"
proof -
  have e: "allocate 24 Lists (new_tracker 100 8) = (account 24 Lists (new_tracker 100 8), True)"
    by (simp add: allocate_def can_allocate_def new_tracker_def wrapping_add_def usize_max_def)
  have "total_memory (account 24 Lists (new_tracker 100 8)) = total_memory (new_tracker 100 8) + 24"
    using allocate_within_limit [OF mem_reachable.new _ e, of 100] by (simp add: new_tracker_def usize_max_def)
  then have "total_memory (fst (allocate 24 Lists (new_tracker 100 8))) = 24"
    unfolding e by (simp add: total_memory_def new_tracker_def)
  then show ?thesis
    by (simp add: with_alloc_overhead_def align_up_8_def
        saturating_add_def wrapping_add_def usize_max_def)
qed

text \<open>
  Between the two atomic steps of \<open>account\<close> another thread's \<open>deallocate\<close> may run. On a fresh
  tracker it takes the accounted object off its category but can take nothing off the total, which
  saturates at zero: the total keeps the size of an object that is gone, and no later release of
  that category corrects it.
\<close>

theorem memory_race_drifts:
  assumes "0 < sz" "sz \<le> usize_max"
  shows "let t1 = account_category sz c (new_tracker mx msg);
             t2 = deallocate sz c t1;
             t3 = account_total sz t2
         in category_sum t3 = 0 \<and> total_memory t3 = sz \<and> deallocate sz c t3 = t3"
  using assms
  by (cases c) (simp_all add: Let_def account_category_def account_total_def deallocate_def deallocate_category_def
      deallocate_total_def new_tracker_def wrapping_add_small category_sum_def total_memory_def)

theorem memory_race_drifts_witness:
  "total_memory (account_total 10 (deallocate 10 Lists (account_category 10 Lists (new_tracker 0 0)))) = 10"
  using memory_race_drifts [of 10 Lists 0 0] by (simp add: Let_def usize_max_def)

end
