(* ===== verification/Fair_Queue.thy ===== *)
theory Fair_Queue
  imports Kore_Prelude
begin

text \<open>
  The fair lock queue, \<open>src/src/fair_queue.rs\<close>: one priority/FIFO queue of waiting clients per
  resource. The state is the map of queues, the size limit and the statistics; the clock is the
  argument \<open>now\<close>, one reading per operation. The statistics that count operations are \<open>nat\<close>
  (they grow by one per operation and do not reach \<open>2 ^ 64\<close>); the expiry time of a client, which
  depends on a caller's ttl, wraps as \<open>u64\<close> does. An operation on one resource holds the write lock of
  the map throughout, so it is one step; \<open>is_next\<close>, \<open>cleanup_all_expired\<close> and the background pass
  take it several times and are modelled as uninterrupted. The text rendering of the statistics is not modelled.
\<close>

section \<open>Clients, statistics and state\<close>

record queued_client =
  client_id :: bytes
  resource :: string
  queued_at :: nat
  ttl :: nat
  priority :: nat

definition new_client :: "nat \<Rightarrow> bytes \<Rightarrow> string \<Rightarrow> nat \<Rightarrow> nat \<Rightarrow> queued_client" where
  "new_client now cid res tt prio =
     \<lparr>client_id = cid, resource = res, queued_at = now, ttl = tt, priority = prio\<rparr>"

definition is_expired :: "nat \<Rightarrow> queued_client \<Rightarrow> bool" where
  "is_expired now c \<longleftrightarrow> now > wrapping_add (queued_at c) (ttl c)"

definition wait_time :: "nat \<Rightarrow> queued_client \<Rightarrow> nat" where
  "wait_time now c = now - queued_at c"

record fair_queue_stats =
  total_queued :: nat
  active_queues :: nat
  total_enqueued :: nat
  total_dequeued :: nat
  total_expired :: nat
  total_claim_denied :: nat
  total_removed :: nat
  max_wait_time :: nat
  avg_wait_time :: nat

type_synonym queue_map = "(string \<times> queued_client list) list"

record fair_queue =
  queues :: queue_map
  max_queue_size :: nat
  stats :: fair_queue_stats

definition zero_stats :: fair_queue_stats where
  "zero_stats =
     \<lparr>total_queued = 0, active_queues = 0, total_enqueued = 0, total_dequeued = 0, total_expired = 0,
      total_claim_denied = 0, total_removed = 0, max_wait_time = 0, avg_wait_time = 0\<rparr>"

definition new_queue :: "nat \<Rightarrow> fair_queue" where
  "new_queue mx = \<lparr>queues = [], max_queue_size = mx, stats = zero_stats\<rparr>"

section \<open>Operations\<close>

text \<open>The number of waiting clients, and the two statistics every operation recomputes.\<close>

definition queued_sum :: "queue_map \<Rightarrow> nat" where
  "queued_sum qs = sum_list (map (\<lambda>(r, q). length q) qs)"

definition recount :: "queue_map \<Rightarrow> fair_queue_stats \<Rightarrow> fair_queue_stats" where
  "recount qs st = st\<lparr>total_queued := queued_sum qs, active_queues := length qs\<rparr>"

text \<open>A changed queue stays in the map unless it has become empty.\<close>

definition put_queue :: "string \<Rightarrow> queued_client list \<Rightarrow> queue_map \<Rightarrow> queue_map" where
  "put_queue r q qs = (if q = [] then AList.delete r qs else AList.update r q qs)"

text \<open>Insertion in priority order, first in first out within a priority.\<close>

definition insert_by_priority :: "queued_client \<Rightarrow> queued_client list \<Rightarrow> queued_client list" where
  "insert_by_priority client q =
     (let insert_pos = (case position (\<lambda>c. priority c > priority client) q of
                          None \<Rightarrow> length q | Some i \<Rightarrow> i)
      in take insert_pos q @ client # drop insert_pos q)"

definition enqueue :: "queued_client \<Rightarrow> fair_queue \<Rightarrow> fair_queue \<times> bool" where
  "enqueue client fq =
     (let r = resource client;
          q = (case map_of (queues fq) r of None \<Rightarrow> [] | Some q \<Rightarrow> q);
          qs = (case map_of (queues fq) r of None \<Rightarrow> AList.update r [] (queues fq) | Some _ \<Rightarrow> queues fq)
      in if length q \<ge> max_queue_size fq then (fq\<lparr>queues := qs\<rparr>, False)
         else
           let qs' = AList.update r (insert_by_priority client q) qs;
               st = recount qs' (stats fq)
           in (fq\<lparr>queues := qs', stats := st\<lparr>total_enqueued := total_enqueued st + 1\<rparr>\<rparr>, True))"

text \<open>The \<open>retain\<close> of the clients that have not expired; the number removed comes with it.\<close>

definition retain_live :: "nat \<Rightarrow> string \<Rightarrow> queue_map \<Rightarrow> queue_map \<times> nat" where
  "retain_live now r qs =
     (case map_of qs r of
        None \<Rightarrow> (qs, 0)
      | Some q \<Rightarrow>
          let q' = filter (\<lambda>c. \<not> is_expired now c) q
          in (put_queue r q' qs, length q - length q'))"

definition count_expired :: "queue_map \<Rightarrow> nat \<Rightarrow> fair_queue_stats \<Rightarrow> fair_queue_stats" where
  "count_expired qs removed st =
     (if removed > 0 then recount qs (st\<lparr>total_expired := total_expired st + removed\<rparr>) else st)"

definition cleanup_expired :: "nat \<Rightarrow> string \<Rightarrow> fair_queue \<Rightarrow> fair_queue \<times> nat" where
  "cleanup_expired now r fq =
     (let (qs, removed) = retain_live now r (queues fq)
      in (fq\<lparr>queues := qs, stats := count_expired qs removed (stats fq)\<rparr>, removed))"

fun cleanup_list :: "nat \<Rightarrow> string list \<Rightarrow> fair_queue \<Rightarrow> fair_queue \<times> nat" where
  "cleanup_list now [] fq = (fq, 0)"
| "cleanup_list now (r # rs) fq =
     (let (fq1, n) = cleanup_expired now r fq; (fq2, m) = cleanup_list now rs fq1 in (fq2, n + m))"

definition cleanup_all_expired :: "nat \<Rightarrow> fair_queue \<Rightarrow> fair_queue \<times> nat" where
  "cleanup_all_expired now fq = cleanup_list now (map fst (queues fq)) fq"

text \<open>One pass of the background thread of \<open>new_with_cleanup\<close> that no other operation interrupts.\<close>

fun retain_list :: "nat \<Rightarrow> string list \<Rightarrow> queue_map \<Rightarrow> queue_map \<times> nat" where
  "retain_list now [] qs = (qs, 0)"
| "retain_list now (r # rs) qs =
     (let (qs1, n) = retain_live now r qs; (qs2, m) = retain_list now rs qs1 in (qs2, n + m))"

definition cleanup_pass :: "nat \<Rightarrow> fair_queue \<Rightarrow> fair_queue" where
  "cleanup_pass now fq =
     (let (qs, total) = retain_list now (map fst (queues fq)) (queues fq)
      in fq\<lparr>queues := qs, stats := count_expired qs total (stats fq)\<rparr>)"

definition is_next :: "nat \<Rightarrow> string \<Rightarrow> bytes \<Rightarrow> fair_queue \<Rightarrow> fair_queue \<times> bool" where
  "is_next now r cid fq =
     (let fq' = fst (cleanup_expired now r fq)
      in (fq', case map_of (queues fq') r of
                 Some (front # _) \<Rightarrow> client_id front = cid
               | _ \<Rightarrow> True))"

definition try_acquire :: "nat \<Rightarrow> string \<Rightarrow> bytes \<Rightarrow> fair_queue \<Rightarrow> fair_queue \<times> bool" where
  "try_acquire now r cid fq =
     (let (qs, expired) = retain_live now r (queues fq);
          st = count_expired qs expired (stats fq);
          fq' = fq\<lparr>queues := qs, stats := st\<rparr>
      in case map_of qs r of
           Some (front # _) \<Rightarrow>
             if client_id front = cid then (fq', True)
             else (fq'\<lparr>stats := st\<lparr>total_claim_denied := total_claim_denied st + 1\<rparr>\<rparr>, False)
         | _ \<Rightarrow> (fq', True))"

definition count_dequeued :: "nat \<Rightarrow> queued_client \<Rightarrow> queue_map \<Rightarrow> fair_queue_stats \<Rightarrow> fair_queue_stats" where
  "count_dequeued now c qs st =
     (let st1 = recount qs st; n = total_dequeued st1 + 1; w = wait_time now c
      in st1\<lparr>total_dequeued := n,
             max_wait_time := (if w > max_wait_time st1 then w else max_wait_time st1),
             avg_wait_time := (avg_wait_time st1 * (n - 1) + w) div n\<rparr>)"

definition remove_at :: "nat \<Rightarrow> 'a list \<Rightarrow> 'a list" where
  "remove_at i xs = take i xs @ drop (Suc i) xs"

definition dequeue_client :: "nat \<Rightarrow> string \<Rightarrow> bytes \<Rightarrow> fair_queue \<Rightarrow> fair_queue \<times> queued_client option" where
  "dequeue_client now r cid fq =
     (case map_of (queues fq) r of
        None \<Rightarrow> (fq, None)
      | Some q \<Rightarrow>
          let (q', client) =
            (case q of
               front # rest \<Rightarrow>
                 if client_id front = cid then (rest, Some front)
                 else (case position (\<lambda>c. client_id c = cid) q of
                         Some i \<Rightarrow> (remove_at i q, Some (q ! i))
                       | None \<Rightarrow> (q, None))
             | [] \<Rightarrow> ([], None));
              qs = put_queue r q' (queues fq)
          in case client of
               None \<Rightarrow> (fq\<lparr>queues := qs\<rparr>, None)
             | Some c \<Rightarrow> (fq\<lparr>queues := qs, stats := count_dequeued now c qs (stats fq)\<rparr>, Some c))"

definition dequeue :: "nat \<Rightarrow> string \<Rightarrow> fair_queue \<Rightarrow> fair_queue \<times> queued_client option" where
  "dequeue now r fq =
     (case map_of (queues fq) r of
        None \<Rightarrow> (fq, None)
      | Some [] \<Rightarrow> (fq\<lparr>queues := put_queue r [] (queues fq)\<rparr>, None)
      | Some (c # q) \<Rightarrow>
          let qs = put_queue r q (queues fq)
          in (fq\<lparr>queues := qs, stats := count_dequeued now c qs (stats fq)\<rparr>, Some c))"

definition remove_client :: "string \<Rightarrow> bytes \<Rightarrow> fair_queue \<Rightarrow> fair_queue \<times> bool" where
  "remove_client r cid fq =
     (case map_of (queues fq) r of
        None \<Rightarrow> (fq, False)
      | Some q \<Rightarrow>
          (case position (\<lambda>c. client_id c = cid) q of
             None \<Rightarrow> (fq, False)
           | Some i \<Rightarrow>
               let qs = put_queue r (remove_at i q) (queues fq); st = recount qs (stats fq)
               in (fq\<lparr>queues := qs, stats := st\<lparr>total_removed := total_removed st + 1\<rparr>\<rparr>, True)))"

definition get_queue :: "string \<Rightarrow> fair_queue \<Rightarrow> queued_client list" where
  "get_queue r fq = (case map_of (queues fq) r of Some q \<Rightarrow> q | None \<Rightarrow> [])"

definition queue_length :: "string \<Rightarrow> fair_queue \<Rightarrow> nat" where
  "queue_length r fq = (case map_of (queues fq) r of Some q \<Rightarrow> length q | None \<Rightarrow> 0)"

definition client_position :: "string \<Rightarrow> bytes \<Rightarrow> fair_queue \<Rightarrow> nat option" where
  "client_position r cid fq =
     (case map_of (queues fq) r of
        Some q \<Rightarrow> position (\<lambda>c. client_id c = cid) q
      | None \<Rightarrow> None)"

definition clear_queues :: "fair_queue \<Rightarrow> fair_queue" where
  "clear_queues fq = fq\<lparr>queues := [], stats := (stats fq)\<lparr>total_queued := 0, active_queues := 0\<rparr>\<rparr>"

section \<open>The map of queues\<close>

lemma get_put_queue:
  "hm_wf qs \<Longrightarrow> map_of (put_queue r q qs) r' =
     (if r' = r then if q = [] then None else Some q else map_of qs r')"
  by (simp add: put_queue_def map_of_delete update_conv' delete_conv')

lemma hm_wf_put_queue [simp]: "hm_wf qs \<Longrightarrow> hm_wf (put_queue r q qs)"
  by (simp add: put_queue_def distinct_update distinct_delete)

lemma set_put_queue: "set (put_queue r q qs) \<subseteq> (if q = [] then {} else {(r, q)}) \<union> set qs"
  by (induction qs) (auto simp: put_queue_def AList.delete_eq)

lemma put_queue_same: "map_of qs r = Some q \<Longrightarrow> q \<noteq> [] \<Longrightarrow> put_queue r q qs = qs"
  by (induction qs) (auto simp: put_queue_def split: if_splits)

lemma queued_sum_put:
  "hm_wf qs \<Longrightarrow> map_of qs r = Some q \<Longrightarrow> queued_sum (put_queue r q' qs) + length q = queued_sum qs + length q'"
  using sum_list_update [of "\<lambda>(r, q). length q" r q' qs] sum_list_delete [of qs "\<lambda>(r, q). length q" r]
  by (simp add: put_queue_def queued_sum_def del: map_of_eq_Some_iff)

lemma remove_at_split: "remove_at (length ys) (ys @ x # zs) = ys @ zs"
  by (simp add: remove_at_def)

section \<open>The invariant\<close>

text \<open>
  Every queue is ordered by priority and within the limit, and unless the limit is 0 no empty queue
  stays in the map. The statistics agree with the map, and every client ever queued is either still
  waiting or counted once as dequeued, expired or removed; \<open>lost\<close> counts those \<open>clear_queues\<close> dropped.
\<close>

definition qmap_ok :: "nat \<Rightarrow> queue_map \<Rightarrow> bool" where
  "qmap_ok mx qs \<longleftrightarrow> hm_wf qs \<and>
     (\<forall>(r, q) \<in> set qs. sorted (map priority q) \<and> length q \<le> mx \<and> (0 < mx \<longrightarrow> q \<noteq> []))"

definition stats_ok :: "nat \<Rightarrow> nat \<Rightarrow> queue_map \<Rightarrow> fair_queue_stats \<Rightarrow> bool" where
  "stats_ok lost mx qs st \<longleftrightarrow> total_queued st = queued_sum qs \<and> (0 < mx \<longrightarrow> active_queues st = length qs) \<and>
     total_enqueued st = total_dequeued st + total_expired st + total_removed st + total_queued st + lost"

definition fq_ok :: "nat \<Rightarrow> fair_queue \<Rightarrow> bool" where
  "fq_ok lost fq \<longleftrightarrow> qmap_ok (max_queue_size fq) (queues fq)
     \<and> stats_ok lost (max_queue_size fq) (queues fq) (stats fq)"

lemma qmap_okD:
  assumes "qmap_ok mx qs" "map_of qs r = Some q"
  shows "hm_wf qs" "sorted (map priority q)" "length q \<le> mx" "0 < mx \<Longrightarrow> q \<noteq> []"
  using assms map_of_SomeD [OF assms(2)] by (auto simp: qmap_ok_def)

lemma qmap_ok_put:
  assumes "qmap_ok mx qs" "sorted (map priority q)" "length q \<le> mx"
  shows "qmap_ok mx (put_queue r q qs)"
proof -
  have "(\<forall>(r, q) \<in> set qs. sorted (map priority q) \<and> length q \<le> mx \<and> (0 < mx \<longrightarrow> q \<noteq> []))" "hm_wf qs"
    using assms(1) by (auto simp: qmap_ok_def)
  then show ?thesis
    using assms(2,3) set_put_queue [of r q qs] unfolding qmap_ok_def
    by (auto split: if_splits)
qed

lemma retain_live_spec:
  assumes "qmap_ok mx qs" "retain_live now r qs = (qs', n)"
  shows "qmap_ok mx qs' \<and> queued_sum qs' + n = queued_sum qs \<and> (0 < mx \<longrightarrow> n = 0 \<longrightarrow> qs' = qs)
    \<and> (\<forall>r'. map_of qs' r' = (case map_of qs r' of
       None \<Rightarrow> None
     | Some q \<Rightarrow> if r' \<noteq> r then Some q
                 else if filter (\<lambda>c. \<not> is_expired now c) q = [] then None
                 else Some (filter (\<lambda>c. \<not> is_expired now c) q)))"
proof (cases "map_of qs r")
  case None
  then show ?thesis using assms by (auto simp: retain_live_def split: option.splits)
next
  case (Some q)
  let ?live = "filter (\<lambda>c. \<not> is_expired now c) q"
  note d = qmap_okD [OF assms(1) Some]
  have e: "qs' = put_queue r ?live qs" "n = length q - length ?live"
    using assms(2) Some by (auto simp: retain_live_def Let_def)
  have le: "length ?live \<le> length q" by (rule length_filter_le)
  have "?live = q" if "length q - length ?live = 0"
    using that le by (metis diff_is_0_eq filter_id_conv le_antisym length_filter_less nless_le)
  then have "0 < mx \<longrightarrow> n = 0 \<longrightarrow> qs' = qs"
    using e d(4) put_queue_same [OF Some] by auto
  moreover have "qmap_ok mx qs'"
    unfolding e using d(2,3) le by (intro qmap_ok_put [OF assms(1)] sorted_filter order_trans [OF le])
  moreover have "queued_sum qs' + n = queued_sum qs"
    using queued_sum_put [OF d(1) Some, of ?live] le by (simp add: e)
  ultimately show ?thesis
    using Some by (auto simp: e(1) get_put_queue [OF d(1)] simp del: map_of_eq_Some_iff split: option.splits)
qed

lemmas retain_live_ok =
  retain_live_spec [THEN conjunct1]
  retain_live_spec [THEN conjunct2, THEN conjunct1]
  retain_live_spec [THEN conjunct2, THEN conjunct2, THEN conjunct1, rule_format]
  retain_live_spec [THEN conjunct2, THEN conjunct2, THEN conjunct2, THEN spec]

lemma count_expired_ok:
  assumes "stats_ok lost mx qs st" "queued_sum qs' + n = queued_sum qs" "0 < mx \<Longrightarrow> n = 0 \<Longrightarrow> qs' = qs"
  shows "stats_ok lost mx qs' (count_expired qs' n st)"
  using assms by (auto simp: stats_ok_def count_expired_def recount_def)

lemma retain_list_ok:
  "qmap_ok mx qs \<Longrightarrow> retain_list now rs qs = (qs', n) \<Longrightarrow>
     qmap_ok mx qs' \<and> queued_sum qs' + n = queued_sum qs \<and> (0 < mx \<longrightarrow> n = 0 \<longrightarrow> qs' = qs)"
proof (induction now rs qs arbitrary: qs' n rule: retain_list.induct)
  case (2 now r rs qs)
  obtain qs1 k where 1: "retain_live now r qs = (qs1, k)" by fastforce
  obtain qs2 m where 2: "retain_list now rs qs1 = (qs2, m)" by fastforce
  from "2.prems"(2) 1 2 have "qs' = qs2" "n = k + m" by auto
  moreover note retain_live_ok(1-3) [OF "2.prems"(1) 1] "2.IH" [OF 1 [symmetric] refl retain_live_ok(1) [OF "2.prems"(1) 1] 2]
  ultimately show ?case by auto
qed simp

lemma cleanup_expired_ok: "fq_ok lost fq \<Longrightarrow> fq_ok lost (fst (cleanup_expired now r fq))"
  by (cases "retain_live now r (queues fq)")
    (auto simp: fq_ok_def cleanup_expired_def intro: retain_live_ok(1) count_expired_ok retain_live_ok(2,3))

lemma cleanup_list_ok: "fq_ok lost fq \<Longrightarrow> fq_ok lost (fst (cleanup_list now rs fq))"
  by (induction rs arbitrary: fq) (auto simp: case_prod_beta Let_def intro: cleanup_expired_ok)

lemma cleanup_pass_ok:
  assumes "fq_ok lost fq"
  shows "fq_ok lost (cleanup_pass now fq)"
proof -
  obtain qs n where r: "retain_list now (map fst (queues fq)) (queues fq) = (qs, n)" by fastforce
  have "qmap_ok (max_queue_size fq) (queues fq)" using assms by (simp add: fq_ok_def)
  from retain_list_ok [OF this r] show ?thesis
    using assms by (auto simp: fq_ok_def cleanup_pass_def r intro: count_expired_ok)
qed

lemma fq_ok_expired:
  "fq_ok lost fq \<Longrightarrow> retain_live now r (queues fq) = (qs, n) \<Longrightarrow>
     fq_ok lost (fq\<lparr>queues := qs, stats := count_expired qs n (stats fq)\<rparr>)"
  using cleanup_expired_ok [of lost fq now r] by (simp add: cleanup_expired_def)

lemma fq_ok_denied: "fq_ok lost fq \<Longrightarrow> fq_ok lost (fq\<lparr>stats := (stats fq)\<lparr>total_claim_denied := n\<rparr>\<rparr>)"
  by (simp add: fq_ok_def stats_ok_def)

lemma try_acquire_ok:
  assumes "fq_ok lost fq"
  shows "fq_ok lost (fst (try_acquire now r cid fq))"
proof -
  obtain qs n where r: "retain_live now r (queues fq) = (qs, n)" by fastforce
  note ok = fq_ok_expired [OF assms r]
  show ?thesis
    using ok fq_ok_denied [OF ok] by (auto simp: try_acquire_def r Let_def split: option.splits list.splits)
qed

text \<open>Taking one client out of a queue, however it was found.\<close>

lemma take_one_ok:
  assumes "fq_ok lost fq" "map_of (queues fq) r = Some (ys @ c # zs)"
  defines "qs \<equiv> put_queue r (ys @ zs) (queues fq)"
  shows "qmap_ok (max_queue_size fq) qs" "Suc (queued_sum qs) = queued_sum (queues fq)"
proof -
  have ok: "qmap_ok (max_queue_size fq) (queues fq)" using assms(1) by (simp add: fq_ok_def)
  note d = qmap_okD [OF ok assms(2)]
  show "qmap_ok (max_queue_size fq) qs"
    unfolding qs_def using d(2,3) by (intro qmap_ok_put [OF ok]) (auto simp: sorted_append)
  show "Suc (queued_sum qs) = queued_sum (queues fq)"
    using queued_sum_put [OF d(1) assms(2), of "ys @ zs"] by (simp add: qs_def)
qed

lemma position_splitE:
  assumes "position p xs = Some i"
  obtains ys x zs where "xs = ys @ x # zs" "i = length ys" "p x" "\<forall>y \<in> set ys. \<not> p y"
proof
  note s = position_split [OF assms]
  show "xs = take i xs @ xs ! i # drop (Suc i) xs" using s by (simp add: id_take_nth_drop)
  show "i = length (take i xs)" "p (xs ! i)" "\<forall>y \<in> set (take i xs). \<not> p y"
    using s by (auto simp: list_all_iff)
qed

lemma count_dequeued_ok:
  assumes "stats_ok lost mx qs st" "Suc (queued_sum qs') = queued_sum qs"
  shows "stats_ok lost mx qs' (count_dequeued now c qs' st)"
  using assms by (simp add: stats_ok_def count_dequeued_def recount_def Let_def)

lemma dequeue_taken_ok:
  assumes "fq_ok lost fq" "map_of (queues fq) r = Some (ys @ c # zs)"
  shows "fq_ok lost (fq\<lparr>queues := put_queue r (ys @ zs) (queues fq),
           stats := count_dequeued now c (put_queue r (ys @ zs) (queues fq)) (stats fq)\<rparr>)"
  using assms(1) take_one_ok [OF assms] by (auto simp: fq_ok_def intro: count_dequeued_ok)

text \<open>Writing back an unchanged queue: only the empty queue of a limit of 0 can disappear.\<close>

lemma put_unchanged_ok:
  assumes "fq_ok lost fq" "map_of (queues fq) r = Some q"
  shows "fq_ok lost (fq\<lparr>queues := put_queue r q (queues fq)\<rparr>)"
proof -
  have ok: "qmap_ok (max_queue_size fq) (queues fq)" using assms(1) by (simp add: fq_ok_def)
  note d = qmap_okD [OF ok assms(2)]
  have "queued_sum (put_queue r q (queues fq)) = queued_sum (queues fq)"
    using queued_sum_put [OF d(1) assms(2), of q] by simp
  moreover have "0 < max_queue_size fq \<Longrightarrow> put_queue r q (queues fq) = queues fq"
    using d(4) put_queue_same [OF assms(2)] by simp
  ultimately show ?thesis
    using assms(1) qmap_ok_put [OF ok d(2,3)] by (auto simp: fq_ok_def stats_ok_def)
qed

lemma dequeue_ok: "fq_ok lost fq \<Longrightarrow> fq_ok lost (fst (dequeue now r fq))"
  using dequeue_taken_ok [of lost fq r "[]"] put_unchanged_ok [of lost fq r]
  by (auto simp: dequeue_def Let_def simp del: map_of_eq_Some_iff split: option.splits list.splits)

lemma dequeue_client_cases:
  obtains "fst (dequeue_client now r cid fq) = fq" "snd (dequeue_client now r cid fq) = None"
      "\<And>q. map_of (queues fq) r \<noteq> Some q"
  | q where "map_of (queues fq) r = Some q" "\<forall>c \<in> set q. client_id c \<noteq> cid"
      "dequeue_client now r cid fq = (fq\<lparr>queues := put_queue r q (queues fq)\<rparr>, None)"
  | ys c zs where "map_of (queues fq) r = Some (ys @ c # zs)" "client_id c = cid" "\<forall>y \<in> set ys. client_id y \<noteq> cid"
      "dequeue_client now r cid fq =
         (fq\<lparr>queues := put_queue r (ys @ zs) (queues fq),
             stats := count_dequeued now c (put_queue r (ys @ zs) (queues fq)) (stats fq)\<rparr>, Some c)"
proof (cases "map_of (queues fq) r")
  case None
  then show ?thesis using that(1) by (simp add: dequeue_client_def del: map_of_eq_Some_iff)
next
  case (Some q)
  show ?thesis
  proof (cases "position (\<lambda>c. client_id c = cid) q")
    case None
    then have "\<forall>c \<in> set q. client_id c \<noteq> cid" by (simp add: position_None list_all_iff)
    then show ?thesis
      using that(2) [OF Some] Some None
      by (cases q) (simp_all add: dequeue_client_def Let_def del: position.simps map_of_eq_Some_iff)
  next
    case (Some i)
    from position_splitE [OF this] obtain ys c zs
      where q: "q = ys @ c # zs" "i = length ys" "client_id c = cid" "\<forall>y \<in> set ys. client_id y \<noteq> cid" by blast
    have "remove_at i q = ys @ zs" "q ! i = c" by (simp_all add: q remove_at_split)
    then show ?thesis
      using that(3) [of ys c zs] q Some \<open>map_of (queues fq) r = Some q\<close>
      by (cases ys) (simp_all add: dequeue_client_def Let_def del: position.simps map_of_eq_Some_iff)
  qed
qed

lemma dequeue_client_ok:
  assumes "fq_ok lost fq"
  shows "fq_ok lost (fst (dequeue_client now r cid fq))"
  by (rule dequeue_client_cases [of now r cid fq])
    (auto simp: assms put_unchanged_ok dequeue_taken_ok simp del: map_of_eq_Some_iff)

lemma remove_client_ok:
  assumes "fq_ok lost fq"
  shows "fq_ok lost (fst (remove_client r cid fq))"
proof (cases "map_of (queues fq) r")
  case None
  then show ?thesis using assms by (simp add: remove_client_def)
next
  case (Some q)
  show ?thesis
  proof (cases "position (\<lambda>c. client_id c = cid) q")
    case None
    have "remove_client r cid fq = (fq, False)" unfolding remove_client_def Some option.case None ..
    then show ?thesis using assms by simp
  next
    case (Some i)
    from position_splitE [OF this] obtain ys c zs
      where s: "q = ys @ c # zs" "i = length ys" "client_id c = cid" "\<forall>y \<in> set ys. client_id y \<noteq> cid" by blast
    have m: "map_of (queues fq) r = Some (ys @ c # zs)" using \<open>map_of (queues fq) r = Some q\<close> s(1) by simp
    note ok = take_one_ok [OF assms m]
    have r: "remove_at i q = ys @ zs" by (simp add: s(1,2) remove_at_split)
    let ?qs = "put_queue r (ys @ zs) (queues fq)"
    have e: "fst (remove_client r cid fq) = fq\<lparr>queues := ?qs,
        stats := (recount ?qs (stats fq))\<lparr>total_removed := total_removed (recount ?qs (stats fq)) + 1\<rparr>\<rparr>"
      unfolding remove_client_def \<open>map_of (queues fq) r = Some q\<close> option.case Some r Let_def by simp
    show ?thesis
      unfolding e using ok assms by (simp add: fq_ok_def stats_ok_def recount_def)
  qed
qed

text \<open>The insertion of a client: behind everyone of its priority, before everyone of a lower one.\<close>

lemma insert_by_priority_split:
  assumes "sorted (map priority q)"
  obtains ys zs where "q = ys @ zs" "insert_by_priority client q = ys @ client # zs"
    "\<forall>y \<in> set ys. priority y \<le> priority client" "\<forall>z \<in> set zs. priority client < priority z"
proof (cases "position (\<lambda>c. priority c > priority client) q")
  case None
  then have "\<forall>y \<in> set q. priority y \<le> priority client" by (auto simp: position_None list_all_iff not_less)
  then show ?thesis using that [of q "[]"] None by (simp add: insert_by_priority_def)
next
  case (Some j)
  from position_splitE [OF this] obtain ys x zs where s: "q = ys @ x # zs" "j = length ys"
    "priority x > priority client" "\<forall>y \<in> set ys. \<not> priority y > priority client" by blast
  then have "\<forall>z \<in> set (x # zs). priority client < priority z" using assms by (auto simp: sorted_append)
  then show ?thesis using that [of ys "x # zs"] Some s by (auto simp: insert_by_priority_def not_less)
qed

lemma insert_by_priority:
  assumes "sorted (map priority q)"
  shows "sorted (map priority (insert_by_priority client q))"
    "length (insert_by_priority client q) = Suc (length q)" "insert_by_priority client q \<noteq> []"
    "filter (\<lambda>c. priority c = p) (insert_by_priority client q) =
       filter (\<lambda>c. priority c = p) q @ (if p = priority client then [client] else [])"
proof -
  obtain ys zs where s: "q = ys @ zs" "insert_by_priority client q = ys @ client # zs"
    "\<forall>y \<in> set ys. priority y \<le> priority client" "\<forall>z \<in> set zs. priority client < priority z"
    using insert_by_priority_split [OF assms] by blast
  then show "sorted (map priority (insert_by_priority client q))"
    using assms by (auto simp: sorted_append less_imp_le)
  have "filter (\<lambda>c. priority c = priority client) zs = []" using s(4) by (auto simp: filter_empty_conv)
  then show "filter (\<lambda>c. priority c = p) (insert_by_priority client q) =
       filter (\<lambda>c. priority c = p) q @ (if p = priority client then [client] else [])"
    unfolding s(2) by (auto simp: s(1))
qed (simp_all add: insert_by_priority_def Let_def)

lemma enqueue_refused:
  assumes "qmap_ok (max_queue_size fq) (queues fq)" "length (get_queue (resource client) fq) \<ge> max_queue_size fq"
  shows "\<exists>qs. enqueue client fq = (fq\<lparr>queues := qs\<rparr>, False) \<and> qmap_ok (max_queue_size fq) qs
    \<and> queued_sum qs = queued_sum (queues fq) \<and> (0 < max_queue_size fq \<longrightarrow> qs = queues fq)
    \<and> (\<forall>r. get_queue r (fq\<lparr>queues := qs\<rparr>) = get_queue r fq)"
proof (cases "map_of (queues fq) (resource client)")
  case None
  let ?qs = "AList.update (resource client) [] (queues fq)"
  have mx: "max_queue_size fq = 0" using assms(2) None by (simp add: get_queue_def)
  have "?qs = queues fq @ [(resource client, [])]"
    using None by (simp add: update_absent)
  then have "qmap_ok (max_queue_size fq) ?qs"
    using assms(1) mx distinct_update [of "queues fq" "resource client" "[]"] by (auto simp: qmap_ok_def)
  moreover have "queued_sum ?qs = queued_sum (queues fq)"
    using sum_list_update [of "\<lambda>(r, q). length q" "resource client" "[]" "queues fq"] None
    by (simp add: queued_sum_def)
  moreover have "\<forall>r. get_queue r (fq\<lparr>queues := ?qs\<rparr>) = get_queue r fq"
    using None by (simp add: get_queue_def update_conv')
  ultimately show ?thesis
    using None mx by (intro exI [of _ ?qs]) (simp add: enqueue_def)
next
  case (Some q)
  then show ?thesis
    using assms by (intro exI [of _ "queues fq"]) (simp add: enqueue_def get_queue_def del: map_of_eq_Some_iff)
qed

lemma enqueue_accepted:
  assumes "length (get_queue (resource client) fq) < max_queue_size fq"
  defines "qs \<equiv> put_queue (resource client) (insert_by_priority client (get_queue (resource client) fq)) (queues fq)"
  shows "enqueue client fq =
    (fq\<lparr>queues := qs, stats := (recount qs (stats fq))\<lparr>total_enqueued := total_enqueued (stats fq) + 1\<rparr>\<rparr>, True)"
proof -
  have t: "total_enqueued (recount qs' st) = total_enqueued st" for qs' st by (simp add: recount_def)
  have u: "AList.update r v (AList.update r w m) = AList.update r v m" for r v w and m :: queue_map
    by (induction m) auto
  have n: "insert_by_priority client q \<noteq> []" for q by (simp add: insert_by_priority_def Let_def)
  show ?thesis
    using assms(1) n by (cases "map_of (queues fq) (resource client)")
      (simp_all add: enqueue_def qs_def get_queue_def put_queue_def Let_def t u del: map_of_eq_Some_iff)
qed

lemma get_queue_sorted:
  "qmap_ok (max_queue_size fq) (queues fq) \<Longrightarrow> sorted (map priority (get_queue r fq)) \<and> length (get_queue r fq) \<le> max_queue_size fq"
  by (cases "map_of (queues fq) r") (auto simp: get_queue_def dest: qmap_okD simp del: map_of_eq_Some_iff)

lemma queued_sum_put_get:
  "hm_wf (queues fq) \<Longrightarrow> q' \<noteq> [] \<Longrightarrow>
     queued_sum (put_queue r q' (queues fq)) + length (get_queue r fq) = queued_sum (queues fq) + length q'"
  using sum_list_update [of "\<lambda>(r, q). length q" r q' "queues fq"]
  by (cases "map_of (queues fq) r") (simp_all add: put_queue_def queued_sum_def get_queue_def del: map_of_eq_Some_iff)

lemma enqueue_ok:
  assumes "fq_ok lost fq"
  shows "fq_ok lost (fst (enqueue client fq))"
proof (cases "length (get_queue (resource client) fq) < max_queue_size fq")
  case True
  have ok: "qmap_ok (max_queue_size fq) (queues fq)" using assms by (simp add: fq_ok_def)
  note q = get_queue_sorted [OF ok, of "resource client"]
  note ins = insert_by_priority [OF conjunct1 [OF q], where client = client]
  have "qmap_ok (max_queue_size fq)
      (put_queue (resource client) (insert_by_priority client (get_queue (resource client) fq)) (queues fq))"
    using True ins(2) by (intro qmap_ok_put [OF ok ins(1)]) simp
  then show ?thesis
    unfolding enqueue_accepted [OF True] fst_conv
    using assms ins(2) queued_sum_put_get [where fq = fq and r = "resource client", OF _ ins(3)] ok
    by (auto simp: fq_ok_def stats_ok_def recount_def qmap_ok_def)
next
  case False
  have ok: "qmap_ok (max_queue_size fq) (queues fq)" using assms by (simp add: fq_ok_def)
  obtain qs where "enqueue client fq = (fq\<lparr>queues := qs\<rparr>, False)" "qmap_ok (max_queue_size fq) qs"
    "queued_sum qs = queued_sum (queues fq)" "0 < max_queue_size fq \<longrightarrow> qs = queues fq"
    using enqueue_refused [OF ok] False by (metis not_less)
  then show ?thesis using assms by (auto simp: fq_ok_def stats_ok_def)
qed

lemma clear_ok: "fq_ok lost fq \<Longrightarrow> fq_ok (lost + total_queued (stats fq)) (clear_queues fq)"
  by (simp add: fq_ok_def clear_queues_def qmap_ok_def stats_ok_def queued_sum_def)

section \<open>Reachable states\<close>

text \<open>The queues that the operations reach; the first argument counts the clients \<open>clear_queues\<close> dropped.\<close>

inductive fq_reachable :: "nat \<Rightarrow> fair_queue \<Rightarrow> bool" where
  new: "fq_reachable 0 (new_queue mx)"
| enqueue: "fq_reachable n fq \<Longrightarrow> fq_reachable n (fst (enqueue client fq))"
| is_next: "fq_reachable n fq \<Longrightarrow> fq_reachable n (fst (is_next now r cid fq))"
| try_acquire: "fq_reachable n fq \<Longrightarrow> fq_reachable n (fst (try_acquire now r cid fq))"
| dequeue_client: "fq_reachable n fq \<Longrightarrow> fq_reachable n (fst (dequeue_client now r cid fq))"
| dequeue: "fq_reachable n fq \<Longrightarrow> fq_reachable n (fst (dequeue now r fq))"
| remove: "fq_reachable n fq \<Longrightarrow> fq_reachable n (fst (remove_client r cid fq))"
| cleanup: "fq_reachable n fq \<Longrightarrow> fq_reachable n (fst (cleanup_expired now r fq))"
| cleanup_all: "fq_reachable n fq \<Longrightarrow> fq_reachable n (fst (cleanup_all_expired now fq))"
| cleanup_pass: "fq_reachable n fq \<Longrightarrow> fq_reachable n (cleanup_pass now fq)"
| clear: "fq_reachable n fq \<Longrightarrow> fq_reachable (n + total_queued (stats fq)) (clear_queues fq)"

lemma fq_reachable_ok: "fq_reachable n fq \<Longrightarrow> fq_ok n fq"
proof (induction rule: fq_reachable.induct)
  case (new mx)
  show ?case by (simp add: fq_ok_def qmap_ok_def stats_ok_def new_queue_def zero_stats_def queued_sum_def)
next
  case (is_next n fq now r cid)
  then show ?case by (simp add: is_next_def Let_def cleanup_expired_ok)
qed (simp_all add: enqueue_ok try_acquire_ok dequeue_client_ok dequeue_ok remove_client_ok
      cleanup_expired_ok cleanup_all_expired_def cleanup_list_ok cleanup_pass_ok clear_ok)

lemma get_queue_put:
  "hm_wf (queues fq) \<Longrightarrow> get_queue r' (fq\<lparr>queues := put_queue r q (queues fq), stats := st\<rparr>) =
     (if r' = r then q else get_queue r' fq)"
  by (simp add: get_queue_def get_put_queue)

lemma try_acquire_front:
  fixes now :: nat and r :: string
  assumes "qmap_ok (max_queue_size fq) (queues fq)"
  defines "live \<equiv> filter (\<lambda>c. \<not> is_expired now c) (get_queue r fq)"
  shows "snd (try_acquire now r cid fq) \<longleftrightarrow> (case live of [] \<Rightarrow> True | front # _ \<Rightarrow> client_id front = cid)"
    "get_queue r (fst (try_acquire now r cid fq)) = live"
proof -
  obtain qs n where rl: "retain_live now r (queues fq) = (qs, n)" by fastforce
  have m: "map_of qs r = (if live = [] then None else Some live) \<or> (map_of qs r = Some [] \<and> live = [])"
    using retain_live_ok(4) [OF assms(1) rl, of r]
    by (cases "map_of (queues fq) r") (auto simp: live_def get_queue_def simp del: map_of_eq_Some_iff)
  show "snd (try_acquire now r cid fq) \<longleftrightarrow> (case live of [] \<Rightarrow> True | front # _ \<Rightarrow> client_id front = cid)"
    using m by (cases live) (auto simp: try_acquire_def rl Let_def simp del: map_of_eq_Some_iff)
  show "get_queue r (fst (try_acquire now r cid fq)) = live"
    using m by (cases live) (auto simp: try_acquire_def rl Let_def get_queue_def simp del: map_of_eq_Some_iff)
qed

lemma dequeue_client_queue:
  assumes "qmap_ok (max_queue_size fq) (queues fq)" "get_queue r fq = front # rest" "client_id front = cid"
  shows "snd (dequeue_client now r cid fq) = Some front"
    "get_queue r' (fst (dequeue_client now r cid fq)) = (if r' = r then rest else get_queue r' fq)"
proof -
  have m: "map_of (queues fq) r = Some (front # rest)"
    using assms(2) by (cases "map_of (queues fq) r") (auto simp: get_queue_def simp del: map_of_eq_Some_iff)
  have wf: "hm_wf (queues fq)" using assms(1) by (simp add: qmap_ok_def)
  show "snd (dequeue_client now r cid fq) = Some front"
    using m assms(3) by (simp add: dequeue_client_def Let_def del: map_of_eq_Some_iff)
  show "get_queue r' (fst (dequeue_client now r cid fq)) = (if r' = r then rest else get_queue r' fq)"
    using m assms(3) get_queue_put [OF wf]
    by (simp add: dequeue_client_def Let_def del: map_of_eq_Some_iff)
qed

text \<open>The clients that take their turn one after the other, each as soon as it is its turn.\<close>

fun serve :: "nat \<Rightarrow> string \<Rightarrow> bytes list \<Rightarrow> fair_queue \<Rightarrow> (fair_queue \<times> queued_client list) option" where
  "serve now r [] fq = Some (fq, [])"
| "serve now r (cid # cids) fq =
     (let (fq1, turn) = try_acquire now r cid fq
      in if \<not> turn then None
         else let (fq2, client) = dequeue_client now r cid fq1
              in case (client, serve now r cids fq2) of
                   (Some c, Some (fq3, cs)) \<Rightarrow> Some (fq3, c # cs)
                 | _ \<Rightarrow> None)"

lemma serve_in_order:
  "fq_ok n fq \<Longrightarrow> get_queue r fq = q \<Longrightarrow> list_all (\<lambda>c. \<not> is_expired now c) q \<Longrightarrow>
     \<exists>fq'. serve now r (map client_id q) fq = Some (fq', q) \<and> get_queue r fq' = []"
proof (induction q arbitrary: fq)
  case (Cons c q)
  obtain fq1 turn where t: "try_acquire now r (client_id c) fq = (fq1, turn)" by fastforce
  obtain fq2 cl where d: "dequeue_client now r (client_id c) fq1 = (fq2, cl)" by fastforce
  have live: "filter (\<lambda>c. \<not> is_expired now c) (c # q) = c # q" using Cons.prems(3) by (auto simp: list_all_iff)
  have ok: "qmap_ok (max_queue_size fq) (queues fq)" using Cons.prems(1) by (simp add: fq_ok_def)
  have turn: "turn" "get_queue r fq1 = c # q"
    using try_acquire_front [OF ok, where now = now and r = r and cid = "client_id c"] t live Cons.prems(2) by simp_all
  have ok1: "fq_ok n fq1" using try_acquire_ok [OF Cons.prems(1), of now r "client_id c"] t by simp
  then have "qmap_ok (max_queue_size fq1) (queues fq1)" by (simp add: fq_ok_def)
  note dq = dequeue_client_queue [OF this turn(2) refl, where now = now]
  have "cl = Some c" "get_queue r fq2 = q" using dq(1) dq(2) [of r] d by simp_all
  moreover have "fq_ok n fq2" using dequeue_client_ok [OF ok1, of now r "client_id c"] d by simp
  moreover obtain fq3 where "serve now r (map client_id q) fq2 = Some (fq3, q)" "get_queue r fq3 = []"
    using Cons.IH [OF \<open>fq_ok n fq2\<close> \<open>get_queue r fq2 = q\<close>] Cons.prems(3) by auto
  ultimately show ?case using t d turn(1) by simp
qed simp

section \<open>Properties\<close>

text \<open>
  C34. Enqueueing succeeds exactly when the queue of the resource has room. The client then stands
  behind every client of its own priority and before every client of a lower one, every other
  priority class and every other resource keeps its queue, and a refused client changes no queue.
\<close>

theorem fair_queue_enqueue_order:
  assumes "fq_reachable n fq" and "enqueue client fq = (fq', accepted)"
  shows "(accepted \<longleftrightarrow> queue_length (resource client) fq < max_queue_size fq)
    \<and> sorted (map priority (get_queue r fq'))
    \<and> filter (\<lambda>c. priority c = p) (get_queue r fq') =
        filter (\<lambda>c. priority c = p) (get_queue r fq)
          @ (if accepted \<and> r = resource client \<and> p = priority client then [client] else [])"
proof -
  have ok: "qmap_ok (max_queue_size fq) (queues fq)" using fq_reachable_ok [OF assms(1)] by (simp add: fq_ok_def)
  have "fq_ok n fq'" using enqueue_ok [OF fq_reachable_ok [OF assms(1)], of client] assms(2) by simp
  then have sorted: "sorted (map priority (get_queue r fq'))"
    using get_queue_sorted [of fq' r] by (simp add: fq_ok_def)
  have len: "queue_length (resource client) fq = length (get_queue (resource client) fq)"
    by (simp add: queue_length_def get_queue_def split: option.splits)
  show ?thesis
  proof (cases "length (get_queue (resource client) fq) < max_queue_size fq")
    case True
    have wf: "hm_wf (queues fq)" using ok by (simp add: qmap_ok_def)
    from enqueue_accepted [OF True] assms(2) have acc: accepted
      and fq': "\<exists>st. fq' = fq\<lparr>queues := put_queue (resource client)
        (insert_by_priority client (get_queue (resource client) fq)) (queues fq), stats := st\<rparr>" by auto
    then show ?thesis
      using sorted len True get_queue_put [OF wf] insert_by_priority(4) [OF conjunct1 [OF get_queue_sorted [OF ok]]]
      by auto
  next
    case False
    then obtain qs where "enqueue client fq = (fq\<lparr>queues := qs\<rparr>, False)"
      "\<forall>r. get_queue r (fq\<lparr>queues := qs\<rparr>) = get_queue r fq"
      using enqueue_refused [OF ok, of client] by (auto simp: not_less)
    then show ?thesis using assms(2) len False sorted by auto
  qed
qed

definition demo_queue :: fair_queue where
  "demo_queue = fst (enqueue (new_client 5 ''a'' ''r'' 100 1) (new_queue 4))"

lemma demo_queue_reachable: "fq_reachable 0 demo_queue"
  unfolding demo_queue_def by (intro fq_reachable.enqueue fq_reachable.new)

theorem fair_queue_enqueue_order_witness:
  "map client_id (filter (\<lambda>c. priority c = 1) (get_queue ''r'' (fst (enqueue (new_client 6 ''b'' ''r'' 100 1) demo_queue))))
     = [''a'', ''b'']"
proof -
  let ?e = "enqueue (new_client 6 ''b'' ''r'' 100 1) demo_queue"
  have "snd ?e" by code_simp
  then have "filter (\<lambda>c. priority c = 1) (get_queue ''r'' (fst ?e)) =
      filter (\<lambda>c. priority c = 1) (get_queue ''r'' demo_queue) @ [new_client 6 ''b'' ''r'' 100 1]"
    using fair_queue_enqueue_order [OF demo_queue_reachable prod.collapse [symmetric],
        where client = "new_client 6 ''b'' ''r'' 100 1" and r = "''r''" and p = 1]
    by (simp add: new_client_def)
  moreover have "map client_id (filter (\<lambda>c. priority c = 1) (get_queue ''r'' demo_queue)) = [''a'']" by code_simp
  ultimately show ?thesis by (simp add: new_client_def)
qed

text \<open>
  C10. In every reachable state the queues respect the size limit and are ordered by priority, the
  number of queued clients in the statistics is the number in the queues, the number of active
  queues is the size of the map unless the limit is 0, and every client ever enqueued is waiting,
  dequeued, expired, removed or was dropped by a clear: none is lost and none is counted twice.
\<close>

theorem fair_queue_conservation:
  assumes "fq_reachable dropped fq"
  shows "sorted (map priority (get_queue r fq)) \<and> queue_length r fq \<le> max_queue_size fq
    \<and> total_queued (stats fq) = queued_sum (queues fq)
    \<and> (0 < max_queue_size fq \<longrightarrow> active_queues (stats fq) = length (queues fq))
    \<and> total_enqueued (stats fq) = total_dequeued (stats fq) + total_expired (stats fq)
        + total_removed (stats fq) + queued_sum (queues fq) + dropped"
proof -
  have "queue_length r fq = length (get_queue r fq)"
    by (simp add: queue_length_def get_queue_def split: option.splits)
  then show ?thesis
    using fq_reachable_ok [OF assms] get_queue_sorted [of fq r] by (simp add: fq_ok_def stats_ok_def)
qed

theorem fair_queue_conservation_witness:
  "total_enqueued (stats (fst (dequeue 9 ''r'' demo_queue))) =
     total_dequeued (stats (fst (dequeue 9 ''r'' demo_queue))) + queued_sum (queues (fst (dequeue 9 ''r'' demo_queue)))"
proof -
  have "total_expired (stats (fst (dequeue 9 ''r'' demo_queue))) = 0"
    "total_removed (stats (fst (dequeue 9 ''r'' demo_queue))) = 0" by code_simp+
  then show ?thesis
    using fair_queue_conservation [OF fq_reachable.dequeue [OF demo_queue_reachable, of 9 "''r''"]] by simp
qed



text \<open>
  The expiry time is the unchecked sum of the arrival time and the ttl. A ttl chosen so large
  that the sum passes \<open>u64::MAX\<close> makes the client expired as soon as it arrives: the longest ttl
  is the shortest wait, and the client never gets its turn.
\<close>

theorem fair_queue_huge_ttl_expires:
  assumes "fq_reachable n fq" and "0 < now" and "now \<le> usize_max"
  shows "is_expired now (new_client now cid r usize_max prio)
    \<and> new_client now cid r usize_max prio
        \<notin> set (get_queue r (fst (try_acquire now r cid (fst (enqueue (new_client now cid r usize_max prio) fq)))))"
proof -
  let ?c = "new_client now cid r usize_max prio"
  have "now + usize_max = (now - 1) + (usize_max + 1)" using assms(2) by simp
  then have "(now + usize_max) mod (usize_max + 1) = (now - 1) mod (usize_max + 1)"
    by (metis mod_add_self2)
  then have "wrapping_add now usize_max = now - 1"
    using assms(2,3) by (simp add: wrapping_add_def)
  then have e: "is_expired now ?c" using assms(2) by (simp add: is_expired_def new_client_def)
  have "qmap_ok (max_queue_size (fst (enqueue ?c fq))) (queues (fst (enqueue ?c fq)))"
    using enqueue_ok [OF fq_reachable_ok [OF assms(1)]] by (simp add: fq_ok_def)
  from try_acquire_front(2) [OF this, where now = now and r = r and cid = cid] show ?thesis using e by simp
qed

theorem fair_queue_huge_ttl_expires_witness:
  "is_expired 9 (new_client 9 ''a'' ''r'' 18446744073709551615 1)"
  using fair_queue_huge_ttl_expires [OF fq_reachable.new [of 4], of 9 "''a''" "''r''" 1]
  by (simp add: usize_max_def)

end
