(* ===== verification/List_Type.thy ===== *)
theory List_Type
  imports Kore_Prelude
begin

text \<open>
  The list data type, \<open>src/src/list_type.rs\<close>: \<open>RedisList\<close>, a \<open>VecDeque\<close> of byte strings. The deque
  is the HOL list of its elements from head to tail. \<open>isize\<close> and \<open>i64\<close> arguments are \<open>int\<close>; no
  sum in this file can leave the 64-bit range, because a negative index is only ever added to a
  length. The loops of \<open>lrem\<close> and \<open>lpos\<close> are recursive functions over the loop variables; the
  lemmas give their closed forms, and those of the range operations.
\<close>

section \<open>Model\<close>

record redis_list =
  items :: "bytes list"

definition new_list :: redis_list where
  "new_list = \<lparr>items = []\<rparr>"

definition lpush :: "redis_list \<Rightarrow> bytes list \<Rightarrow> redis_list \<times> nat" where
  "lpush l values =
     (let l' = fold (\<lambda>v l. l\<lparr>items := v # items l\<rparr>) values l in (l', length (items l')))"

definition rpush :: "redis_list \<Rightarrow> bytes list \<Rightarrow> redis_list \<times> nat" where
  "rpush l values =
     (let l' = fold (\<lambda>v l. l\<lparr>items := items l @ [v]\<rparr>) values l in (l', length (items l')))"

definition lpop :: "redis_list \<Rightarrow> redis_list \<times> bytes option" where
  "lpop l = (case items l of [] \<Rightarrow> (l, None) | v # vs \<Rightarrow> (l\<lparr>items := vs\<rparr>, Some v))"

definition rpop :: "redis_list \<Rightarrow> redis_list \<times> bytes option" where
  "rpop l =
     (if items l = [] then (l, None) else (l\<lparr>items := butlast (items l)\<rparr>, Some (last (items l))))"

text \<open>The \<open>for _ in 0..n\<close> loop of \<open>lpop_count\<close> and \<open>rpop_count\<close>, over the pop it calls.\<close>

fun pop_loop ::
  "(redis_list \<Rightarrow> redis_list \<times> bytes option) \<Rightarrow> nat \<Rightarrow> redis_list \<Rightarrow> bytes list \<Rightarrow> redis_list \<times> bytes list"
where
  "pop_loop pop 0 l out = (l, out)"
| "pop_loop pop (Suc n) l out =
     (case pop l of
        (l', Some v) \<Rightarrow> pop_loop pop n l' (out @ [v])
      | (l', None) \<Rightarrow> pop_loop pop n l' out)"

definition lpop_count :: "redis_list \<Rightarrow> nat \<Rightarrow> redis_list \<times> bytes list" where
  "lpop_count l cnt = pop_loop lpop (min cnt (length (items l))) l []"

definition rpop_count :: "redis_list \<Rightarrow> nat \<Rightarrow> redis_list \<times> bytes list" where
  "rpop_count l cnt = pop_loop rpop (min cnt (length (items l))) l []"

definition lrange :: "redis_list \<Rightarrow> int \<Rightarrow> int \<Rightarrow> bytes list" where
  "lrange l start stop =
     (let len = int (length (items l)) in
      if len = 0 then []
      else
        let start_idx = (if start < 0 then max (len + start) 0 else start);
            stop_idx = (if stop < 0 then max (len + stop) 0 else stop)
        in if start_idx > stop_idx \<or> start_idx \<ge> len then []
           else
             let stop_idx = min stop_idx (len - 1)
             in take (nat (stop_idx - start_idx + 1)) (drop (nat start_idx) (items l)))"

definition llen :: "redis_list \<Rightarrow> nat" where
  "llen l = length (items l)"

definition lindex :: "redis_list \<Rightarrow> int \<Rightarrow> bytes option" where
  "lindex l index =
     (let len = int (length (items l)) in
      if len = 0 then None
      else
        let idx = (if index < 0 then len + index else index)
        in if idx < 0 \<or> idx \<ge> len then None else Some (items l ! nat idx))"

definition lset :: "redis_list \<Rightarrow> int \<Rightarrow> bytes \<Rightarrow> redis_list \<times> (bytes + unit)" where
  "lset l index value =
     (let len = int (length (items l)) in
      if len = 0 then (l, Inl ''index out of range'')
      else
        let idx = (if index < 0 then len + index else index)
        in if idx < 0 \<or> idx \<ge> len then (l, Inl ''index out of range'')
           else (l\<lparr>items := (items l)[nat idx := value]\<rparr>, Inr ()))"

definition remove_at :: "nat \<Rightarrow> 'a list \<Rightarrow> 'a list" where
  "remove_at i xs = take i xs @ drop (Suc i) xs"

lemma length_remove_at [simp, termination_simp]:
  "i < length xs \<Longrightarrow> length (remove_at i xs) = length xs - 1"
  by (simp add: remove_at_def)

text \<open>The two loops of \<open>lrem\<close>: head to tail with index \<open>i\<close>, and tail to head with \<open>i\<close> decremented first.\<close>

function lrem_head :: "bytes \<Rightarrow> bytes list \<Rightarrow> nat \<Rightarrow> nat \<Rightarrow> nat \<Rightarrow> bytes list \<times> nat" where
  "lrem_head element xs i to_remove removed =
     (if i < length xs \<and> to_remove > 0 then
        if xs ! i = element
        then lrem_head element (remove_at i xs) i (to_remove - 1) (removed + 1)
        else lrem_head element xs (i + 1) to_remove removed
      else (xs, removed))"
  by pat_completeness auto
termination
  by (relation "measure (\<lambda>(element, xs, i, to_remove, removed). length xs - i)") auto

fun lrem_tail :: "bytes \<Rightarrow> bytes list \<Rightarrow> nat \<Rightarrow> nat \<Rightarrow> nat \<Rightarrow> bytes list \<times> nat" where
  "lrem_tail element xs 0 to_remove removed = (xs, removed)"
| "lrem_tail element xs (Suc i) to_remove removed =
     (if to_remove > 0 then
        if xs ! i = element
        then lrem_tail element (remove_at i xs) i (to_remove - 1) (removed + 1)
        else lrem_tail element xs i to_remove removed
      else (xs, removed))"

definition lrem :: "redis_list \<Rightarrow> int \<Rightarrow> bytes \<Rightarrow> redis_list \<times> nat" where
  "lrem l cnt element =
     (if items l = [] then (l, 0)
      else if cnt = 0 then
        let before = length (items l); l' = l\<lparr>items := filter (\<lambda>v. v \<noteq> element) (items l)\<rparr>
        in (l', before - length (items l'))
      else if cnt > 0 then
        let (xs, removed) = lrem_head element (items l) 0 (nat cnt) 0
        in (l\<lparr>items := xs\<rparr>, removed)
      else
        let (xs, removed) = lrem_tail element (items l) (length (items l)) (nat (- cnt)) 0
        in (l\<lparr>items := xs\<rparr>, removed))"

definition ltrim :: "redis_list \<Rightarrow> int \<Rightarrow> int \<Rightarrow> redis_list" where
  "ltrim l start stop =
     (let len = int (length (items l)) in
      if len = 0 then l
      else
        let start_idx = (if start < 0 then max (len + start) 0 else start);
            stop_idx = (if stop < 0 then max (len + stop) 0 else stop)
        in if start_idx > stop_idx \<or> start_idx \<ge> len then l\<lparr>items := []\<rparr>
           else
             let stop_idx = nat (min stop_idx (len - 1));
                 start_idx = nat start_idx;
                 l' = (if stop_idx + 1 < length (items l)
                       then l\<lparr>items := take (stop_idx + 1) (items l)\<rparr> else l)
             in ((\<lambda>l. fst (lpop l)) ^^ start_idx) l')"

definition linsert :: "redis_list \<Rightarrow> bool \<Rightarrow> bytes \<Rightarrow> bytes \<Rightarrow> redis_list \<times> nat option" where
  "linsert l before pivot element =
     (case position (\<lambda>v. v = pivot) (items l) of
        None \<Rightarrow> (l, None)
      | Some idx \<Rightarrow>
          let insert_at = (if before then idx else idx + 1);
              l' = l\<lparr>items := take insert_at (items l) @ element # drop insert_at (items l)\<rparr>
          in (l', Some (length (items l'))))"

function lpos_loop ::
  "bytes list \<Rightarrow> bytes \<Rightarrow> nat \<Rightarrow> bool \<Rightarrow> bool \<Rightarrow> int \<Rightarrow> nat \<Rightarrow> nat \<Rightarrow> nat \<Rightarrow> nat list \<Rightarrow> nat list"
where
  "lpos_loop xs element maxlen reverse unlimited i rank_left remaining compared out =
     (if i \<ge> 0 \<and> nat i < length xs then
        if maxlen > 0 \<and> compared \<ge> maxlen then out
        else
          let i' = (if reverse then i - 1 else i + 1)
          in if xs ! nat i = element then
               if rank_left > 1
               then lpos_loop xs element maxlen reverse unlimited i' (rank_left - 1) remaining
                      (compared + 1) out
               else if \<not> unlimited \<and> remaining - 1 = 0 then out @ [nat i]
               else lpos_loop xs element maxlen reverse unlimited i' 1
                      (if unlimited then remaining else remaining - 1) (compared + 1) (out @ [nat i])
             else lpos_loop xs element maxlen reverse unlimited i' rank_left remaining
                    (compared + 1) out
      else out)"
  by pat_completeness auto
termination
  by (relation "measure (\<lambda>(xs, element, maxlen, reverse, unlimited, i, rank_left, remaining, compared, out).
        if reverse then nat (i + 1) else length xs - nat i)")
    (auto split: if_splits)

definition lpos :: "redis_list \<Rightarrow> bytes \<Rightarrow> int \<Rightarrow> nat \<Rightarrow> nat \<Rightarrow> nat list" where
  "lpos l element rank cnt maxlen =
     (if rank = 0 \<or> items l = [] then []
      else
        let len = length (items l); reverse = rank < 0
        in lpos_loop (items l) element maxlen reverse (cnt = 0)
             (if reverse then int len - 1 else 0) (nat \<bar>rank\<bar>) cnt 0 [])"

declare lrem_head.simps [simp del] lpos_loop.simps [simp del]

section \<open>Pushes and pops\<close>

lemma lpush_items: "lpush l vs = (l\<lparr>items := rev vs @ items l\<rparr>, length vs + length (items l))"
proof -
  have "fold (\<lambda>v l. l\<lparr>items := v # items l\<rparr>) vs l = l\<lparr>items := rev vs @ items l\<rparr>"
    by (induction vs arbitrary: l) simp_all
  then show ?thesis by (simp add: lpush_def)
qed

lemma rpush_items: "rpush l vs = (l\<lparr>items := items l @ vs\<rparr>, length (items l) + length vs)"
proof -
  have "fold (\<lambda>v l. l\<lparr>items := items l @ [v]\<rparr>) vs l = l\<lparr>items := items l @ vs\<rparr>"
    by (induction vs arbitrary: l) simp_all
  then show ?thesis by (simp add: rpush_def)
qed

lemma pop_loop_lpop:
  "n \<le> length (items l) \<Longrightarrow>
     pop_loop lpop n l out = (l\<lparr>items := drop n (items l)\<rparr>, out @ take n (items l))"
proof (induction n arbitrary: l out)
  case (Suc n)
  then obtain v vs where "items l = v # vs" by (cases "items l") auto
  then show ?case using Suc by (simp add: lpop_def)
qed simp

lemma pop_loop_rpop:
  "n \<le> length (items l) \<Longrightarrow>
     pop_loop rpop n l out =
       (l\<lparr>items := take (length (items l) - n) (items l)\<rparr>, out @ take n (rev (items l)))"
proof (induction n arbitrary: l out)
  case (Suc n)
  then obtain v vs where "items l = vs @ [v]" by (cases "items l" rule: rev_cases) auto
  then show ?case using Suc by (simp add: rpop_def)
qed simp

lemma lpop_count_items:
  "lpop_count l n = (l\<lparr>items := drop n (items l)\<rparr>, take n (items l))"
  by (simp add: lpop_count_def pop_loop_lpop min_def)

lemma rpop_count_items:
  "rpop_count l n =
     (l\<lparr>items := take (length (items l) - n) (items l)\<rparr>, take n (rev (items l)))"
  by (simp add: rpop_count_def pop_loop_rpop min_def)


section \<open>Ranges\<close>

lemma lrange_take_drop:
  "lrange l start stop =
     take (Suc (clamp_index (llen l) stop) - clamp_index (llen l) start)
       (drop (clamp_index (llen l) start) (items l))"
proof -
  let ?s = "clamp_index (llen l) start" and ?e = "clamp_index (llen l) stop"
  have 1: "lrange l start stop =
      (if llen l = 0 \<or> ?s > ?e \<or> ?s \<ge> llen l then []
       else take (nat (min (int ?e) (int (llen l) - 1) - int ?s + 1)) (drop ?s (items l)))"
    by (simp add: lrange_def llen_def Let_def clamp_index_int)
  show ?thesis
  proof (cases "?s \<le> ?e \<and> ?s < llen l")
    case True
    then have "nat (min (int ?e) (int (llen l) - 1) - int ?s + 1) = min (Suc ?e - ?s) (llen l - ?s)"
      by (simp add: min_def) linarith
    then show ?thesis using True 1 by (simp add: llen_def min_def)
  next
    case False
    then show ?thesis using 1 by (auto simp: llen_def)
  qed
qed

lemma lpop_power: "((\<lambda>l. fst (lpop l)) ^^ k) l = l\<lparr>items := drop k (items l)\<rparr>"
proof (induction k)
  case (Suc k)
  have "fst (lpop l') = l'\<lparr>items := tl (items l')\<rparr>" for l' :: redis_list
    by (simp add: lpop_def split: list.split)
  then show ?case using Suc by (simp add: drop_Suc tl_drop)
qed simp

lemma ltrim_lrange: "items (ltrim l start stop) = lrange l start stop"
proof -
  let ?s = "clamp_index (llen l) start" and ?e = "clamp_index (llen l) stop"
  have 1: "items (ltrim l start stop) =
      (if llen l = 0 \<or> ?s > ?e \<or> ?s \<ge> llen l then []
       else drop ?s (take (Suc (nat (min (int ?e) (int (llen l) - 1)))) (items l)))"
    by (simp add: ltrim_def llen_def Let_def clamp_index_int lpop_power)
  have "Suc (nat (min (int ?e) (int (llen l) - 1))) = min (Suc ?e) (llen l)" if "?s < llen l"
    using that by (simp add: min_def) linarith
  then show ?thesis unfolding 1 lrange_take_drop by (simp add: llen_def drop_take min_def)
qed


section \<open>Removal by value\<close>

text \<open>The reference for \<open>LREM\<close>: drop the first \<open>n\<close> occurrences.\<close>

fun remove_first :: "nat \<Rightarrow> 'a \<Rightarrow> 'a list \<Rightarrow> 'a list" where
  "remove_first n x [] = []"
| "remove_first n x (y # ys) =
     (if 0 < n \<and> y = x then remove_first (n - 1) x ys else y # remove_first n x ys)"

lemma remove_first_0 [simp]: "remove_first 0 x xs = xs"
  by (induction xs) simp_all

lemma lrem_head_remove_first:
  "i \<le> length xs \<Longrightarrow> lrem_head e xs i n r =
     (take i xs @ remove_first n e (drop i xs), r + min n (count_list (drop i xs) e))"
proof (induction e xs i n r rule: lrem_head.induct)
  case (1 e xs i n r)
  show ?case
  proof (cases "i < length xs \<and> 0 < n")
    case True
    then have d: "drop i xs = xs ! i # drop (Suc i) xs" by (simp add: Cons_nth_drop_Suc)
    show ?thesis
    proof (cases "xs ! i = e")
      case eq: True
      have "lrem_head e xs i n r = lrem_head e (remove_at i xs) i (n - 1) (r + 1)"
        using True eq by (subst lrem_head.simps) simp
      also have "\<dots> = (take i xs @ remove_first (n - 1) e (drop (Suc i) xs),
          r + 1 + min (n - 1) (count_list (drop (Suc i) xs) e))"
        using 1(1) [OF True eq] True by (auto simp: remove_at_def)
      finally show ?thesis using True eq by (auto simp: d min_def)
    next
      case ne: False
      have "lrem_head e xs i n r = lrem_head e xs (i + 1) n r"
        using True ne by (subst lrem_head.simps) simp
      also have "\<dots> = (take (Suc i) xs @ remove_first n e (drop (Suc i) xs),
          r + min n (count_list (drop (Suc i) xs) e))"
        using 1(2) [OF True ne] True by simp
      finally show ?thesis using True ne by (simp add: d take_Suc_conv_app_nth)
    qed
  next
    case False
    then show ?thesis using 1(3) by (subst lrem_head.simps) auto
  qed
qed

lemma lrem_tail_remove_first:
  "i \<le> length xs \<Longrightarrow> lrem_tail e xs i n r =
     (rev (remove_first n e (rev (take i xs))) @ drop i xs, r + min n (count_list (take i xs) e))"
proof (induction i arbitrary: xs n r)
  case (Suc i)
  then have t: "take (Suc i) xs = take i xs @ [xs ! i]" by (simp add: take_Suc_conv_app_nth)
  have d: "drop i xs = xs ! i # drop (Suc i) xs" using Suc by (simp add: Cons_nth_drop_Suc)
  show ?case
  proof (cases "0 < n \<and> xs ! i = e")
    case True
    then show ?thesis using Suc.IH [of "remove_at i xs" "n - 1" "r + 1"] Suc.prems
      by (auto simp: t remove_at_def min_def)
  next
    case False
    then show ?thesis using Suc.IH [of xs n r] Suc.prems d id_take_nth_drop [of i xs] by (auto simp: t)
  qed
qed simp


section \<open>Search by value\<close>

text \<open>
  The reference for \<open>LPOS\<close>: the positions in scan order, cut at \<open>maxlen\<close>, filtered by the element,
  from the \<open>rank\<close>-th match on, at most \<open>cnt\<close> of them.
\<close>

definition scan_from :: "bool \<Rightarrow> nat \<Rightarrow> int \<Rightarrow> nat list" where
  "scan_from reverse len i = (if reverse then rev [0..<nat (i + 1)] else [nat i..<len])"

definition limit :: "nat \<Rightarrow> nat \<Rightarrow> 'a list \<Rightarrow> 'a list" where
  "limit n k xs = (if n = 0 then xs else take (n - k) xs)"

lemma scan_from_step:
  assumes "0 \<le> i" "nat i < len"
  shows "scan_from reverse len i = nat i # scan_from reverse len (if reverse then i - 1 else i + 1)"
proof (cases reverse)
  case True
  have "nat (i + 1) = Suc (nat i)" using assms by simp
  then show ?thesis using True by (simp add: scan_from_def)
next
  case False
  then show ?thesis using assms by (simp add: scan_from_def upt_conv_Cons nat_add_distrib)
qed

lemma limit_Cons:
  "limit n k (x # xs) = (if 0 < n \<and> n \<le> k then [] else x # limit n (Suc k) xs)"
proof (cases "n - k")
  case (Suc d)
  then have "n - Suc k = d" by simp
  then show ?thesis using Suc by (auto simp: limit_def)
qed (auto simp: limit_def)

lemma lpos_loop_spec:
  "1 \<le> rank_left \<Longrightarrow> (unlimited \<or> 0 < remaining) \<Longrightarrow> (reverse \<longrightarrow> i < int (length xs)) \<Longrightarrow>
   (\<not> reverse \<longrightarrow> 0 \<le> i) \<Longrightarrow>
   lpos_loop xs e maxlen reverse unlimited i rank_left remaining compared out =
     (let hits = drop (rank_left - 1)
        (filter (\<lambda>j. xs ! j = e) (limit maxlen compared (scan_from reverse (length xs) i)))
      in out @ (if unlimited then hits else take remaining hits))"
proof (induction xs e maxlen reverse unlimited i rank_left remaining compared out
    rule: lpos_loop.induct)
  case (1 xs e maxlen reverse unlimited i rank_left remaining compared out)
  let ?i = "if reverse then i - 1 else i + 1"
  let ?loop = "lpos_loop xs e maxlen reverse unlimited"
  define T where "T = limit maxlen (compared + 1) (scan_from reverse (length xs) ?i)"
  define F where "F = filter (\<lambda>j. xs ! j = e) T"
  consider (over) "\<not> (0 \<le> i \<and> nat i < length xs)"
    | (cut) "0 \<le> i \<and> nat i < length xs" "maxlen > 0 \<and> compared \<ge> maxlen"
    | (look) "0 \<le> i \<and> nat i < length xs" "\<not> (maxlen > 0 \<and> compared \<ge> maxlen)" by blast
  then show ?case
  proof cases
    case over
    then have "scan_from reverse (length xs) i = []" using "1.prems"(3,4) by (auto simp: scan_from_def)
    moreover have "?loop i rank_left remaining compared out = out"
      using over by (subst lpos_loop.simps) (simp only: if_False)
    ultimately show ?thesis by (simp add: limit_def)
  next
    case cut
    then show ?thesis
      by (subst lpos_loop.simps) (simp add: scan_from_step [of i "length xs" reverse] limit_Cons)
  next
    case look
    have L: "limit maxlen compared (scan_from reverse (length xs) i) = nat i # T"
      using look by (auto simp: T_def scan_from_step [of i "length xs" reverse] limit_Cons)
    note unfold = lpos_loop.simps [of xs e maxlen reverse unlimited i rank_left remaining compared out]
    have dir: "reverse \<longrightarrow> ?i < int (length xs)" "\<not> reverse \<longrightarrow> 0 \<le> ?i"
      using "1.prems"(3,4) look(1) by auto
    consider (miss) "xs ! nat i \<noteq> e"
      | (skip) "xs ! nat i = e" "1 < rank_left"
      | (final) "xs ! nat i = e" "\<not> 1 < rank_left" "\<not> unlimited \<and> remaining - 1 = 0"
      | (hit) "xs ! nat i = e" "\<not> 1 < rank_left" "\<not> (\<not> unlimited \<and> remaining - 1 = 0)" by blast
    then show ?thesis
    proof cases
      case miss
      have "?loop i rank_left remaining compared out = ?loop ?i rank_left remaining (compared + 1) out"
        using miss look by (subst unfold) (auto simp: Let_def)
      also have "\<dots> = out @ (let hits = drop (rank_left - 1) F in if unlimited then hits else take remaining hits)"
        using "1.IH"(3) [OF look refl miss "1.prems"(1,2) dir] by (simp add: F_def T_def Let_def)
      finally show ?thesis using miss by (simp add: L F_def Let_def)
    next
      case skip
      have "?loop i rank_left remaining compared out =
          ?loop ?i (rank_left - 1) remaining (compared + 1) out"
        using skip look by (subst unfold) (auto simp: Let_def)
      also have "\<dots> = out @ (let hits = drop (rank_left - 2) F in if unlimited then hits else take remaining hits)"
        using "1.IH"(1) [OF look refl skip _ "1.prems"(2) dir] skip(2)
        by (simp add: F_def T_def Let_def numeral_2_eq_2)
      also have "drop (rank_left - 2) F = drop (rank_left - 1) (filter (\<lambda>j. xs ! j = e) (nat i # T))"
      proof -
        obtain d where "rank_left = Suc (Suc d)" using skip(2) by (cases rank_left; cases "rank_left - 1") auto
        then show ?thesis using skip(1) by (simp add: F_def)
      qed
      finally show ?thesis by (simp only: L Let_def)
    next
      case final
      then have "rank_left = 1" "remaining = 1" using "1.prems" by auto
      then show ?thesis using final look by (subst unfold) (auto simp: L Let_def)
    next
      case hit
      let ?rem = "if unlimited then remaining else remaining - 1"
      have rank: "rank_left = 1" using hit "1.prems"(1) by simp
      have "?loop i rank_left remaining compared out = ?loop ?i 1 ?rem (compared + 1) (out @ [nat i])"
        using hit look by (subst unfold) (auto simp: Let_def)
      also have "\<dots> = out @ nat i # (if unlimited then F else take ?rem F)"
      proof -
        have "unlimited \<or> 0 < ?rem" using hit(3) by auto
        from "1.IH"(2) [OF look refl hit _ this dir] show ?thesis
          by (simp add: F_def T_def Let_def)
      qed
      finally show ?thesis using hit rank by (cases remaining) (auto simp: L F_def Let_def)
    qed
  qed
qed

section \<open>Properties of the list type\<close>

text \<open>
  C36. \<open>LREM\<close>: for a positive count the loop removes exactly the first \<open>cnt\<close> occurrences of the
  element, for a negative one exactly the last \<open>-cnt\<close>, for zero all of them; the other elements
  keep their order, and the result is the number removed.
\<close>

theorem lrem_removes:
  "lrem l cnt e =
     (l\<lparr>items :=
        (if cnt > 0 then remove_first (nat cnt) e (items l)
         else if cnt < 0 then rev (remove_first (nat (- cnt)) e (rev (items l)))
         else filter (\<lambda>v. v \<noteq> e) (items l))\<rparr>,
      if cnt = 0 then count_list (items l) e
      else min (nat \<bar>cnt\<bar>) (count_list (items l) e))"
proof -
  have "length xs - length (filter (\<lambda>v. v \<noteq> e) xs) = count_list xs e" for xs :: "bytes list"
    by (induction xs) (auto simp: Suc_diff_le)
  then show ?thesis
    by (auto simp: lrem_def Let_def lrem_head_remove_first lrem_tail_remove_first)
qed

text \<open>
  C35. \<open>LPOS\<close>: the loop returns the positions of the element in scan order (from the tail for a
  negative rank), looking only at the first \<open>maxlen\<close> positions when \<open>maxlen\<close> is not zero, skipping
  the first \<open>|rank| - 1\<close> matches and stopping after \<open>cnt\<close> of them when \<open>cnt\<close> is not zero.
\<close>

theorem lpos_finds:
  assumes "rank \<noteq> 0"
  shows "lpos l e rank cnt maxlen =
    (let scan = (if rank < 0 then rev [0..<llen l] else [0..<llen l]);
         seen = (if maxlen = 0 then scan else take maxlen scan);
         hits = drop (nat \<bar>rank\<bar> - 1) (filter (\<lambda>j. items l ! j = e) seen)
     in if cnt = 0 then hits else take cnt hits)"
proof (cases "items l = []")
  case True
  then show ?thesis using assms by (simp add: lpos_def llen_def Let_def)
next
  case False
  let ?i = "if rank < 0 then int (length (items l)) - 1 else 0"
  have "scan_from (rank < 0) (length (items l)) ?i =
      (if rank < 0 then rev [0..<length (items l)] else [0..<length (items l)])"
    by (simp add: scan_from_def)
  moreover have rank: "1 \<le> nat \<bar>rank\<bar>" "cnt = 0 \<or> 0 < cnt" using assms by auto
  moreover have "lpos l e rank cnt maxlen = (let hits = drop (nat \<bar>rank\<bar> - 1) (filter (\<lambda>j. items l ! j = e)
      (limit maxlen 0 (scan_from (rank < 0) (length (items l)) ?i))) in [] @ (if cnt = 0 then hits else take cnt hits))"
    using assms False rank lpos_loop_spec [of "nat \<bar>rank\<bar>" "cnt = 0" cnt "rank < 0" ?i "items l" e maxlen 0 "[]"]
    by (simp only: lpos_def Let_def if_False) auto
  ultimately show ?thesis using assms by (auto simp: limit_def llen_def Let_def)
qed

theorem lpos_finds_witness:
  "lpos \<lparr>items = [''a'', ''b'', ''a'', ''a'']\<rparr> ''a'' (-2) 0 0 = [2, 0] \<and> (-2 :: int) \<noteq> 0"
  by (subst lpos_finds; code_simp)

text \<open>
  \<open>LRANGE\<close> returns the elements at the positions between the two clamped indices in order, and
  \<open>LTRIM\<close>, which truncates the tail and pops the head in place, leaves exactly that list.
\<close>

theorem lrange_ltrim_positions:
  "lrange l start stop =
     map ((!) (items l))
       [clamp_index (llen l) start ..< min (Suc (clamp_index (llen l) stop)) (llen l)] \<and>
   items (ltrim l start stop) = lrange l start stop"
proof -
  let ?s = "clamp_index (llen l) start" and ?e = "Suc (clamp_index (llen l) stop)"
  have "take (?e - ?s) (drop ?s (items l)) = take (min ?e (llen l) - ?s) (drop ?s (items l))"
    by (simp add: llen_def min_def)
  also have "\<dots> = map ((!) (items l)) [?s..<min ?e (llen l)]"
    by (rule take_drop_map_nth) (simp add: llen_def)
  finally show ?thesis by (simp add: lrange_take_drop ltrim_lrange)
qed

text \<open>
  A stop index before the head is read as the head: \<open>LRANGE key 0 stop\<close> with \<open>stop < -len\<close>
  returns the first element, and \<open>LTRIM\<close> keeps it, where the comment on \<open>ltrim\<close> says out-of-range
  and inverted ranges empty the list.
\<close>

theorem lrange_stop_before_head:
  assumes "items l \<noteq> []" and "stop < - int (llen l)"
  shows "lrange l 0 stop = [hd (items l)] \<and> items (ltrim l 0 stop) = [hd (items l)]"
proof -
  have "clamp_index (llen l) 0 = 0" "clamp_index (llen l) stop = 0"
    using assms(2) by (simp_all add: clamp_index_def)
  then show ?thesis using assms(1)
    by (cases "items l") (simp_all add: lrange_take_drop ltrim_lrange)
qed

theorem lrange_stop_before_head_witness:
  "lrange \<lparr>items = [''a'', ''b'']\<rparr> 0 (-5) = [''a''] \<and> - 5 < - int (llen \<lparr>items = [''a'', ''b'']\<rparr>)"
  using lrange_stop_before_head [of "\<lparr>items = [''a'', ''b'']\<rparr>" "-5"] by (simp add: llen_def)

end
