(* ===== verification/Set_Type.thy ===== *)
theory Set_Type
  imports Kore_Prelude
begin

text \<open>
  The set data type, \<open>src/src/set_type.rs\<close>: \<open>RedisSet\<close>, a \<open>HashSet\<close> of byte strings, as the list of
  its members in the order the hash set iterates them. That order is arbitrary in the code, so
  the invariant is only that the members are distinct, and the lemmas speak of the set of
  members and of cardinalities. \<open>choose_multiple\<close> of the \<open>rand\<close> crate is a parameter; what the code
  relies on (it returns that many distinct elements of the iterator) is \<open>choose_multiple_ok\<close>.
\<close>

section \<open>Model\<close>

record redis_set =
  members :: "bytes list"

definition new_set :: redis_set where
  "new_set = \<lparr>members = []\<rparr>"

fun sadd :: "redis_set \<Rightarrow> bytes list \<Rightarrow> redis_set \<times> nat" where
  "sadd s [] = (s, 0)"
| "sadd s (m # ms) =
     (if m \<in> set (members s) then sadd s ms
      else let (s', added) = sadd (s\<lparr>members := m # members s\<rparr>) ms in (s', added + 1))"

fun srem :: "redis_set \<Rightarrow> bytes list \<Rightarrow> redis_set \<times> nat" where
  "srem s [] = (s, 0)"
| "srem s (m # ms) =
     (if m \<in> set (members s)
      then let (s', removed) = srem (s\<lparr>members := remove1 m (members s)\<rparr>) ms in (s', removed + 1)
      else srem s ms)"

definition smembers :: "redis_set \<Rightarrow> bytes list" where
  "smembers s = members s"

definition sismember :: "redis_set \<Rightarrow> bytes \<Rightarrow> bool" where
  "sismember s m \<longleftrightarrow> m \<in> set (members s)"

definition scard :: "redis_set \<Rightarrow> nat" where
  "scard s = length (members s)"

definition sinter :: "redis_set list \<Rightarrow> bytes list" where
  "sinter sets =
     (case sets of
        [] \<Rightarrow> []
      | first # rest \<Rightarrow> filter (\<lambda>m. list_all (\<lambda>s. m \<in> set (members s)) rest) (members first))"

text \<open>The labelled member loop of \<open>sinter_count\<close>, over the members of the smallest set.\<close>

fun sinter_count_loop :: "redis_set list \<Rightarrow> nat option \<Rightarrow> bytes list \<Rightarrow> nat \<Rightarrow> nat" where
  "sinter_count_loop others limit [] n = n"
| "sinter_count_loop others limit (m # ms) n =
     (if list_all (\<lambda>s. m \<in> set (members s)) others then
        case limit of
          Some lim \<Rightarrow> if n + 1 \<ge> lim then n + 1 else sinter_count_loop others limit ms (n + 1)
        | None \<Rightarrow> sinter_count_loop others limit ms (n + 1)
      else sinter_count_loop others limit ms n)"

definition sinter_count :: "redis_set list \<Rightarrow> nat option \<Rightarrow> nat" where
  "sinter_count sets limit =
     (if sets = [] then 0
      else
        let order = sort_key (\<lambda>i. length (members (sets ! i))) [0..<length sets]
        in sinter_count_loop (map ((!) sets) (tl order)) limit (members (sets ! hd order)) 0)"

definition sunion :: "redis_set list \<Rightarrow> bytes list" where
  "sunion sets = fold (\<lambda>s out. fold List.insert (members s) out) sets []"

definition sdiff :: "redis_set list \<Rightarrow> bytes list" where
  "sdiff sets =
     (case sets of
        [] \<Rightarrow> []
      | first # rest \<Rightarrow> filter (\<lambda>m. \<not> list_ex (\<lambda>s. m \<in> set (members s)) rest) (members first))"

definition spop :: "(bytes list \<Rightarrow> nat \<Rightarrow> bytes list) \<Rightarrow> redis_set \<Rightarrow> nat \<Rightarrow> redis_set \<times> bytes list" where
  "spop choose_multiple s cnt =
     (if cnt = 0 \<or> members s = [] then (s, [])
      else
        let n = min cnt (length (members s));
            chosen = choose_multiple (members s) n
        in (s\<lparr>members := fold remove1 chosen (members s)\<rparr>, chosen))"

text \<open>\<open>pick\<close> gives the member drawn by the \<open>i\<close>-th call of the generator.\<close>

definition srandmember ::
  "(bytes list \<Rightarrow> nat \<Rightarrow> bytes list) \<Rightarrow> (nat \<Rightarrow> bytes list \<Rightarrow> bytes) \<Rightarrow> redis_set \<Rightarrow> int \<Rightarrow> bytes list" where
  "srandmember choose_multiple pick s cnt =
     (if members s = [] \<or> cnt = 0 then []
      else if cnt > 0 then choose_multiple (members s) (min (nat cnt) (length (members s)))
      else map (\<lambda>i. pick i (members s)) [0..<nat (- cnt)])"

definition choose_multiple_ok :: "(bytes list \<Rightarrow> nat \<Rightarrow> bytes list) \<Rightarrow> bool" where
  "choose_multiple_ok cm \<longleftrightarrow>
     (\<forall>xs n. distinct xs \<longrightarrow> distinct (cm xs n) \<and> set (cm xs n) \<subseteq> set xs \<and> length (cm xs n) = min n (length xs))"

abbreviation set_wf :: "redis_set \<Rightarrow> bool" where
  "set_wf s \<equiv> distinct (members s)"

abbreviation elems :: "redis_set \<Rightarrow> bytes set" where
  "elems s \<equiv> set (members s)"

section \<open>Adding and removing\<close>

lemma sadd_spec:
  "set_wf s \<Longrightarrow> set_wf (fst (sadd s ms)) \<and> elems (fst (sadd s ms)) = elems s \<union> set ms \<and>
     snd (sadd s ms) = card (set ms - elems s)"
proof (induction s ms rule: sadd.induct)
  case (2 s m ms)
  show ?case
  proof (cases "m \<in> elems s")
    case True
    then have "set (m # ms) - elems s = set ms - elems s" by auto
    then show ?thesis using 2 True by auto
  next
    case False
    then have "set (m # ms) - elems s = insert m (set ms - insert m (elems s))" by auto
    then have "card (set (m # ms) - elems s) = Suc (card (set ms - insert m (elems s)))" by simp
    moreover obtain s' k where "sadd (s\<lparr>members := m # members s\<rparr>) ms = (s', k)" by fastforce
    moreover have "elems (s\<lparr>members := m # members s\<rparr>) = insert m (elems s)" by simp
    ultimately show ?thesis using 2(2) [OF False] 2(3) False by simp
  qed
qed simp

lemma srem_spec:
  "set_wf s \<Longrightarrow> set_wf (fst (srem s ms)) \<and> elems (fst (srem s ms)) = elems s - set ms \<and>
     snd (srem s ms) = card (elems s \<inter> set ms)"
proof (induction s ms rule: srem.induct)
  case (2 s m ms)
  show ?case
  proof (cases "m \<in> elems s")
    case True
    then have "elems s \<inter> set (m # ms) = insert m ((elems s - {m}) \<inter> set ms)" by auto
    then have "card (elems s \<inter> set (m # ms)) = Suc (card ((elems s - {m}) \<inter> set ms))" by simp
    moreover obtain s' k where "srem (s\<lparr>members := remove1 m (members s)\<rparr>) ms = (s', k)" by fastforce
    ultimately show ?thesis using 2(1) [OF True] 2(3) True by (auto simp: set_remove1_eq)
  next
    case False
    then have "elems s \<inter> set (m # ms) = elems s \<inter> set ms" by auto
    then show ?thesis using 2 False by auto
  qed
qed simp

section \<open>Set algebra\<close>

lemma sinter_count_loop_None:
  "sinter_count_loop os None ms n = n + length (filter (\<lambda>m. list_all (\<lambda>s. m \<in> elems s) os) ms)"
  by (induction ms arbitrary: n) simp_all

lemma sinter_count_loop_Some:
  "n < lim \<Longrightarrow> sinter_count_loop os (Some lim) ms n =
     min lim (n + length (filter (\<lambda>m. list_all (\<lambda>s. m \<in> elems s) os) ms))"
  by (induction ms arbitrary: n) auto

lemma fold_insert_set: "set (fold List.insert xs out) = set xs \<union> set out"
  by (induction xs arbitrary: out) auto

lemma fold_insert_distinct: "distinct out \<Longrightarrow> distinct (fold List.insert xs out)"
  by (induction xs arbitrary: out) auto

lemma sunion_aux:
  "distinct out \<Longrightarrow> distinct (fold (\<lambda>s out. fold List.insert (members s) out) sets out) \<and>
     set (fold (\<lambda>s out. fold List.insert (members s) out) sets out) = (\<Union>s \<in> set sets. elems s) \<union> set out"
  by (induction sets arbitrary: out) (auto simp: fold_insert_set fold_insert_distinct)

lemma fold_remove1: 
  "distinct xs \<Longrightarrow> distinct (fold remove1 ys xs) \<and> set (fold remove1 ys xs) = set xs - set ys"
  by (induction ys arbitrary: xs) auto

lemma order_sets:
  assumes "sets \<noteq> []"
  defines "order \<equiv> sort_key (\<lambda>i. length (members (sets ! i))) [0..<length sets]"
  shows "order \<noteq> []" "set (map ((!) sets) order) = set sets" "hd order < length sets"
proof -
  have o: "set order = {0..<length sets}" by (simp add: order_def)
  then show ne: "order \<noteq> []" using assms(1) by auto
  show "set (map ((!) sets) order) = set sets" using o by (auto simp: set_conv_nth [of sets])
  show "hd order < length sets" using o hd_in_set [OF ne] by auto
qed

lemma filter_smallest:
  assumes "sets \<noteq> []" and "\<forall>s \<in> set sets. set_wf s"
  defines "order \<equiv> sort_key (\<lambda>i. length (members (sets ! i))) [0..<length sets]"
  shows "length (filter (\<lambda>m. list_all (\<lambda>s. m \<in> elems s) (map ((!) sets) (tl order))) (members (sets ! hd order))) =
    card (\<Inter>s \<in> set sets. elems s)"
proof -
  note o = order_sets [OF assms(1), folded order_def]
  let ?P = "\<lambda>m. list_all (\<lambda>s. m \<in> elems s) (map ((!) sets) (tl order))"
  have "set sets = insert (sets ! hd order) (set (map ((!) sets) (tl order)))"
    using o(1,2) by (cases order) auto
  then have "(\<Inter>s \<in> set sets. elems s) = set (filter ?P (members (sets ! hd order)))"
    by (auto simp: list_all_iff)
  moreover have "distinct (filter ?P (members (sets ! hd order)))"
    using assms(2) o(3) by simp
  ultimately show ?thesis by (simp only: distinct_card)
qed

section \<open>Properties of the set type\<close>

text \<open>
  C37. Set algebra: \<open>SINTER\<close>, \<open>SUNION\<close> and \<open>SDIFF\<close> return each member of the intersection, union
  and difference exactly once; \<open>SINTERCARD\<close>, which scans the smallest set and stops early, counts
  the intersection, up to the limit when there is one.
\<close>

theorem set_algebra:
  assumes "\<forall>s \<in> set (s0 # ss). set_wf s" and "0 < lim"
  shows "distinct (sinter (s0 # ss)) \<and> set (sinter (s0 # ss)) = (\<Inter>s \<in> set (s0 # ss). elems s) \<and>
    distinct (sunion (s0 # ss)) \<and> set (sunion (s0 # ss)) = (\<Union>s \<in> set (s0 # ss). elems s) \<and>
    distinct (sdiff (s0 # ss)) \<and> set (sdiff (s0 # ss)) = elems s0 - (\<Union>s \<in> set ss. elems s) \<and>
    sinter_count (s0 # ss) None = card (\<Inter>s \<in> set (s0 # ss). elems s) \<and>
    sinter_count (s0 # ss) (Some lim) = min lim (card (\<Inter>s \<in> set (s0 # ss). elems s))"
proof -
  note f = filter_smallest [OF _ assms(1)]
  have "sinter_count (s0 # ss) None = card (\<Inter>s \<in> set (s0 # ss). elems s)"
    "sinter_count (s0 # ss) (Some lim) = min lim (card (\<Inter>s \<in> set (s0 # ss). elems s))"
    using f assms(2)
    by (simp_all only: sinter_count_def Let_def sinter_count_loop_None sinter_count_loop_Some
        list.distinct if_False add_0) simp_all
  moreover have "distinct (sunion (s0 # ss)) \<and> set (sunion (s0 # ss)) = (\<Union>s \<in> set (s0 # ss). elems s)"
    unfolding sunion_def using sunion_aux [of "[]" "s0 # ss"] by simp
  moreover have "distinct (sinter (s0 # ss)) \<and> set (sinter (s0 # ss)) = (\<Inter>s \<in> set (s0 # ss). elems s)"
    using assms(1) by (auto simp: sinter_def list_all_iff)
  moreover have "distinct (sdiff (s0 # ss)) \<and> set (sdiff (s0 # ss)) = elems s0 - (\<Union>s \<in> set ss. elems s)"
    using assms(1) by (auto simp: sdiff_def list_ex_iff)
  ultimately show ?thesis by blast
qed

theorem set_algebra_witness:
  "set (sinter [\<lparr>members = [''a'', ''b'']\<rparr>, \<lparr>members = [''b'', ''c'', ''d'']\<rparr>]) = {''b''} \<and>
   sinter_count [\<lparr>members = [''a'', ''b'']\<rparr>, \<lparr>members = [''b'', ''c'', ''d'']\<rparr>] (Some 3) = 1"
  using set_algebra [of "\<lparr>members = [''a'', ''b'']\<rparr>" "[\<lparr>members = [''b'', ''c'', ''d'']\<rparr>]" 3] by simp

text \<open>
  \<open>SPOP\<close> returns \<open>min count (card s)\<close> distinct members and removes exactly those: the result and
  the remaining members partition the set.
\<close>

theorem spop_partitions:
  assumes "choose_multiple_ok cm" and "set_wf s" and "spop cm s n = (s', out)"
  shows "set_wf s' \<and> distinct out \<and> length out = min n (scard s) \<and>
    elems s' \<inter> set out = {} \<and> elems s' \<union> set out = elems s"
proof (cases "n = 0 \<or> members s = []")
  case True
  then show ?thesis using assms by (auto simp: spop_def scard_def)
next
  case False
  let ?c = "cm (members s) (min n (length (members s)))"
  have "distinct ?c" "set ?c \<subseteq> elems s" "length ?c = min n (length (members s))"
    using assms(1,2) by (auto simp: choose_multiple_ok_def)
  moreover have "out = ?c" "s' = s\<lparr>members := fold remove1 ?c (members s)\<rparr>"
    using assms(3) False by (auto simp: spop_def Let_def)
  ultimately show ?thesis using fold_remove1 [OF assms(2), of ?c] by (auto simp: scard_def)
qed

theorem spop_partitions_witness:
  "spop (\<lambda>xs n. take n xs) \<lparr>members = [''a'', ''b'', ''c'']\<rparr> 2 = (\<lparr>members = [''c'']\<rparr>, [''a'', ''b'']) \<and>
   elems \<lparr>members = [''c'']\<rparr> \<inter> set [''a'', ''b''] = {}"
proof -
  have ok: "choose_multiple_ok (\<lambda>xs n. take n xs)"
    by (auto simp: choose_multiple_ok_def dest: in_set_takeD)
  have sp: "spop (\<lambda>xs n. take n xs) \<lparr>members = [''a'', ''b'', ''c'']\<rparr> 2 =
      (\<lparr>members = [''c'']\<rparr>, [''a'', ''b''])"
    by code_simp
  show ?thesis using spop_partitions [OF ok _ sp] sp by simp
qed

end
