(* ===== verification/Hash_Type.thy ===== *)
theory Hash_Type
  imports Kore_Prelude
begin

text \<open>
  The hash data type, \<open>src/src/hash_type.rs\<close>: \<open>RedisHash\<close>, a \<open>HashMap\<close> from field to value, as an
  association list with distinct fields in the map's iteration order. \<open>hincrbyfloat\<close> and the
  float rendering are not modelled (IEEE arithmetic and decimal printing). The generator calls of
  \<open>hrandfield\<close> are parameters, as in the set type.
\<close>

section \<open>Model\<close>

record redis_hash =
  hfields :: "(bytes \<times> bytes) list"

definition new_hash :: redis_hash where
  "new_hash = \<lparr>hfields = []\<rparr>"

definition hset :: "redis_hash \<Rightarrow> bytes \<Rightarrow> bytes \<Rightarrow> redis_hash \<times> bool" where
  "hset h f v = (h\<lparr>hfields := AList.update f v (hfields h)\<rparr>, map_of (hfields h) f = None)"

definition hget :: "redis_hash \<Rightarrow> bytes \<Rightarrow> bytes option" where
  "hget h f = map_of (hfields h) f"

definition hmget :: "redis_hash \<Rightarrow> bytes list \<Rightarrow> bytes option list" where
  "hmget h fs = map (hget h) fs"

fun hdel :: "redis_hash \<Rightarrow> bytes list \<Rightarrow> redis_hash \<times> nat" where
  "hdel h [] = (h, 0)"
| "hdel h (f # fs) =
     (let removed = map_of (hfields h) f;
          (h', n) = hdel (h\<lparr>hfields := AList.delete f (hfields h)\<rparr>) fs
      in (h', if removed \<noteq> None then n + 1 else n))"

fun hgetdel :: "redis_hash \<Rightarrow> bytes list \<Rightarrow> redis_hash \<times> bytes option list" where
  "hgetdel h [] = (h, [])"
| "hgetdel h (f # fs) =
     (let removed = map_of (hfields h) f;
          (h', vs) = hgetdel (h\<lparr>hfields := AList.delete f (hfields h)\<rparr>) fs
      in (h', removed # vs))"

definition hgetall :: "redis_hash \<Rightarrow> (bytes \<times> bytes) list" where
  "hgetall h = hfields h"

definition hlen :: "redis_hash \<Rightarrow> nat" where
  "hlen h = length (hfields h)"

definition hexists :: "redis_hash \<Rightarrow> bytes \<Rightarrow> bool" where
  "hexists h f \<longleftrightarrow> map_of (hfields h) f \<noteq> None"

definition hkeys :: "redis_hash \<Rightarrow> bytes list" where
  "hkeys h = map fst (hfields h)"

definition hvals :: "redis_hash \<Rightarrow> bytes list" where
  "hvals h = map snd (hfields h)"

definition hincrby :: "redis_hash \<Rightarrow> bytes \<Rightarrow> int \<Rightarrow> redis_hash \<times> (bytes + int)" where
  "hincrby h f delta =
     (case (case map_of (hfields h) f of
              Some v \<Rightarrow>
                (case utf8_decode v of
                   None \<Rightarrow> Inl ''hash value is not an integer''
                 | Some _ \<Rightarrow>
                     (case parse_i64 v of
                        None \<Rightarrow> Inl ''hash value is not an integer''
                      | Some n \<Rightarrow> Inr n))
            | None \<Rightarrow> Inr 0) of
        Inl e \<Rightarrow> (h, Inl e)
      | Inr current \<Rightarrow>
          (if in_i64 (current + delta)
           then (h\<lparr>hfields := AList.update f (show_int (current + delta)) (hfields h)\<rparr>, Inr (current + delta))
           else (h, Inl ''increment or decrement would overflow'')))"

definition hstrlen :: "redis_hash \<Rightarrow> bytes \<Rightarrow> nat" where
  "hstrlen h f = (case map_of (hfields h) f of Some v \<Rightarrow> length v | None \<Rightarrow> 0)"

definition hrandfield ::
  "((bytes \<times> bytes) list \<Rightarrow> nat \<Rightarrow> (bytes \<times> bytes) list) \<Rightarrow> (nat \<Rightarrow> (bytes \<times> bytes) list \<Rightarrow> bytes \<times> bytes) \<Rightarrow>
   redis_hash \<Rightarrow> int \<Rightarrow> (bytes \<times> bytes) list" where
  "hrandfield choose_multiple pick h cnt =
     (if hfields h = [] \<or> cnt = 0 then []
      else if cnt > 0 then choose_multiple (hfields h) (min (nat cnt) (length (hfields h)))
      else map (\<lambda>i. pick i (hfields h)) [0..<nat (- cnt)])"

section \<open>The hash as a finite map\<close>

abbreviation hash_wf :: "redis_hash \<Rightarrow> bool" where
  "hash_wf h \<equiv> hm_wf (hfields h)"

lemma hset_spec:
  "hset h f v = (h', new) \<Longrightarrow>
     hget h' = (hget h)(f \<mapsto> v) \<and> new = (hget h f = None) \<and> (hash_wf h \<longrightarrow> hash_wf h')"
  by (auto simp: hset_def hget_def fun_eq_iff update_conv' distinct_update)

lemma hdel_spec:
  "hget (fst (hdel h fs)) = (\<lambda>g. if g \<in> set fs then None else hget h g)"
  "hash_wf h \<Longrightarrow> hash_wf (fst (hdel h fs))"
  by (induction h fs rule: hdel.induct)
    (simp_all add: hget_def fun_eq_iff delete_conv' distinct_delete Let_def case_prod_beta)

lemma hdel_removes_length:
  "hash_wf h \<Longrightarrow> hdel h fs = (h', n) \<Longrightarrow> hlen h = hlen h' + n"
proof (induction h fs arbitrary: n rule: hdel.induct)
  case (2 h f fs)
  obtain k where k: "hdel (h\<lparr>hfields := AList.delete f (hfields h)\<rparr>) fs = (h', k)"
    "n = (if map_of (hfields h) f \<noteq> None then k + 1 else k)"
    using 2(3) by (auto simp: Let_def split: prod.splits)
  have "length (AList.delete f (hfields h)) = hlen h' + k"
    using 2(1) [OF refl _ k(1)] 2(2) by (simp add: hlen_def distinct_delete)
  then show ?case using k(2) 2(2) length_delete_some [of "hfields h" f] delete_absent [of "hfields h" f]
    by (cases "map_of (hfields h) f") (simp_all only: hlen_def, auto)
qed (simp add: hlen_def)

section \<open>Properties of the hash type\<close>

text \<open>
  C38. \<open>HINCRBY\<close>: it succeeds exactly when the stored value (0 for a missing field) is an \<open>i64\<close> in
  decimal and the sum is in range; then the field reads back as the new value, every other field is
  kept and the next increment starts from it; on an error the hash is unchanged.
\<close>

theorem hincrby_spec:
  assumes "hash_wf h"
  shows "case hincrby h f delta of
      (h', Inr n) \<Rightarrow>
        n = (case hget h f of None \<Rightarrow> 0 | Some v \<Rightarrow> the (parse_i64 v)) + delta \<and> in_i64 n \<and>
        hget h' = (hget h)(f \<mapsto> show_int n) \<and> hash_wf h' \<and>
        snd (hincrby h' f 0) = Inr n
    | (h', Inl e) \<Rightarrow> h' = h \<and>
        (case hget h f of
           None \<Rightarrow> \<not> in_i64 delta
         | Some v \<Rightarrow> (case parse_i64 v of
             None \<Rightarrow> True | Some c \<Rightarrow> utf8_decode v = None \<or> \<not> in_i64 (c + delta)))"
proof (cases "snd (hincrby h f delta)")
  case (Inl e)
  then show ?thesis
    by (auto simp: hincrby_def hget_def split: option.splits sum.splits if_splits)
next
  case (Inr n)
  define h' where "h' = h\<lparr>hfields := AList.update f (show_int n) (hfields h)\<rparr>"
  have n: "in_i64 n" "n = (case hget h f of None \<Rightarrow> 0 | Some v \<Rightarrow> the (parse_i64 v)) + delta"
    "hincrby h f delta = (h', Inr n)"
    using Inr by (auto simp: hincrby_def hget_def h'_def split: option.splits sum.splits if_splits)
  have "hget h' = (hget h)(f \<mapsto> show_int n)" "hash_wf h'"
    using assms by (simp_all add: h'_def hget_def fun_eq_iff update_conv' distinct_update)
  moreover obtain t where "utf8_decode (show_int n) = Some t" using utf8_decode_show_int by blast
  ultimately have "snd (hincrby h' f 0) = Inr n"
    using n(1) by (simp add: hincrby_def h'_def update_conv' parse_i64_show_int)
  then show ?thesis using n \<open>hget h' = _\<close> \<open>hash_wf h'\<close> by simp
qed

theorem hincrby_spec_witness:
  "hash_wf \<lparr>hfields = [(''n'', ''41'')]\<rparr> \<and> snd (hincrby \<lparr>hfields = [(''n'', ''41'')]\<rparr> ''n'' 1) = Inr 42 \<and>
   hget (fst (hincrby \<lparr>hfields = [(''n'', ''41'')]\<rparr> ''n'' 1)) ''n'' = Some (show_int 42)"
proof -
  have "hincrby \<lparr>hfields = [(''n'', ''41'')]\<rparr> ''n'' 1 = (\<lparr>hfields = [(''n'', ''42'')]\<rparr>, Inr 42)" by code_simp
  then show ?thesis using hincrby_spec [of "\<lparr>hfields = [(''n'', ''41'')]\<rparr>" 1 "''n''"] by simp
qed

end
