(* ===== verification/Lfu.thy ===== *)
theory Lfu
  imports Kore_Prelude
begin

text \<open>
  The approximated LFU counter, \<open>src/src/lfu.rs\<close>, at the widths of the code: a 16-bit minute stamp
  and an 8-bit logarithmic counter packed into a \<open>u64\<close>. The clock is the parameter \<open>now\<close> (the value
  of \<open>minutes_now\<close> in that call). In \<open>log_incr\<close> the probability is \<open>1.0 / d\<close> with
  \<open>d = baseval * factor + 1\<close>, an integer that \<open>f64\<close> holds exactly; \<open>draw d\<close> says whether the random
  number of the call is below it. The generator draws from \<open>[0, 1)\<close>, so \<open>draw 1\<close> always holds.
\<close>

unbundle bit_operations_syntax

section \<open>Model\<close>

definition LFU_INIT_VAL :: "8 word" where
  "LFU_INIT_VAL = 5"

definition minutes_now :: "nat \<Rightarrow> 16 word" where
  "minutes_now secs = word_of_nat (secs div 60)"

definition pack :: "16 word \<Rightarrow> 8 word \<Rightarrow> 64 word" where
  "pack ldt counter = push_bit 8 (ucast ldt) OR ucast counter"

definition unpack :: "64 word \<Rightarrow> 16 word \<times> 8 word" where
  "unpack v = (ucast (drop_bit 8 v AND 0xffff), ucast (v AND 0xff))"

definition time_elapsed :: "16 word \<Rightarrow> 16 word \<Rightarrow> 16 word" where
  "time_elapsed ldt now = (if now \<ge> ldt then now - ldt else (65535 - ldt) + now)"

definition decr_counter :: "16 word \<Rightarrow> 8 word \<Rightarrow> 8 word \<Rightarrow> 16 word \<Rightarrow> 8 word" where
  "decr_counter ldt counter decay_time now =
     (if decay_time = 0 then counter
      else
        let elapsed = unat (time_elapsed ldt now);
            num_periods = elapsed div unat decay_time
        in if num_periods = 0 then counter
           else if num_periods \<ge> unat counter then 0
           else counter - word_of_nat num_periods)"

definition log_incr :: "(nat \<Rightarrow> bool) \<Rightarrow> 8 word \<Rightarrow> 8 word \<Rightarrow> 8 word" where
  "log_incr draw counter log_factor =
     (if counter = 255 then 255
      else
        let baseval = (if counter > LFU_INIT_VAL then unat (counter - LFU_INIT_VAL) else 0);
            factor = unat (max log_factor 1)
        in if draw (baseval * factor + 1) then counter + 1 else counter)"

definition initial :: "16 word \<Rightarrow> 64 word" where
  "initial now = pack now LFU_INIT_VAL"

definition on_access :: "(nat \<Rightarrow> bool) \<Rightarrow> 16 word \<Rightarrow> 64 word \<Rightarrow> 8 word \<Rightarrow> 8 word \<Rightarrow> 64 word" where
  "on_access draw now packed log_factor decay_time =
     (let (ldt, counter) = unpack packed;
          c = decr_counter ldt counter decay_time now;
          c = log_incr draw c log_factor
      in pack now c)"

definition effective_counter :: "16 word \<Rightarrow> 64 word \<Rightarrow> 8 word \<Rightarrow> 8 word" where
  "effective_counter now packed decay_time =
     (let (ldt, counter) = unpack packed in decr_counter ldt counter decay_time now)"

section \<open>Packing\<close>

lemma unat_u8: "unat (c :: 8 word) < 256"
  by (rule order_less_le_trans [OF unsigned_less]) simp

lemma unpack_pack [simp]: "unpack (pack ldt c) = (ldt, c)"
proof -
  have m: "(0xffff :: 64 word) = mask 16" "(0xff :: 64 word) = mask 8"
    by (simp_all add: mask_eq_exp_minus_1)
  have "ucast (drop_bit 8 (pack ldt c) AND 0xffff) = ldt"
    unfolding pack_def m
    by (rule bit_word_eqI) (auto simp: bit_simps dest: bit_imp_le_length)
  moreover have "ucast (pack ldt c AND 0xff) = c"
    unfolding pack_def m
    by (rule bit_word_eqI) (auto simp: bit_simps dest: bit_imp_le_length)
  ultimately show ?thesis by (simp add: unpack_def)
qed

lemma pack_24_bits: "pack ldt c < 2 ^ 24"
proof -
  have "pack ldt c = take_bit 24 (pack ldt c)"
    by (rule bit_word_eqI) (auto simp: pack_def bit_simps dest: bit_imp_le_length)
  then have "unat (pack ldt c) = take_bit 24 (unat (pack ldt c))"
    by (metis unsigned_take_bit_eq)
  then have "unat (pack ldt c) < 2 ^ 24" by (metis take_bit_nat_less_exp)
  then show ?thesis by (simp add: word_less_nat_alt)
qed

section \<open>Decay and increment\<close>

definition decay_periods :: "16 word \<Rightarrow> 8 word \<Rightarrow> 16 word \<Rightarrow> nat" where
  "decay_periods ldt decay_time now =
     (if decay_time = 0 then 0 else unat (time_elapsed ldt now) div unat decay_time)"

lemma decr_counter_unat:
  "unat (decr_counter ldt c decay_time now) = unat c - decay_periods ldt decay_time now"
proof -
  have "unat (c - word_of_nat n) = unat c - n" if "n < unat c" for n
  proof -
    have "n < 2 ^ 8" using that unat_u8 [of c] by simp
    then have n: "unat (word_of_nat n :: 8 word) = n" by (simp add: unat_of_nat take_bit_nat_eq_self)
    then have "(word_of_nat n :: 8 word) \<le> c" using that by (simp add: word_le_nat_alt)
    then show ?thesis using n by (simp add: unat_sub)
  qed
  then show ?thesis by (simp add: decr_counter_def decay_periods_def Let_def)
qed

lemma log_incr_unat:
  "unat (log_incr draw c lf) \<in> {unat c, min 255 (Suc (unat c))}"
  "draw 1 \<Longrightarrow> c \<le> LFU_INIT_VAL \<Longrightarrow> unat (log_incr draw c lf) = Suc (unat c)"
proof -
  have s: "unat (c + 1) = Suc (unat c)" if "c \<noteq> 255"
  proof -
    have "unat c \<noteq> 255" using that by (simp add: word_unat_eq_iff)
    then have "unat c + 1 < 2 ^ 8" using unat_u8 [of c] by simp
    then show ?thesis by (simp add: unat_add_lem [THEN iffD1])
  qed
  show "unat (log_incr draw c lf) \<in> {unat c, min 255 (Suc (unat c))}"
  proof (cases "c = 255")
    case False
    have "Suc (unat c) \<le> 255" using s [OF False] unat_u8 [of "c + 1"] by simp
    then show ?thesis using s [OF False] False by (auto simp: log_incr_def Let_def min_def)
  qed (simp add: log_incr_def)
  assume "draw 1" "c \<le> LFU_INIT_VAL"
  moreover have "c \<noteq> 255" using calculation(2) by (auto simp: LFU_INIT_VAL_def word_le_nat_alt)
  ultimately show "unat (log_incr draw c lf) = Suc (unat c)"
    using s by (simp add: log_incr_def Let_def not_less [symmetric])
qed

section \<open>Properties of the LFU counter\<close>

text \<open>
  C40. An access stamps the current minute, lowers the counter by one per elapsed decay period
  (stopping at 0) and then raises it by at most one (stopping at 255); a counter at or below the
  initial value is always raised. The stored word keeps to 24 bits, and reading the counter for
  eviction gives the decayed value without storing it.
\<close>

theorem lfu_access:
  assumes "unpack packed = (ldt, c)" and "draw 1"
  shows "let d = unat c - decay_periods ldt decay_time now;
             p = on_access draw now packed log_factor decay_time
         in p < 2 ^ 24 \<and> fst (unpack p) = now \<and>
            unat (snd (unpack p)) \<in> {d, min 255 (Suc d)} \<and>
            (d \<le> 5 \<longrightarrow> unat (snd (unpack p)) = Suc d) \<and>
            unat (effective_counter now packed decay_time) = d"
proof -
  define w where "w = decr_counter ldt c decay_time now"
  have d: "unat w = unat c - decay_periods ldt decay_time now"
    by (simp add: w_def decr_counter_unat)
  have p: "on_access draw now packed log_factor decay_time = pack now (log_incr draw w log_factor)"
    using assms(1) by (simp add: on_access_def w_def)
  have "unat w \<le> 5 \<Longrightarrow> w \<le> LFU_INIT_VAL" by (simp add: LFU_INIT_VAL_def word_le_nat_alt)
  then show ?thesis
    using log_incr_unat(1) [of draw w log_factor] log_incr_unat(2) [of draw w log_factor] assms
    by (simp add: Let_def p pack_24_bits [simplified] effective_counter_def d [symmetric] w_def [symmetric])
qed

theorem lfu_access_witness:
  "unpack (pack 100 50) = (100, 50) \<and>
   unat (effective_counter 110 (pack 100 50) 5) = 48 \<and>
   fst (unpack (on_access (\<lambda>_. True) 110 (pack 100 50) 10 5)) = 110"
proof -
  have "decay_periods 100 5 110 = 2" by (simp add: decay_periods_def time_elapsed_def)
  then show ?thesis using lfu_access [of "pack 100 50" 100 50 "\<lambda>_. True" 5 110 10]
    by (simp add: Let_def)
qed

end
