(* ===== verification/Hash_Slot.thy ===== *)
theory Hash_Slot
  imports Kore_Prelude
begin

text \<open>
  Cluster hash slots, \<open>src/src/cluster/crc16.rs\<close>: CRC16-XMODEM on 16-bit words and the slot of a key
  with its hash tag.
\<close>

unbundle bit_operations_syntax

section \<open>Model\<close>

definition SLOT_COUNT :: "16 word" where
  "SLOT_COUNT = 16384"

definition crc_shift :: "16 word \<Rightarrow> 16 word" where
  "crc_shift crc =
     (if crc AND 0x8000 \<noteq> 0 then push_bit 1 crc XOR 0x1021 else push_bit 1 crc)"

definition crc_byte :: "char \<Rightarrow> 16 word \<Rightarrow> 16 word" where
  "crc_byte byte crc = (crc_shift ^^ 8) (crc XOR push_bit 8 (word_of_nat (of_char byte)))"

definition crc16 :: "bytes \<Rightarrow> 16 word" where
  "crc16 data = fold crc_byte data 0"

definition hash_tag_bytes :: "bytes \<Rightarrow> bytes" where
  "hash_tag_bytes key =
     (case position (\<lambda>b. b = CHR ''{'') key of
        None \<Rightarrow> key
      | Some s \<Rightarrow>
          (case position (\<lambda>b. b = CHR ''}'') (drop (s + 1) key) of
             None \<Rightarrow> key
           | Some rel_e \<Rightarrow>
               let e = s + 1 + rel_e
               in if e = s + 1 then key else take (e - (s + 1)) (drop (s + 1) key)))"

definition key_hash_slot :: "bytes \<Rightarrow> 16 word" where
  "key_hash_slot key = crc16 (hash_tag_bytes key) AND (SLOT_COUNT - 1)"

section \<open>The checksum\<close>

lemma crc16_append: "crc16 (d @ e) = fold crc_byte e (crc16 d)"
  by (simp add: crc16_def)

lemma top_bit: "x AND 0x8000 \<noteq> 0 \<longleftrightarrow> bit (x :: 16 word) 15"
proof -
  have "(0x8000 :: 16 word) = 2 ^ 15" by simp
  then have "x AND 0x8000 = (if bit x 15 then 2 ^ 15 else 0)"
    by (simp only:) (rule bit_word_eqI, auto simp only: bit_and_iff bit_exp_iff bit_0_eq bot_apply bot_bool_def split: if_splits)
  then show ?thesis by simp
qed

lemma crc_shift_small:
  assumes "take_bit 8 x = (x :: 16 word)" and "k \<le> 8"
  shows "(crc_shift ^^ k) x = push_bit k x"
  using assms(2)
proof (induction k)
  case (Suc k)
  have "bit x (15 - k) = bit (take_bit 8 x) (15 - k)" using assms(1) by simp
  moreover have "\<not> 15 - k < 8" using Suc.prems by simp
  ultimately have "\<not> bit x (15 - k)" by (simp add: bit_simps)
  then have "\<not> bit (push_bit k x) 15" by (simp add: bit_simps)
  then have "crc_shift (push_bit k x) = push_bit 1 (push_bit k x)"
    by (simp only: crc_shift_def top_bit if_False)
  then show ?case using Suc by (simp add: push_bit_push_bit)
qed simp

lemma word_of_char: "word_of_nat (of_char (char_of (n :: nat))) = (take_bit 8 (word_of_nat n) :: 16 word)"
proof -
  have "take_bit 8 (word_of_nat n :: 16 word) = word_of_nat (take_bit 8 n)" by (rule take_bit_of_nat)
  then show ?thesis by (simp add: take_bit_eq_mod)
qed

text \<open>Feeding the checksum its own two bytes, high byte first, always ends at 0.\<close>

lemma crc16_check:
  "crc16 (d @ [char_of (unat (drop_bit 8 (crc16 d))), char_of (unat (crc16 d))]) = 0"
proof -
  let ?c = "crc16 d"
  let ?hi = "word_of_nat (of_char (char_of (unat (drop_bit 8 ?c)))) :: 16 word"
  let ?lo = "word_of_nat (of_char (char_of (unat ?c))) :: 16 word"
  have hi: "?hi = take_bit 8 (drop_bit 8 ?c)" and lo: "?lo = take_bit 8 ?c"
    by (simp_all add: word_of_char del: of_char_of)
  have "?c XOR push_bit 8 ?hi = take_bit 8 ?c"
    unfolding hi by (rule bit_word_eqI) (auto simp: bit_simps)
  then have 1: "crc_byte (char_of (unat (drop_bit 8 ?c))) ?c = push_bit 8 (take_bit 8 ?c)"
    by (simp only: crc_byte_def) (rule crc_shift_small, simp_all)
  have "crc_byte (char_of (unat ?c)) (push_bit 8 (take_bit 8 ?c)) = (crc_shift ^^ 8) 0"
    by (simp only: crc_byte_def lo xor_self_eq)
  also have "\<dots> = push_bit 8 0" by (rule crc_shift_small) simp_all
  finally show ?thesis using 1 by (simp add: crc16_append)
qed

section \<open>Properties of the hash slots\<close>

lemma hash_tag_found:
  assumes "CHR ''{'' \<notin> set a" "CHR ''}'' \<notin> set t" "t \<noteq> []"
  shows "hash_tag_bytes (a @ CHR ''{'' # t @ CHR ''}'' # b) = t"
proof -
  have "position (\<lambda>c. c = CHR ''{'') (a @ CHR ''{'' # t @ CHR ''}'' # b) = Some (length a)"
    "position (\<lambda>c. c = CHR ''}'') (t @ CHR ''}'' # b) = Some (length t)"
    using assms by (auto intro!: position_append simp: list_all_iff)
  then show ?thesis using assms(3) by (simp add: hash_tag_bytes_def Let_def)
qed

text \<open>
  C39. Every key maps to one of the 16384 slots, and keys with the same non-empty hash tag between
  the first opening brace and the next closing brace map to the same slot, the one of the tag's
  checksum, whatever surrounds the tag; a key without an opening brace is hashed whole.
\<close>

theorem key_hash_slot_tag:
  assumes "CHR ''{'' \<notin> set a" "CHR ''}'' \<notin> set t" "t \<noteq> []"
  shows "key_hash_slot (a @ CHR ''{'' # t @ CHR ''}'' # b) = crc16 t AND 0x3fff \<and>
    (CHR ''{'' \<notin> set t \<longrightarrow> key_hash_slot (a @ CHR ''{'' # t @ CHR ''}'' # b) = key_hash_slot t) \<and>
    key_hash_slot a = crc16 a AND 0x3fff \<and> unat (key_hash_slot k) < 16384"
proof -
  have m: "SLOT_COUNT - 1 = mask 14" "(0x3fff :: 16 word) = mask 14"
    by (simp_all add: SLOT_COUNT_def mask_eq_exp_minus_1)
  have whole: "hash_tag_bytes x = x" if "CHR ''{'' \<notin> set x" for x
  proof -
    have "position (\<lambda>c. c = CHR ''{'') x = None" using that by (auto simp: position_None list_all_iff)
    then show ?thesis by (simp add: hash_tag_bytes_def)
  qed
  have "unat (w AND mask 14 :: 16 word) < 16384" for w
  proof -
    have "unat (w AND mask 14) = take_bit 14 (unat w)"
      by (simp add: take_bit_eq_mask [symmetric] unsigned_take_bit_eq)
    also have "\<dots> < 2 ^ 14" by (rule take_bit_nat_less_exp)
    finally show ?thesis by simp
  qed
  then show ?thesis
    using hash_tag_found [OF assms] assms(1) whole by (simp add: key_hash_slot_def m)
qed

theorem key_hash_slot_tag_witness:
  "key_hash_slot (''user:'' @ CHR ''{'' # ''42'' @ CHR ''}'' # ''.name'') = key_hash_slot ''42'' \<and>
   unat (key_hash_slot ''foo'') < 16384"
proof -
  have "CHR ''{'' \<notin> set ''user:''" "CHR ''}'' \<notin> set ''42''" "''42'' \<noteq> []" "CHR ''{'' \<notin> set ''42''" by simp_all
  then show ?thesis using key_hash_slot_tag [of "''user:''" "''42''" "''.name''" "''foo''"] by blast
qed

end
