(* ===== verification/Score_Key.thy ===== *)
theory Score_Key
  imports Kore_Prelude "HOL-Library.Product_Lexorder"
begin

text \<open>
  The ordering layer of \<open>src/src/sorted_set.rs\<close>: the total order on \<open>f64\<close> scores (\<open>OrderedFloat\<close>),
  the skiplist key \<open>ScoreKey\<close>, and the score and lexicographic range bounds. An \<open>f64\<close> is its 64-bit
  pattern. IEEE comparison of two numbers that are not NaN is the comparison of their
  sign-magnitude values, in which both zeros are equal and the infinities are the extremes;
  parsing a decimal into an \<open>f64\<close> (\<open>ScoreBound::parse\<close>) is not modelled.
\<close>

unbundle bit_operations_syntax

section \<open>Floats and their order\<close>

type_synonym f64 = "64 word"

definition f64_magnitude :: "f64 \<Rightarrow> nat" where
  "f64_magnitude x = unat (take_bit 63 x)"

definition f64_is_nan :: "f64 \<Rightarrow> bool" where
  "f64_is_nan x \<longleftrightarrow> f64_magnitude x > 0x7FF0000000000000"

text \<open>The position of a number in the IEEE order.\<close>

definition f64_value :: "f64 \<Rightarrow> int" where
  "f64_value x = (if bit x 63 then - int (f64_magnitude x) else int (f64_magnitude x))"

datatype cmp_ordering = Less | Equal | Greater

definition cmp_int :: "int \<Rightarrow> int \<Rightarrow> cmp_ordering" where
  "cmp_int a b = (if a < b then Less else if a = b then Equal else Greater)"

definition f64_partial_cmp :: "f64 \<Rightarrow> f64 \<Rightarrow> cmp_ordering option" where
  "f64_partial_cmp a b =
     (if f64_is_nan a \<or> f64_is_nan b then None else Some (cmp_int (f64_value a) (f64_value b)))"

definition ordered_float_eq :: "f64 \<Rightarrow> f64 \<Rightarrow> bool" where
  "ordered_float_eq a b =
     (case (f64_is_nan a, f64_is_nan b) of
        (True, True) \<Rightarrow> True
      | (False, False) \<Rightarrow> f64_value a = f64_value b
      | _ \<Rightarrow> False)"

definition ordered_float_cmp :: "f64 \<Rightarrow> f64 \<Rightarrow> cmp_ordering" where
  "ordered_float_cmp a b =
     (case (f64_is_nan a, f64_is_nan b) of
        (True, True) \<Rightarrow> Equal
      | (True, False) \<Rightarrow> Greater
      | (False, True) \<Rightarrow> Less
      | (False, False) \<Rightarrow> (case f64_partial_cmp a b of Some c \<Rightarrow> c | None \<Rightarrow> Equal))"

section \<open>Keys and bounds\<close>

record score_key =
  key_score :: f64
  key_member :: bytes

definition bytes_cmp :: "bytes \<Rightarrow> bytes \<Rightarrow> cmp_ordering" where
  "bytes_cmp a b = (if a < b then Less else if a = b then Equal else Greater)"

definition score_key_cmp :: "score_key \<Rightarrow> score_key \<Rightarrow> cmp_ordering" where
  "score_key_cmp a b =
     (case ordered_float_cmp (key_score a) (key_score b) of
        Equal \<Rightarrow> bytes_cmp (key_member a) (key_member b)
      | ord \<Rightarrow> ord)"

definition score_key_lt :: "score_key \<Rightarrow> score_key \<Rightarrow> bool" where
  "score_key_lt a b \<longleftrightarrow> score_key_cmp a b = Less"

definition score_key_eq :: "score_key \<Rightarrow> score_key \<Rightarrow> bool" where
  "score_key_eq a b \<longleftrightarrow>
     ordered_float_eq (key_score a) (key_score b) \<and> key_member a = key_member b"

record score_bound =
  sb_value :: f64
  sb_exclusive :: bool

definition score_accepts_as_min :: "score_bound \<Rightarrow> f64 \<Rightarrow> bool" where
  "score_accepts_as_min b score =
     (let c = ordered_float_cmp score (sb_value b)
      in if sb_exclusive b then c = Greater else c \<noteq> Less)"

definition score_accepts_as_max :: "score_bound \<Rightarrow> f64 \<Rightarrow> bool" where
  "score_accepts_as_max b score =
     (let c = ordered_float_cmp score (sb_value b)
      in if sb_exclusive b then c = Less else c \<noteq> Greater)"

definition score_in_range :: "f64 \<Rightarrow> score_bound \<Rightarrow> score_bound \<Rightarrow> bool" where
  "score_in_range score mn mx \<longleftrightarrow> score_accepts_as_min mn score \<and> score_accepts_as_max mx score"

datatype lex_bound = NegInf | PosInf | Inclusive bytes | Exclusive bytes

definition lex_parse :: "bytes \<Rightarrow> unit + lex_bound" where
  "lex_parse s =
     (if s = ''-'' then Inr NegInf
      else if s = ''+'' then Inr PosInf
      else case s of
        [] \<Rightarrow> Inl ()
      | c # r \<Rightarrow>
          if c = CHR ''['' then Inr (Inclusive r)
          else if c = CHR ''('' then Inr (Exclusive r)
          else Inl ())"

fun lex_accepts_as_min :: "lex_bound \<Rightarrow> bytes \<Rightarrow> bool" where
  "lex_accepts_as_min NegInf m = True"
| "lex_accepts_as_min PosInf m = False"
| "lex_accepts_as_min (Inclusive b) m = (m \<ge> b)"
| "lex_accepts_as_min (Exclusive b) m = (m > b)"

fun lex_accepts_as_max :: "lex_bound \<Rightarrow> bytes \<Rightarrow> bool" where
  "lex_accepts_as_max PosInf m = True"
| "lex_accepts_as_max NegInf m = False"
| "lex_accepts_as_max (Inclusive b) m = (m \<le> b)"
| "lex_accepts_as_max (Exclusive b) m = (m < b)"

definition member_in_lex_range :: "bytes \<Rightarrow> lex_bound \<Rightarrow> lex_bound \<Rightarrow> bool" where
  "member_in_lex_range m mn mx \<longleftrightarrow> lex_accepts_as_min mn m \<and> lex_accepts_as_max mx m"

section \<open>The order is total\<close>

text \<open>The rank of a score and of a key in a linear order of the library.\<close>

definition f64_rank :: "f64 \<Rightarrow> int" where
  "f64_rank x = (if f64_is_nan x then 2 ^ 64 else f64_value x)"

definition key_rank :: "score_key \<Rightarrow> int \<times> bytes" where
  "key_rank k = (f64_rank (key_score k), key_member k)"

lemma f64_value_less: "f64_value x < 2 ^ 64"
proof -
  have "f64_magnitude x < 2 ^ 64" unfolding f64_magnitude_def
    by (rule order_less_le_trans [OF unsigned_less]) simp
  then have "int (f64_magnitude x) < 2 ^ 64" by (simp flip: of_nat_power_less_of_nat_cancel_iff)
  then show ?thesis by (simp add: f64_value_def)
qed

lemma ordered_float_cmp_rank: "ordered_float_cmp a b = cmp_int (f64_rank a) (f64_rank b)"
  using f64_value_less [of a] f64_value_less [of b]
  by (auto simp: ordered_float_cmp_def f64_rank_def f64_partial_cmp_def cmp_int_def)

lemma ordered_float_eq_rank: "ordered_float_eq a b \<longleftrightarrow> f64_rank a = f64_rank b"
  using f64_value_less [of a] f64_value_less [of b]
  by (auto simp: ordered_float_eq_def f64_rank_def split: bool.splits)

lemma score_key_lt_rank: "score_key_lt a b \<longleftrightarrow> key_rank a < key_rank b"
  by (auto simp: score_key_lt_def score_key_cmp_def ordered_float_cmp_rank cmp_int_def bytes_cmp_def
      key_rank_def less_prod_def' split: if_splits)

lemma score_key_eq_rank: "score_key_eq a b \<longleftrightarrow> key_rank a = key_rank b"
  by (auto simp: score_key_eq_def ordered_float_eq_rank key_rank_def)

end
