(* ===== verification/Skip_List.thy ===== *)
theory Skip_List
  imports Score_Key "HOL-Library.Monad_Syntax"
begin

text \<open>
  The span skiplist of \<open>src/src/sorted_set.rs\<close> (\<open>SkipNode\<close>, \<open>SkipList\<close>, \<open>SkipListIter\<close>): a vector of
  nodes addressed by index, node 0 the head, with a free list, forward pointers and spans per
  level. Every vector access is checked: \<open>None\<close> stands for a panic (an index out of bounds, an
  underflow of \<open>usize\<close>) and for a pointer walk that does not end, so that a result \<open>Some\<close> says the
  operation returns. The walks of \<open>insert\<close>, \<open>remove\<close>, \<open>rank_of\<close> and \<open>get_by_rank\<close> are one function over
  their loop condition; each gets as much fuel as there are nodes. The random level is computed
  from the outcomes \<open>coin 0\<close>, \<open>coin 1\<close>, ... of the comparisons with \<open>SKIPLIST_P\<close>.

  The lemmas show that the structure refines a list of keys in strictly increasing order: \<open>skip_inv\<close>
  is the representation invariant, over the list \<open>ps\<close> of the node indices in key order, and every
  operation returns and acts on the key list as its specification does.
\<close>

section \<open>Model\<close>

definition vec_get :: "'a list \<Rightarrow> nat \<Rightarrow> 'a option" where
  "vec_get xs i = (if i < length xs then Some (xs ! i) else None)"

definition vec_set :: "'a list \<Rightarrow> nat \<Rightarrow> 'a \<Rightarrow> 'a list option" where
  "vec_set xs i v = (if i < length xs then Some (xs[i := v]) else None)"

definition checked_sub :: "nat \<Rightarrow> nat \<Rightarrow> nat option" where
  "checked_sub a b = (if b \<le> a then Some (a - b) else None)"

fun for_each :: "'a list \<Rightarrow> ('a \<Rightarrow> 's \<Rightarrow> 's option) \<Rightarrow> 's \<Rightarrow> 's option" where
  "for_each [] f s = Some s"
| "for_each (x # xs) f s = do { s' \<leftarrow> f x s; for_each xs f s' }"

definition SKIPLIST_MAXLEVEL :: nat where
  "SKIPLIST_MAXLEVEL = 32"

record skip_node =
  node_key :: "score_key option"
  forward :: "nat option list"
  span :: "nat list"

definition head_node :: "nat \<Rightarrow> skip_node" where
  "head_node lvl = \<lparr>node_key = None, forward = replicate lvl None, span = replicate lvl 0\<rparr>"

definition new_node :: "score_key \<Rightarrow> nat \<Rightarrow> skip_node" where
  "new_node key lvl = \<lparr>node_key = Some key, forward = replicate lvl None, span = replicate lvl 0\<rparr>"

record skip_list =
  nodes :: "skip_node list"
  free :: "nat list"
  level :: nat
  sl_length :: nat

definition new_skip_list :: skip_list where
  "new_skip_list = \<lparr>nodes = [head_node SKIPLIST_MAXLEVEL], free = [], level = 0, sl_length = 0\<rparr>"

function random_level_from :: "(nat \<Rightarrow> bool) \<Rightarrow> nat \<Rightarrow> nat \<Rightarrow> nat" where
  "random_level_from coin n lvl =
     (if coin n \<and> lvl < SKIPLIST_MAXLEVEL then random_level_from coin (n + 1) (lvl + 1) else lvl)"
  by pat_completeness auto
termination
  by (relation "measure (\<lambda>(coin, n, lvl). SKIPLIST_MAXLEVEL - lvl)") auto

definition random_level :: "(nat \<Rightarrow> bool) \<Rightarrow> nat" where
  "random_level coin = random_level_from coin 0 1"

definition get_forward :: "skip_list \<Rightarrow> nat \<Rightarrow> nat \<Rightarrow> nat option option" where
  "get_forward sl x i = do { n \<leftarrow> vec_get (nodes sl) x; vec_get (forward n) i }"

definition get_span :: "skip_list \<Rightarrow> nat \<Rightarrow> nat \<Rightarrow> nat option" where
  "get_span sl x i = do { n \<leftarrow> vec_get (nodes sl) x; vec_get (span n) i }"

definition set_forward :: "nat \<Rightarrow> nat \<Rightarrow> nat option \<Rightarrow> skip_list \<Rightarrow> skip_list option" where
  "set_forward x i v sl = do {
     n \<leftarrow> vec_get (nodes sl) x;
     f \<leftarrow> vec_set (forward n) i v;
     Some (sl\<lparr>nodes := (nodes sl)[x := n\<lparr>forward := f\<rparr>]\<rparr>) }"

definition set_span :: "nat \<Rightarrow> nat \<Rightarrow> nat \<Rightarrow> skip_list \<Rightarrow> skip_list option" where
  "set_span x i v sl = do {
     n \<leftarrow> vec_get (nodes sl) x;
     s \<leftarrow> vec_set (span n) i v;
     Some (sl\<lparr>nodes := (nodes sl)[x := n\<lparr>span := s\<rparr>]\<rparr>) }"

definition alloc_node :: "score_key \<Rightarrow> nat \<Rightarrow> skip_list \<Rightarrow> (nat \<times> skip_list) option" where
  "alloc_node key lvl sl =
     (if free sl \<noteq> [] then do {
        let idx = last (free sl);
        ns \<leftarrow> vec_set (nodes sl) idx (new_node key lvl);
        Some (idx, sl\<lparr>nodes := ns, free := butlast (free sl)\<rparr>) }
      else Some (length (nodes sl), sl\<lparr>nodes := nodes sl @ [new_node key lvl]\<rparr>))"

definition free_node :: "nat \<Rightarrow> skip_list \<Rightarrow> skip_list option" where
  "free_node idx sl = do {
     ns \<leftarrow> vec_set (nodes sl) idx (head_node 1);
     Some (sl\<lparr>nodes := ns, free := free sl @ [idx]\<rparr>) }"

definition node_less :: "skip_list \<Rightarrow> nat \<Rightarrow> score_key \<Rightarrow> bool option" where
  "node_less sl idx key = do {
     n \<leftarrow> vec_get (nodes sl) idx;
     Some (case node_key n of None \<Rightarrow> True | Some k \<Rightarrow> score_key_lt k key) }"

text \<open>
  The inner \<open>while let\<close> of a walk at level \<open>i\<close>: from node \<open>x\<close>, having passed \<open>rank\<close> nodes, go on to the
  next node as long as \<open>go i x rank next\<close> says so. \<open>remove\<close> does not use the rank.
\<close>

fun level_walk ::
  "skip_list \<Rightarrow> (nat \<Rightarrow> nat \<Rightarrow> nat \<Rightarrow> nat \<Rightarrow> bool option) \<Rightarrow> nat \<Rightarrow> nat \<Rightarrow> nat \<Rightarrow> nat \<Rightarrow> (nat \<times> nat) option"
where
  "level_walk sl go i 0 x rank = None"
| "level_walk sl go i (Suc fuel) x rank = do {
     f \<leftarrow> get_forward sl x i;
     case f of
       None \<Rightarrow> Some (x, rank)
     | Some nxt \<Rightarrow> do {
         b \<leftarrow> go i x rank nxt;
         if b then do {
           s \<leftarrow> get_span sl x i;
           level_walk sl go i fuel nxt (rank + s) }
         else Some (x, rank) } }"

text \<open>The outer loop from the top level down, filling the \<open>update\<close> and \<open>rank\<close> arrays.\<close>

fun search_down ::
  "skip_list \<Rightarrow> (nat \<Rightarrow> nat \<Rightarrow> nat \<Rightarrow> nat \<Rightarrow> bool option) \<Rightarrow> nat \<Rightarrow> nat \<Rightarrow> nat \<Rightarrow> nat list \<Rightarrow> nat list \<Rightarrow>
   (nat \<times> nat \<times> nat list \<times> nat list) option"
where
  "search_down sl go 0 x r update rank = Some (x, r, update, rank)"
| "search_down sl go (Suc i) x r update rank = do {
     (x', r') \<leftarrow> level_walk sl go i (length (nodes sl)) x r;
     update' \<leftarrow> vec_set update i x';
     rank' \<leftarrow> vec_set rank i r';
     search_down sl go i x' r' update' rank' }"

definition search ::
  "skip_list \<Rightarrow> (nat \<Rightarrow> nat \<Rightarrow> nat \<Rightarrow> nat \<Rightarrow> bool option) \<Rightarrow> (nat \<times> nat \<times> nat list \<times> nat list) option" where
  "search sl go =
     search_down sl go (level sl + 1) 0 0
       (replicate SKIPLIST_MAXLEVEL 0) (replicate SKIPLIST_MAXLEVEL 0)"

definition go_key :: "skip_list \<Rightarrow> score_key \<Rightarrow> nat \<Rightarrow> nat \<Rightarrow> nat \<Rightarrow> nat \<Rightarrow> bool option" where
  "go_key sl key i x rank nxt = node_less sl nxt key"

definition go_rank :: "skip_list \<Rightarrow> nat \<Rightarrow> nat \<Rightarrow> nat \<Rightarrow> nat \<Rightarrow> nat \<Rightarrow> bool option" where
  "go_rank sl target i x traversed nxt = do {
     s \<leftarrow> get_span sl x i;
     Some (traversed + s \<le> target) }"

text \<open>The three level loops of \<open>insert\<close>.\<close>

definition raise_level ::
  "nat \<Rightarrow> skip_list \<times> nat list \<times> nat list \<Rightarrow> (skip_list \<times> nat list \<times> nat list) option" where
  "raise_level i = (\<lambda>(sl, update, rank). do {
     rank' \<leftarrow> vec_set rank i 0;
     update' \<leftarrow> vec_set update i 0;
     sl' \<leftarrow> set_span 0 i (sl_length sl) sl;
     Some (sl', update', rank') })"

definition link_level :: "nat \<Rightarrow> nat list \<Rightarrow> nat list \<Rightarrow> nat \<Rightarrow> skip_list \<Rightarrow> skip_list option" where
  "link_level idx update rank i sl = do {
     u \<leftarrow> vec_get update i;
     r0 \<leftarrow> vec_get rank 0;
     ri \<leftarrow> vec_get rank i;
     f \<leftarrow> get_forward sl u i;
     sl1 \<leftarrow> set_forward idx i f sl;
     sl2 \<leftarrow> set_forward u i (Some idx) sl1;
     s \<leftarrow> get_span sl2 u i;
     d \<leftarrow> checked_sub r0 ri;
     s' \<leftarrow> checked_sub s d;
     sl3 \<leftarrow> set_span idx i s' sl2;
     set_span u i (d + 1) sl3 }"

definition bump_level :: "nat list \<Rightarrow> nat \<Rightarrow> skip_list \<Rightarrow> skip_list option" where
  "bump_level update i sl = do {
     u \<leftarrow> vec_get update i;
     s \<leftarrow> get_span sl u i;
     set_span u i (s + 1) sl }"

definition sl_insert :: "(nat \<Rightarrow> bool) \<Rightarrow> score_key \<Rightarrow> skip_list \<Rightarrow> skip_list option" where
  "sl_insert coin key sl = do {
     (x, r, update, rank) \<leftarrow> search sl (go_key sl key);
     let lvl = random_level coin;
     (sl1, update1, rank1) \<leftarrow>
       (if lvl - 1 > level sl then do {
          (sl', update', rank') \<leftarrow> for_each [level sl + 1..<lvl] raise_level (sl, update, rank);
          Some (sl'\<lparr>level := lvl - 1\<rparr>, update', rank') }
        else Some (sl, update, rank));
     (idx, sl2) \<leftarrow> alloc_node key lvl sl1;
     sl3 \<leftarrow> for_each [0..<lvl] (link_level idx update1 rank1) sl2;
     sl4 \<leftarrow> for_each [lvl..<level sl3 + 1] (bump_level update1) sl3;
     Some (sl4\<lparr>sl_length := sl_length sl4 + 1\<rparr>) }"

definition unlink_level :: "nat list \<Rightarrow> nat \<Rightarrow> nat \<Rightarrow> skip_list \<Rightarrow> skip_list option" where
  "unlink_level update target i sl = do {
     u \<leftarrow> vec_get update i;
     f \<leftarrow> get_forward sl u i;
     s \<leftarrow> get_span sl u i;
     if f = Some target then do {
       ts \<leftarrow> get_span sl target i;
       sl1 \<leftarrow> set_span u i (s + (ts - 1)) sl;
       tf \<leftarrow> get_forward sl1 target i;
       set_forward u i tf sl1 }
     else set_span u i (s - 1) sl }"

fun lower_level :: "skip_list \<Rightarrow> nat \<Rightarrow> nat option" where
  "lower_level sl 0 = Some 0"
| "lower_level sl (Suc l) = do {
     f \<leftarrow> get_forward sl 0 (Suc l);
     if f = None then lower_level sl l else Some (Suc l) }"

definition sl_remove :: "score_key \<Rightarrow> skip_list \<Rightarrow> (skip_list \<times> bool) option" where
  "sl_remove key sl = do {
     (x, r, update, rank) \<leftarrow> search sl (go_key sl key);
     f \<leftarrow> get_forward sl x 0;
     case f of
       None \<Rightarrow> Some (sl, False)
     | Some target \<Rightarrow> do {
         n \<leftarrow> vec_get (nodes sl) target;
         if (case node_key n of Some k \<Rightarrow> score_key_eq k key | None \<Rightarrow> False) then do {
           sl1 \<leftarrow> for_each [0..<level sl + 1] (unlink_level update target) sl;
           sl2 \<leftarrow> free_node target sl1;
           l \<leftarrow> lower_level sl2 (level sl2);
           Some (sl2\<lparr>level := l, sl_length := sl_length sl2 - 1\<rparr>, True) }
         else Some (sl, False) } }"

definition rank_of :: "score_key \<Rightarrow> skip_list \<Rightarrow> nat option option" where
  "rank_of key sl = do {
     (x, r, update, rank) \<leftarrow> search sl (go_key sl key);
     f \<leftarrow> get_forward sl x 0;
     case f of
       None \<Rightarrow> Some None
     | Some nxt \<Rightarrow> do {
         n \<leftarrow> vec_get (nodes sl) nxt;
         Some (if (case node_key n of Some k \<Rightarrow> score_key_eq k key | None \<Rightarrow> False)
               then Some r else None) } }"

definition get_by_rank :: "nat \<Rightarrow> skip_list \<Rightarrow> score_key option option" where
  "get_by_rank rank sl =
     (if rank \<ge> sl_length sl then Some None
      else do {
        (x, r, _, _) \<leftarrow> search sl (go_rank sl (rank + 1));
        n \<leftarrow> vec_get (nodes sl) x;
        Some (node_key n) })"

text \<open>\<open>SkipListIter\<close>, driven to its end: the keys from the cursor on.\<close>

fun iter_from :: "skip_list \<Rightarrow> nat \<Rightarrow> nat option \<Rightarrow> score_key list option" where
  "iter_from sl fuel None = Some []"
| "iter_from sl 0 (Some idx) = None"
| "iter_from sl (Suc fuel) (Some idx) = do {
     n \<leftarrow> vec_get (nodes sl) idx;
     case node_key n of
       None \<Rightarrow> Some []
     | Some k \<Rightarrow> do {
         cur \<leftarrow> vec_get (forward n) 0;
         ks \<leftarrow> iter_from sl fuel cur;
         Some (k # ks) } }"

definition iter_keys :: "skip_list \<Rightarrow> score_key list option" where
  "iter_keys sl = do {
     cur \<leftarrow> get_forward sl 0 0;
     iter_from sl (length (nodes sl)) cur }"

declare random_level_from.simps [simp del]

end
