(* ===== verification/Skip_List_Proofs.thy ===== *)
theory Skip_List_Proofs
  imports Skip_List
begin

text \<open>
  The skiplist of \<open>Skip_List\<close> refines a strictly increasing list of keys. The heart is \<open>chain\<close>: what
  the pointers and spans of one level say about the list of node indices. It is local to a level,
  so that each loop of \<open>insert\<close> and \<open>remove\<close> is verified one level at a time.
\<close>

section \<open>One level\<close>

text \<open>
  \<open>chain T F S x d ys\<close>: the nodes \<open>ys\<close> follow; \<open>x\<close> is the last node tall enough for the level (\<open>T\<close>)
  and \<open>d\<close> shorter nodes have passed since. The pointer of \<open>x\<close> goes to the next tall node with the
  exact distance as its span; after the last tall node the span only bounds the distance to the
  end from above (\<open>remove\<close> can leave it too large).
\<close>

fun chain :: "(nat \<Rightarrow> bool) \<Rightarrow> (nat \<Rightarrow> nat option) \<Rightarrow> (nat \<Rightarrow> nat) \<Rightarrow> nat \<Rightarrow> nat \<Rightarrow> nat list \<Rightarrow> bool" where
  "chain T F S x d [] \<longleftrightarrow> F x = None \<and> d \<le> S x"
| "chain T F S x d (y # ys) \<longleftrightarrow>
     (if T y then F x = Some y \<and> S x = Suc d \<and> chain T F S y 0 ys else chain T F S x (Suc d) ys)"

fun seg :: "(nat \<Rightarrow> bool) \<Rightarrow> (nat \<Rightarrow> nat option) \<Rightarrow> (nat \<Rightarrow> nat) \<Rightarrow> nat \<Rightarrow> nat \<Rightarrow> nat list \<Rightarrow> bool" where
  "seg T F S x d [] \<longleftrightarrow> True"
| "seg T F S x d (y # ys) \<longleftrightarrow>
     (if T y then F x = Some y \<and> S x = Suc d \<and> seg T F S y 0 ys else seg T F S x (Suc d) ys)"

fun last_tall :: "(nat \<Rightarrow> bool) \<Rightarrow> nat \<Rightarrow> nat \<Rightarrow> nat list \<Rightarrow> nat \<times> nat" where
  "last_tall T x d [] = (x, d)"
| "last_tall T x d (y # ys) = (if T y then last_tall T y 0 ys else last_tall T x (Suc d) ys)"

lemma last_tall_append:
  "last_tall T x d (as @ bs) = last_tall T (fst (last_tall T x d as)) (snd (last_tall T x d as)) bs"
  by (induction as arbitrary: x d) simp_all

lemma chain_append:
  "chain T F S x d (as @ bs) \<longleftrightarrow>
     seg T F S x d as \<and> chain T F S (fst (last_tall T x d as)) (snd (last_tall T x d as)) bs"
  by (induction as arbitrary: x d) simp_all

lemma last_tall_cases:
  assumes "last_tall T x d as = (u, e)"
  obtains "u = x" "e = d + length as" "\<forall>y \<in> set as. \<not> T y"
  | as1 as2 where "as = as1 @ u # as2" "T u" "e = length as2"
proof -
  have "u = x \<and> e = d + length as \<and> (\<forall>y \<in> set as. \<not> T y) \<or>
      (\<exists>as1 as2. as = as1 @ u # as2 \<and> T u \<and> e = length as2)"
    using assms
  proof (induction as arbitrary: x d)
    case (Cons y ys)
    show ?case
    proof (cases "T y")
      case True
      then have "last_tall T y 0 ys = (u, e)" using Cons.prems by simp
      from Cons.IH [OF this] show ?thesis
      proof (elim disjE exE conjE)
        assume "u = y" "e = 0 + length ys"
        then show ?thesis using True by (intro disjI2 exI [of _ "[]"] exI [of _ ys]) simp
      next
        fix as1 as2
        assume "ys = as1 @ u # as2" "T u" "e = length as2"
        then show ?thesis by (intro disjI2 exI [of _ "y # as1"] exI [of _ as2]) simp
      qed
    next
      case False
      then have "last_tall T x (Suc d) ys = (u, e)" using Cons.prems by simp
      from Cons.IH [OF this] show ?thesis
      proof (elim disjE exE conjE)
        fix as1 as2
        assume "ys = as1 @ u # as2" "T u" "e = length as2"
        then show ?thesis by (intro disjI2 exI [of _ "y # as1"] exI [of _ as2]) simp
      qed (use False in simp)
    qed
  qed simp
  then show thesis using that by blast
qed

lemma last_tall_cong:
  "(\<And>y. y \<in> set as \<Longrightarrow> T' y = T y) \<Longrightarrow> last_tall T' x d as = last_tall T x d as"
  by (induction as arbitrary: x d) simp_all

lemma last_tall_in: "fst (last_tall T x d as) = x \<or> fst (last_tall T x d as) \<in> set as"
  by (induction as arbitrary: x d) fastforce+

lemma last_tall_snd: "snd (last_tall T x d as) \<le> d + length as"
proof (induction as arbitrary: x d)
  case (Cons y as)
  show ?case using Cons [of y 0] Cons [of x "Suc d"] by auto
qed simp

lemma last_tall_none: "\<forall>y \<in> set as. \<not> T y \<Longrightarrow> last_tall T x d as = (x, d + length as)"
  by (induction as arbitrary: x d) simp_all

lemma last_tall_all: "\<forall>y \<in> set as. T y \<Longrightarrow> last_tall T x 0 as = (last (x # as), 0)"
  by (induction as arbitrary: x) simp_all

lemma chain_none: "\<forall>y \<in> set ys. \<not> T y \<Longrightarrow> chain T F S x d ys \<longleftrightarrow> F x = None \<and> d + length ys \<le> S x"
  by (induction ys arbitrary: d) simp_all

lemma chain_span: "chain T F S x d ys \<Longrightarrow> d \<le> S x"
  by (induction ys arbitrary: d) (auto split: if_splits dest: Suc_leD)

lemma chain_next:
  "chain T F S x d ys \<Longrightarrow> F x = None \<or> (\<exists>y \<in> set ys. F x = Some y \<and> d < S x)"
  by (induction ys arbitrary: d) (fastforce split: if_splits)+

text \<open>The pointer of \<open>u\<close> handed to \<open>v\<close>, with the span made smaller by \<open>d\<close>, larger by \<open>k\<close>, or added up.\<close>

lemma chain_cong:
  "(\<And>y. y \<in> set ys \<Longrightarrow> T' y = T y \<and> F' y = F y \<and> S' y = S y) \<Longrightarrow> F' x = F x \<Longrightarrow> S' x = S x \<Longrightarrow>
     chain T' F' S' x d ys = chain T F S x d ys"
  by (induction ys arbitrary: x d) simp_all

lemma chain_shrink:
  "chain T F S u (d + e) ys \<Longrightarrow> F' v = F u \<Longrightarrow> S' v + d = S u \<Longrightarrow>
   (\<And>y. y \<in> set ys \<Longrightarrow> T' y = T y \<and> F' y = F y \<and> S' y = S y) \<Longrightarrow> chain T' F' S' v e ys"
proof (induction ys arbitrary: e)
  case (Cons y ys)
  then show ?case using chain_cong [of ys T' T F' F S' S y 0] Cons.IH [of "Suc e"]
    by (auto split: if_splits)
qed simp

lemma chain_grow:
  "chain T F S u e ys \<Longrightarrow> F' v = F u \<Longrightarrow> S u + k \<le> S' v \<Longrightarrow> (0 < S u \<Longrightarrow> S' v = S u + k) \<Longrightarrow>
   (\<And>y. y \<in> set ys \<Longrightarrow> T' y = T y \<and> F' y = F y \<and> S' y = S y) \<Longrightarrow> chain T' F' S' v (k + e) ys"
proof (induction ys arbitrary: e)
  case (Cons y ys)
  then show ?case using chain_cong [of ys T' T F' F S' S y 0] Cons.IH [of "Suc e"]
    by (auto split: if_splits)
qed simp

lemma seg_cong:
  "seg T F S x d ys \<Longrightarrow> distinct (x # ys) \<Longrightarrow> (\<And>y. y \<in> set ys \<Longrightarrow> T' y = T y) \<Longrightarrow>
   (\<And>y. y \<in> insert x (set ys) \<Longrightarrow> y \<noteq> fst (last_tall T x d ys) \<Longrightarrow> F' y = F y \<and> S' y = S y) \<Longrightarrow>
   seg T' F' S' x d ys"
proof (induction ys arbitrary: x d)
  case (Cons y ys)
  show ?case
  proof (cases "T y")
    case True
    have "fst (last_tall T y 0 ys) \<noteq> x"
      using Cons.prems(2) last_tall_in [of T y 0 ys] by auto
    then have x: "F' x = F x \<and> S' x = S x" using Cons.prems(4) [of x] True by simp
    have "seg T' F' S' y 0 ys"
      using Cons.prems True by (intro Cons.IH) auto
    then show ?thesis using Cons.prems True x by simp
  next
    case False
    have "seg T' F' S' x (Suc d) ys"
      using Cons.prems False by (intro Cons.IH) auto
    then show ?thesis using Cons.prems(3) False by simp
  qed
qed simp

section \<open>The representation invariant\<close>

definition height :: "skip_list \<Rightarrow> nat \<Rightarrow> nat" where
  "height sl y = length (forward (nodes sl ! y))"

definition fwd :: "skip_list \<Rightarrow> nat \<Rightarrow> nat \<Rightarrow> nat option" where
  "fwd sl i y = forward (nodes sl ! y) ! i"

definition spn :: "skip_list \<Rightarrow> nat \<Rightarrow> nat \<Rightarrow> nat" where
  "spn sl i y = span (nodes sl ! y) ! i"

definition key_at :: "skip_list \<Rightarrow> nat \<Rightarrow> score_key" where
  "key_at sl y = the (node_key (nodes sl ! y))"

abbreviation tall :: "skip_list \<Rightarrow> nat \<Rightarrow> nat \<Rightarrow> bool" where
  "tall sl i y \<equiv> i < height sl y"

abbreviation chain_at :: "skip_list \<Rightarrow> nat \<Rightarrow> nat list \<Rightarrow> bool" where
  "chain_at sl i ps \<equiv> chain (tall sl i) (fwd sl i) (spn sl i) 0 0 ps"

text \<open>
  \<open>skip_shape\<close>: the vectors are well formed, \<open>ps\<close>, the free list and the head are disjoint, and no
  node is taller than the current level. \<open>skip_inv\<close> adds the count, the key order and the levels.
\<close>

definition skip_shape :: "skip_list \<Rightarrow> nat list \<Rightarrow> bool" where
  "skip_shape sl ps \<longleftrightarrow>
     0 < length (nodes sl) \<and> node_key (nodes sl ! 0) = None \<and> height sl 0 = SKIPLIST_MAXLEVEL \<and>
     length (span (nodes sl ! 0)) = SKIPLIST_MAXLEVEL \<and>
     distinct (0 # ps @ free sl) \<and> set ps \<union> set (free sl) \<subseteq> {..<length (nodes sl)} \<and>
     (\<forall>p \<in> set ps. node_key (nodes sl ! p) \<noteq> None \<and> length (span (nodes sl ! p)) = height sl p \<and>
        1 \<le> height sl p \<and> height sl p \<le> Suc (level sl)) \<and>
     level sl < SKIPLIST_MAXLEVEL"

definition skip_inv :: "skip_list \<Rightarrow> nat list \<Rightarrow> bool" where
  "skip_inv sl ps \<longleftrightarrow>
     skip_shape sl ps \<and> sl_length sl = length ps \<and>
     sorted_wrt score_key_lt (map (key_at sl) ps) \<and>
     (\<forall>i \<le> level sl. chain_at sl i ps) \<and>
     (\<forall>i. level sl < i \<longrightarrow> i < SKIPLIST_MAXLEVEL \<longrightarrow> fwd sl i 0 = None)"

lemma shape_access:
  assumes "skip_shape sl ps" "x = 0 \<or> x \<in> set ps" "i < height sl x"
  shows "get_forward sl x i = Some (fwd sl i x)" "get_span sl x i = Some (spn sl i x)"
    "x < length (nodes sl)" "i < length (span (nodes sl ! x))" "i < SKIPLIST_MAXLEVEL"
proof -
  show x: "x < length (nodes sl)" using assms(1,2) by (auto simp: skip_shape_def)
  show s: "i < length (span (nodes sl ! x))" using assms by (auto simp: skip_shape_def)
  show "get_forward sl x i = Some (fwd sl i x)" "get_span sl x i = Some (spn sl i x)"
    using x s assms(3) by (simp_all add: get_forward_def get_span_def vec_get_def fwd_def spn_def height_def)
  show "i < SKIPLIST_MAXLEVEL" using assms by (auto simp: skip_shape_def)
qed

lemma shape_tall0: "skip_shape sl ps \<Longrightarrow> p \<in> set ps \<Longrightarrow> tall sl 0 p"
  unfolding skip_shape_def by (metis Suc_le_eq One_nat_def)

lemma shape_height: "skip_shape sl ps \<Longrightarrow> p \<in> set ps \<Longrightarrow> height sl p \<le> Suc (level sl)"
  by (simp add: skip_shape_def)

lemma shape_length:
  assumes "skip_shape sl ps"
  shows "length ps < length (nodes sl)"
proof -
  have "distinct ps" "set ps \<subseteq> {1..<length (nodes sl)}"
    using assms by (auto simp: skip_shape_def Suc_le_eq intro: gr0I)
  then have "length ps \<le> card {1..<length (nodes sl)}"
    by (metis card_mono distinct_card finite_atLeastLessThan)
  moreover have "0 < length (nodes sl)" using assms by (simp add: skip_shape_def)
  ultimately show ?thesis by (cases "nodes sl") simp_all
qed

section \<open>Walking\<close>

text \<open>
  \<open>walks_to sl go as bs\<close>: the loop condition \<open>go\<close> advances to the nodes of \<open>as\<close> and stops at those of
  \<open>bs\<close>, when it is asked at a node whose rank is its position.
\<close>

definition walks_to ::
  "skip_list \<Rightarrow> (nat \<Rightarrow> nat \<Rightarrow> nat \<Rightarrow> nat \<Rightarrow> bool option) \<Rightarrow> nat list \<Rightarrow> nat list \<Rightarrow> bool" where
  "walks_to sl go as bs \<longleftrightarrow>
     (\<forall>i x rank nxt s. get_span sl x i = Some s \<longrightarrow> nxt \<in> set as \<union> set bs \<longrightarrow>
        (rank + s \<le> length as \<longleftrightarrow> nxt \<in> set as) \<longrightarrow> go i x rank nxt = Some (nxt \<in> set as))"

lemma walks_toD:
  "walks_to sl go as bs \<Longrightarrow> get_span sl x i = Some s \<Longrightarrow> nxt \<in> set as \<union> set bs \<Longrightarrow>
     (rank + s \<le> length as \<longleftrightarrow> nxt \<in> set as) \<Longrightarrow> go i x rank nxt = Some (nxt \<in> set as)"
  unfolding walks_to_def by blast

lemma level_walk_chain:
  assumes shape: "skip_shape sl (as @ bs)" and go: "walks_to sl go as bs"
  shows "chain (tall sl i) (fwd sl i) (spn sl i) x d (as' @ bs) \<Longrightarrow> x = 0 \<or> x \<in> set as \<Longrightarrow>
    i < height sl x \<Longrightarrow> set as' \<subseteq> set as \<Longrightarrow> rank + d + length as' = length as \<Longrightarrow> length as' < fuel \<Longrightarrow>
    level_walk sl go i fuel x rank =
      Some (fst (last_tall (tall sl i) x d as'), length as - snd (last_tall (tall sl i) x d as'))"
proof (induction as' arbitrary: x d rank fuel)
  case Nil
  have x: "x = 0 \<or> x \<in> set (as @ bs)" using Nil.prems(2) by auto
  note acc = shape_access [OF shape x Nil.prems(3)]
  obtain f where f: "fuel = Suc f" using Nil.prems(6) by (cases fuel) auto
  have disj: "set as \<inter> set bs = {}" using shape by (auto simp: skip_shape_def)
  consider "fwd sl i x = None" | y where "fwd sl i x = Some y" "y \<in> set bs" "d < spn sl i x"
    using chain_next [OF Nil.prems(1)] by auto
  then show ?case
  proof cases
    case 1
    then show ?thesis using acc Nil.prems(5) by (simp add: f)
  next
    case 2
    then have "go i x rank y = Some (y \<in> set as)"
      using acc(2) disj Nil.prems(5) by (intro walks_toD [OF go acc(2)]) auto
    then show ?thesis using 2 acc disj Nil.prems(5) by (auto simp: f)
  qed
next
  case (Cons y as')
  have x: "x = 0 \<or> x \<in> set (as @ bs)" using Cons.prems(2) by auto
  note acc = shape_access [OF shape x Cons.prems(3)]
  obtain f where f: "fuel = Suc f" using Cons.prems(6) by (cases fuel) auto
  show ?case
  proof (cases "tall sl i y")
    case True
    then have y: "fwd sl i x = Some y" "spn sl i x = Suc d"
      "chain (tall sl i) (fwd sl i) (spn sl i) y 0 (as' @ bs)" using Cons.prems(1) by simp_all
    have "go i x rank y = Some (y \<in> set as)"
      using y(2) Cons.prems(4,5) by (intro walks_toD [OF go acc(2)]) auto
    moreover have "level_walk sl go i f y (rank + Suc d) =
        Some (fst (last_tall (tall sl i) y 0 as'), length as - snd (last_tall (tall sl i) y 0 as'))"
      using Cons.prems True y(3) f by (intro Cons.IH) auto
    ultimately show ?thesis using True acc y Cons.prems(4) by (simp add: f)
  next
    case False
    then show ?thesis using Cons.prems by (subst Cons.IH [of x "Suc d" rank fuel]) simp_all
  qed
qed

text \<open>
  What the walk leaves in the arrays: at each level the last node of \<open>as\<close> tall enough (or the head)
  and its position.
\<close>

abbreviation tail_at :: "skip_list \<Rightarrow> nat list \<Rightarrow> nat \<Rightarrow> nat \<times> nat" where
  "tail_at sl as i \<equiv> last_tall (tall sl i) 0 0 as"

definition arrays_ok :: "skip_list \<Rightarrow> nat list \<Rightarrow> nat set \<Rightarrow> nat list \<Rightarrow> nat list \<Rightarrow> bool" where
  "arrays_ok sl as I update rank \<longleftrightarrow>
     length update = SKIPLIST_MAXLEVEL \<and> length rank = SKIPLIST_MAXLEVEL \<and>
     (\<forall>i \<in> I. update ! i = fst (tail_at sl as i) \<and> rank ! i = length as - snd (tail_at sl as i))"

lemma search_down_chain:
  assumes shape: "skip_shape sl (as @ bs)" and go: "walks_to sl go as bs"
    and ch: "\<And>i. i < tp \<Longrightarrow> chain_at sl i (as @ bs)" and tp: "tp \<le> SKIPLIST_MAXLEVEL"
  shows "k \<le> tp \<Longrightarrow> as = as1 @ as2 \<Longrightarrow> x = last (0 # as1) \<Longrightarrow> k \<le> height sl x \<Longrightarrow>
    arrays_ok sl as {k..<tp} update rank \<Longrightarrow>
    \<exists>update' rank'. search_down sl go k x (length as1) update rank =
      Some (if k = 0 then x else fst (tail_at sl as 0),
            if k = 0 then length as1 else length as - snd (tail_at sl as 0), update', rank') \<and>
      arrays_ok sl as {..<tp} update' rank'"
proof (induction k arbitrary: as1 as2 x update rank)
  case 0
  then show ?case by (simp add: lessThan_atLeast0)
next
  case (Suc i)
  let ?T = "tall sl i"
  have tailx: "last_tall ?T 0 0 as1 = (x, 0)"
  proof (cases as1 rule: rev_cases)
    case (snoc ys y)
    then show ?thesis using Suc.prems(3,4) by (simp add: last_tall_append)
  qed (use Suc.prems(3) in simp)
  have "chain ?T (fwd sl i) (spn sl i) x 0 (as2 @ bs)"
    using ch [of i] Suc.prems(1,2) by (simp add: chain_append tailx)
  moreover have "x = 0 \<or> x \<in> set as" using Suc.prems(2,3) by (auto split: if_splits)
  moreover have "length as2 < length (nodes sl)"
    using shape_length [OF shape] Suc.prems(2) by simp
  ultimately have walk: "level_walk sl go i (length (nodes sl)) x (length as1) =
      Some (fst (last_tall ?T x 0 as2), length as - snd (last_tall ?T x 0 as2))"
    using Suc.prems by (intro level_walk_chain [OF shape go]) auto
  have tail: "last_tall ?T x 0 as2 = tail_at sl as i"
    using tailx Suc.prems(2) by (simp add: last_tall_append)
  obtain u e where ue: "tail_at sl as i = (u, e)" by (cases "tail_at sl as i")
  obtain a1 a2 where u: "as = a1 @ a2" "u = last (0 # a1)" "length a1 = length as - e" "i \<le> height sl u"
  proof (cases rule: last_tall_cases [OF ue])
    case 1
    then have "i \<le> height sl u" using shape tp Suc.prems(1) by (simp add: skip_shape_def)
    then show thesis using that [of "[]" as] 1 by simp
  next
    case (2 b1 b2)
    then show thesis using that [of "b1 @ [u]" b2] by simp
  qed
  have "i < SKIPLIST_MAXLEVEL" using Suc.prems(1) tp by simp
  then have arr: "vec_set update i u = Some (update[i := u])"
    "vec_set rank i (length as - e) = Some (rank[i := length as - e])"
    "arrays_ok sl as {i..<tp} (update[i := u]) (rank[i := length as - e])"
    using Suc.prems(5) ue by (auto simp: arrays_ok_def vec_set_def nth_list_update)
  have "i \<le> tp" using Suc.prems(1) by simp
  from Suc.IH [OF this u(1,2,4) arr(3)] obtain update' rank' where
    "search_down sl go i u (length a1) (update[i := u]) (rank[i := length as - e]) =
       Some (if i = 0 then u else fst (tail_at sl as 0),
         if i = 0 then length a1 else length as - snd (tail_at sl as 0), update', rank')"
    "arrays_ok sl as {..<tp} update' rank'" by blast
  then show ?case using walk arr(1,2) u(3) ue by (auto simp: tail)
qed

lemma search_chain:
  assumes "skip_shape sl (as @ bs)" "walks_to sl go as bs"
    "\<And>i. i \<le> level sl \<Longrightarrow> chain_at sl i (as @ bs)"
  obtains update rank where "search sl go = Some (last (0 # as), length as, update, rank)"
    "arrays_ok sl as {..level sl} update rank"
proof -
  have lv: "level sl + 1 \<le> SKIPLIST_MAXLEVEL" using assms(1) by (auto simp: skip_shape_def)
  have tall0: "tail_at sl as 0 = (last (0 # as), 0)"
    using shape_tall0 [OF assms(1)] by (intro last_tall_all) simp
  have "\<exists>update rank. search_down sl go (level sl + 1) 0 (length ([] :: nat list))
      (replicate SKIPLIST_MAXLEVEL 0) (replicate SKIPLIST_MAXLEVEL 0) =
      Some (if level sl + 1 = 0 then 0 else fst (tail_at sl as 0),
        if level sl + 1 = 0 then length ([] :: nat list) else length as - snd (tail_at sl as 0), update, rank) \<and>
      arrays_ok sl as {..<level sl + 1} update rank"
    using assms lv
    by (intro search_down_chain [OF assms(1,2), where tp = "level sl + 1" and ?as2.0 = as])
      (auto simp: arrays_ok_def skip_shape_def)
  then show thesis using that by (auto simp: search_def tall0 lessThan_Suc_atMost)
qed

section \<open>The specification: sorted lists of keys\<close>

abbreviation skip_keys :: "skip_list \<Rightarrow> nat list \<Rightarrow> score_key list" where
  "skip_keys sl ps \<equiv> map (key_at sl) ps"

definition keys_below :: "score_key \<Rightarrow> score_key list \<Rightarrow> score_key list" where
  "keys_below key ks = takeWhile (\<lambda>k. score_key_lt k key) ks"

definition keys_from :: "score_key \<Rightarrow> score_key list \<Rightarrow> score_key list" where
  "keys_from key ks = dropWhile (\<lambda>k. score_key_lt k key) ks"

definition spec_insert :: "score_key \<Rightarrow> score_key list \<Rightarrow> score_key list" where
  "spec_insert key ks = keys_below key ks @ key # keys_from key ks"

definition spec_remove :: "score_key \<Rightarrow> score_key list \<Rightarrow> score_key list" where
  "spec_remove key ks = filter (\<lambda>k. \<not> score_key_eq k key) ks"

definition spec_member :: "score_key \<Rightarrow> score_key list \<Rightarrow> bool" where
  "spec_member key ks \<longleftrightarrow> list_ex (\<lambda>k. score_key_eq k key) ks"

definition spec_rank :: "score_key \<Rightarrow> score_key list \<Rightarrow> nat option" where
  "spec_rank key ks = (if spec_member key ks then Some (length (keys_below key ks)) else None)"

definition spec_nth :: "nat \<Rightarrow> score_key list \<Rightarrow> score_key option" where
  "spec_nth r ks = (if r < length ks then Some (ks ! r) else None)"

abbreviation sorted_keys :: "score_key list \<Rightarrow> bool" where
  "sorted_keys ks \<equiv> sorted_wrt score_key_lt ks"

lemma keys_split: "keys_below key ks @ keys_from key ks = ks"
  by (simp add: keys_below_def keys_from_def)

lemma keys_below_less: "k \<in> set (keys_below key ks) \<Longrightarrow> score_key_lt k key"
  unfolding keys_below_def by (rule set_takeWhileD [THEN conjunct2])

lemma keys_from_not_less:
  assumes "sorted_keys ks" "k \<in> set (keys_from key ks)"
  shows "\<not> score_key_lt k key"
proof (cases "keys_from key ks")
  case (Cons h t)
  have "\<not> score_key_lt h key" using Cons hd_dropWhile [of "\<lambda>k. score_key_lt k key" ks]
    by (simp add: keys_from_def)
  moreover have "sorted_keys (h # t)"
    using assms(1) keys_split [of key ks] Cons by (metis sorted_wrt_append)
  ultimately show ?thesis using assms(2) Cons by (auto simp: score_key_lt_rank)
qed (use assms(2) in simp)

lemma keys_from_member:
  assumes "sorted_keys ks"
  shows "spec_member key ks \<longleftrightarrow> (\<exists>h t. keys_from key ks = h # t \<and> score_key_eq h key)"
proof -
  have "spec_member key ks \<longleftrightarrow> (\<exists>k \<in> set (keys_from key ks). key_rank k = key_rank key)"
    using keys_split [of key ks] keys_below_less [of _ key ks]
    by (auto simp: spec_member_def list_ex_iff score_key_eq_rank score_key_lt_rank)
      (metis Un_iff order_less_irrefl set_append)+
  also have "\<dots> \<longleftrightarrow> (\<exists>h t. keys_from key ks = h # t \<and> key_rank h = key_rank key)"
  proof (cases "keys_from key ks")
    case (Cons h t)
    have "sorted_keys (h # t)" using assms keys_split [of key ks] Cons by (metis sorted_wrt_append)
    moreover have "\<not> key_rank h < key_rank key"
      using keys_from_not_less [OF assms, of h key] Cons by (simp add: score_key_lt_rank)
    ultimately show ?thesis using Cons by (auto simp: score_key_lt_rank)
  qed simp
  finally show ?thesis by (simp add: score_key_eq_rank)
qed

section \<open>Reading operations\<close>

definition nodes_below :: "skip_list \<Rightarrow> score_key \<Rightarrow> nat list \<Rightarrow> nat list" where
  "nodes_below sl key ps = takeWhile (\<lambda>p. score_key_lt (key_at sl p) key) ps"

definition nodes_from :: "skip_list \<Rightarrow> score_key \<Rightarrow> nat list \<Rightarrow> nat list" where
  "nodes_from sl key ps = dropWhile (\<lambda>p. score_key_lt (key_at sl p) key) ps"

lemma nodes_split: "nodes_below sl key ps @ nodes_from sl key ps = ps"
  by (simp add: nodes_below_def nodes_from_def)

lemma nodes_keys:
  "skip_keys sl (nodes_below sl key ps) = keys_below key (skip_keys sl ps)"
  "skip_keys sl (nodes_from sl key ps) = keys_from key (skip_keys sl ps)"
  by (simp_all add: nodes_below_def nodes_from_def keys_below_def keys_from_def takeWhile_map
      dropWhile_map o_def)

lemma node_less_key:
  "skip_shape sl ps \<Longrightarrow> p \<in> set ps \<Longrightarrow> node_less sl p key = Some (score_key_lt (key_at sl p) key)"
  by (auto simp: skip_shape_def node_less_def vec_get_def key_at_def)

lemma walks_to_key:
  assumes "skip_inv sl ps"
  shows "walks_to sl (go_key sl key) (nodes_below sl key ps) (nodes_from sl key ps)"
proof -
  have shape: "skip_shape sl ps" and sorted: "sorted_keys (skip_keys sl ps)"
    using assms by (simp_all add: skip_inv_def)
  have below: "score_key_lt (key_at sl p) key" if "p \<in> set (nodes_below sl key ps)" for p
    using that unfolding nodes_below_def by (rule set_takeWhileD [THEN conjunct2])
  have from': "\<not> score_key_lt (key_at sl p) key" if "p \<in> set (nodes_from sl key ps)" for p
    using that keys_from_not_less [OF sorted, of _ key] by (auto simp flip: nodes_keys)
  have "score_key_lt (key_at sl p) key \<longleftrightarrow> p \<in> set (nodes_below sl key ps)" if "p \<in> set ps" for p
    using that below from' nodes_split [of sl key ps] by (metis Un_iff set_append)
  then show ?thesis
    using node_less_key [OF shape] nodes_split [of sl key ps]
    by (auto simp: walks_to_def go_key_def) (metis Un_iff set_append)+
qed

lemma search_key:
  assumes "skip_inv sl ps"
  obtains update rank where
    "search sl (go_key sl key) =
       Some (last (0 # nodes_below sl key ps), length (nodes_below sl key ps), update, rank)"
    "arrays_ok sl (nodes_below sl key ps) {..level sl} update rank"
  using search_chain [OF _ walks_to_key [OF assms], of key] assms
  by (auto simp: nodes_split skip_inv_def)

lemma next_at_0:
  assumes "skip_inv sl (as @ bs)"
  shows "get_forward sl (last (0 # as)) 0 = Some (case bs of [] \<Rightarrow> None | t # _ \<Rightarrow> Some t)"
proof -
  have shape: "skip_shape sl (as @ bs)" and ch: "chain_at sl 0 (as @ bs)"
    using assms by (simp_all add: skip_inv_def)
  have "tail_at sl as 0 = (last (0 # as), 0)"
    using shape_tall0 [OF shape] by (intro last_tall_all) simp
  then have "chain (tall sl 0) (fwd sl 0) (spn sl 0) (last (0 # as)) 0 bs"
    using ch by (simp add: chain_append)
  then have "fwd sl 0 (last (0 # as)) = (case bs of [] \<Rightarrow> None | t # _ \<Rightarrow> Some t)"
    using shape_tall0 [OF shape] by (cases bs) (auto split: if_splits)
  moreover have "last (0 # as) = 0 \<or> last (0 # as) \<in> set (as @ bs)" by auto
  moreover have "0 < height sl (last (0 # as))"
    using shape shape_tall0 [OF shape] by (auto simp: skip_shape_def SKIPLIST_MAXLEVEL_def)
  ultimately show ?thesis using shape_access(1) [OF shape] by metis
qed

lemma key_at_Some:
  "skip_shape sl ps \<Longrightarrow> p \<in> set ps \<Longrightarrow>
     vec_get (nodes sl) p = Some (nodes sl ! p) \<and> node_key (nodes sl ! p) = Some (key_at sl p)"
  by (auto simp: skip_shape_def vec_get_def key_at_def)

lemma target_key:
  assumes "skip_inv sl ps" "nodes_from sl key ps = t # ts"
  shows "vec_get (nodes sl) t = Some (nodes sl ! t)" "node_key (nodes sl ! t) = Some (key_at sl t)"
    "score_key_eq (key_at sl t) key \<longleftrightarrow> spec_member key (skip_keys sl ps)"
proof -
  have "t \<in> set ps" using assms(2) nodes_split [of sl key ps] by (metis Un_iff list.set_intros(1) set_append)
  then show "vec_get (nodes sl) t = Some (nodes sl ! t)" "node_key (nodes sl ! t) = Some (key_at sl t)"
    using assms(1) key_at_Some [of sl ps t] by (simp_all add: skip_inv_def)
  have "keys_from key (skip_keys sl ps) = key_at sl t # skip_keys sl ts"
    using assms(2) by (simp flip: nodes_keys)
  then show "score_key_eq (key_at sl t) key \<longleftrightarrow> spec_member key (skip_keys sl ps)"
    using assms(1) keys_from_member [of "skip_keys sl ps" key] by (simp add: skip_inv_def)
qed

lemma no_target:
  assumes "skip_inv sl ps" "nodes_from sl key ps = []"
  shows "\<not> spec_member key (skip_keys sl ps)"
proof -
  have "keys_from key (skip_keys sl ps) = []" using assms(2) by (simp flip: nodes_keys)
  then show ?thesis using assms(1) keys_from_member [of "skip_keys sl ps" key] by (simp add: skip_inv_def)
qed

lemma rank_of_spec:
  assumes "skip_inv sl ps"
  shows "rank_of key sl = Some (spec_rank key (skip_keys sl ps))"
proof -
  let ?as = "nodes_below sl key ps" and ?bs = "nodes_from sl key ps"
  obtain update rank where s: "search sl (go_key sl key) = Some (last (0 # ?as), length ?as, update, rank)"
    using search_key [OF assms] .
  have len: "length ?as = length (keys_below key (skip_keys sl ps))"
    by (metis nodes_keys(1) length_map)
  have nxt: "get_forward sl (last (0 # ?as)) 0 = Some (case ?bs of [] \<Rightarrow> None | t # _ \<Rightarrow> Some t)"
    using assms by (intro next_at_0) (simp add: nodes_split)
  show ?thesis
  proof (cases ?bs)
    case Nil
    then show ?thesis using s nxt no_target [OF assms Nil] by (simp add: rank_of_def spec_rank_def)
  next
    case (Cons t ts)
    then show ?thesis using s nxt target_key [OF assms Cons] len
      by (simp add: rank_of_def spec_rank_def)
  qed
qed

lemma walks_to_rank:
  "m \<le> length ps \<Longrightarrow> walks_to sl (go_rank sl m) (take m ps) (drop m ps)"
  by (simp add: walks_to_def go_rank_def)

lemma get_by_rank_spec:
  assumes "skip_inv sl ps"
  shows "get_by_rank r sl = Some (spec_nth r (skip_keys sl ps))"
proof (cases "r < length ps")
  case True
  let ?as = "take (Suc r) ps" and ?bs = "drop (Suc r) ps"
  have shape: "skip_shape sl ps" using assms by (simp add: skip_inv_def)
  have walks: "walks_to sl (go_rank sl (Suc r)) ?as ?bs"
    using True by (intro walks_to_rank) simp
  have split: "skip_shape sl (?as @ ?bs)" "\<And>i. i \<le> level sl \<Longrightarrow> chain_at sl i (?as @ ?bs)"
    using assms by (simp_all add: skip_inv_def)
  obtain update rank where "search sl (go_rank sl (Suc r)) =
      Some (last (0 # ?as), length ?as, update, rank)"
    using search_chain [OF split(1) walks split(2)] by blast
  moreover have "last (0 # ?as) = ps ! r" using True by (simp add: take_Suc_conv_app_nth)
  moreover have "ps ! r \<in> set ps" using True by simp
  ultimately show ?thesis
    using True assms key_at_Some [OF shape, of "ps ! r"]
    by (simp add: get_by_rank_def spec_nth_def skip_inv_def)
next
  case False
  then show ?thesis using assms by (simp add: get_by_rank_def spec_nth_def skip_inv_def)
qed

lemma iter_from_spec:
  "skip_inv sl (as @ bs) \<Longrightarrow> length bs \<le> fuel \<Longrightarrow>
     iter_from sl fuel (case bs of [] \<Rightarrow> None | t # _ \<Rightarrow> Some t) = Some (skip_keys sl bs)"
proof (induction bs arbitrary: as fuel)
  case (Cons t ts)
  then obtain f where f: "fuel = Suc f" by (cases fuel) auto
  have shape: "skip_shape sl (as @ t # ts)" using Cons.prems(1) by (simp add: skip_inv_def)
  have inv: "skip_inv sl ((as @ [t]) @ ts)" using Cons.prems(1) by simp
  have key: "vec_get (nodes sl) t = Some (nodes sl ! t)" "node_key (nodes sl ! t) = Some (key_at sl t)"
    using key_at_Some [OF shape, of t] by simp_all
  have "get_forward sl t 0 = Some (case ts of [] \<Rightarrow> None | u # _ \<Rightarrow> Some u)"
    using next_at_0 [OF inv] by simp
  then have "vec_get (forward (nodes sl ! t)) 0 = Some (case ts of [] \<Rightarrow> None | u # _ \<Rightarrow> Some u)"
    by (simp add: get_forward_def key)
  then show ?case using key Cons.IH [OF inv, of f] Cons.prems(2) by (simp add: f)
qed simp

lemma iter_keys_spec:
  assumes "skip_inv sl ps"
  shows "iter_keys sl = Some (skip_keys sl ps)"
proof -
  have "length ps < length (nodes sl)" using assms by (auto simp: skip_inv_def intro: shape_length)
  then show ?thesis
    using iter_from_spec [of sl "[]" ps "length (nodes sl)"] next_at_0 [of sl "[]" ps] assms
    by (simp add: iter_keys_def)
qed

lemma new_skip_list_inv: "skip_inv new_skip_list []"
  by (simp add: skip_inv_def skip_shape_def new_skip_list_def head_node_def height_def fwd_def spn_def
      SKIPLIST_MAXLEVEL_def)

section \<open>Changing one level\<close>

text \<open>Node \<open>n\<close> between \<open>as\<close> and \<open>bs\<close>: linked in and out of a level it reaches, or passed by.\<close>

lemma last_tall_not_after:
  assumes "distinct (x # as @ n # bs)" "last_tall T x d as = (u, e)"
  shows "u \<noteq> n" "u \<notin> set bs" "distinct (x # as)"
  using assms last_tall_in [of T x d as] by auto

lemma chain_link:
  assumes dist: "distinct (x # as @ n # bs)" and ch: "chain T F S x d (as @ bs)" and "T n"
    and u: "last_tall T x d as = (u, e)"
  shows "chain T (F(n := F u, u := Some n)) (S(n := S u - e, u := e + 1)) x d (as @ n # bs)"
proof -
  note un = last_tall_not_after [OF dist u]
  have seg: "seg T F S x d as" and tail: "chain T F S u e bs"
    using ch by (simp_all add: chain_append u)
  have "seg T (F(n := F u, u := Some n)) (S(n := S u - e, u := e + 1)) x d as"
    using dist u by (intro seg_cong [OF seg un(3)]) auto
  moreover have "chain T (F(n := F u, u := Some n)) (S(n := S u - e, u := e + 1)) n 0 bs"
    using tail chain_span [OF tail] un dist by (intro chain_shrink [of T F S u e 0]) auto
  ultimately show ?thesis using \<open>T n\<close> un by (simp add: chain_append u)
qed

lemma chain_bump:
  assumes dist: "distinct (x # as @ n # bs)" and ch: "chain T F S x d (as @ bs)" and "\<not> T n"
    and u: "last_tall T x d as = (u, e)"
  shows "chain T F (S(u := S u + 1)) x d (as @ n # bs)"
proof -
  note un = last_tall_not_after [OF dist u]
  have seg: "seg T F S x d as" and tail: "chain T F S u e bs"
    using ch by (simp_all add: chain_append u)
  have "seg T F (S(u := S u + 1)) x d as"
    using u by (intro seg_cong [OF seg un(3)]) auto
  moreover have "chain T F (S(u := S u + 1)) u (1 + e) bs"
    using un by (intro chain_grow [OF tail]) auto
  ultimately show ?thesis using \<open>\<not> T n\<close> by (simp add: chain_append u)
qed

lemma chain_unlink:
  assumes dist: "distinct (x # as @ n # bs)" and ch: "chain T F S x d (as @ n # bs)" and "T n"
    and u: "last_tall T x d as = (u, e)"
  shows "F u = Some n" "chain T (F(u := F n)) (S(u := S u + (S n - 1))) x d (as @ bs)"
proof -
  note un = last_tall_not_after [OF dist u]
  have seg: "seg T F S x d as" and tail: "F u = Some n" "S u = Suc e" "chain T F S n 0 bs"
    using ch \<open>T n\<close> by (simp_all add: chain_append u)
  show "F u = Some n" by (rule tail(1))
  have "seg T (F(u := F n)) (S(u := S u + (S n - 1))) x d as"
    using u by (intro seg_cong [OF seg un(3)]) auto
  moreover have "chain T (F(u := F n)) (S(u := S u + (S n - 1))) u (e + 0) bs"
    using un tail(2) by (intro chain_grow [OF tail(3)]) auto
  ultimately show "chain T (F(u := F n)) (S(u := S u + (S n - 1))) x d (as @ bs)"
    by (simp add: chain_append u)
qed

lemma chain_unbump:
  assumes dist: "distinct (x # as @ n # bs)" and ch: "chain T F S x d (as @ n # bs)" and "\<not> T n"
    and u: "last_tall T x d as = (u, e)"
  shows "F u \<noteq> Some n" "chain T F (S(u := S u - 1)) x d (as @ bs)"
proof -
  note un = last_tall_not_after [OF dist u]
  have seg: "seg T F S x d as" and tail: "chain T F S u (Suc e) bs"
    using ch \<open>\<not> T n\<close> by (simp_all add: chain_append u)
  show "F u \<noteq> Some n" using chain_next [OF tail] dist by auto
  have "seg T F (S(u := S u - 1)) x d as"
    using u by (intro seg_cong [OF seg un(3)]) auto
  moreover have "chain T F (S(u := S u - 1)) u e bs"
    using un chain_span [OF tail] tail by (intro chain_shrink [of T F S u 1 e]) auto
  ultimately show "chain T F (S(u := S u - 1)) x d (as @ bs)"
    by (simp add: chain_append u)
qed

section \<open>Changing one node\<close>

text \<open>\<open>same_frame\<close>: everything but the contents of pointers and spans is the same.\<close>

definition same_frame :: "skip_list \<Rightarrow> skip_list \<Rightarrow> bool" where
  "same_frame sl sl' \<longleftrightarrow>
     length (nodes sl') = length (nodes sl) \<and> free sl' = free sl \<and> level sl' = level sl \<and>
     sl_length sl' = sl_length sl \<and>
     (\<forall>y. node_key (nodes sl' ! y) = node_key (nodes sl ! y) \<and> height sl' y = height sl y \<and>
        length (span (nodes sl' ! y)) = length (span (nodes sl ! y)))"

lemma same_frame_refl [simp]: "same_frame sl sl"
  by (simp add: same_frame_def)

lemma same_frame_trans: "same_frame a b \<Longrightarrow> same_frame b c \<Longrightarrow> same_frame a c"
  by (simp add: same_frame_def)

lemma same_frame_shape: "same_frame sl sl' \<Longrightarrow> skip_shape sl' ps = skip_shape sl ps"
  by (simp add: same_frame_def skip_shape_def)

lemma same_frame_simps:
  assumes "same_frame sl sl'"
  shows "height sl' = height sl" "key_at sl' = key_at sl" "level sl' = level sl"
    "sl_length sl' = sl_length sl" "length (nodes sl') = length (nodes sl)" "free sl' = free sl"
    "length (span (nodes sl' ! y)) = length (span (nodes sl ! y))"
  using assms by (auto simp: same_frame_def key_at_def)

lemma set_forward_frame:
  assumes "x < length (nodes sl)" "i < height sl x"
  obtains sl' where "set_forward x i v sl = Some sl'" "same_frame sl sl'"
    "fwd sl' = (fwd sl)(i := (fwd sl i)(x := v))" "spn sl' = spn sl"
proof -
  let ?n = "nodes sl ! x"
  let ?sl = "sl\<lparr>nodes := (nodes sl)[x := ?n\<lparr>forward := (forward ?n)[i := v]\<rparr>]\<rparr>"
  have nth: "(nodes ?sl) ! y = (if y = x then ?n\<lparr>forward := (forward ?n)[i := v]\<rparr> else nodes sl ! y)" for y
    using assms(1) by (simp add: nth_list_update)
  show thesis
  proof (rule that [of ?sl])
    show "set_forward x i v sl = Some ?sl"
      using assms by (simp add: set_forward_def vec_get_def vec_set_def height_def)
    show "same_frame sl ?sl" unfolding same_frame_def height_def nth by simp
    show "fwd ?sl = (fwd sl)(i := (fwd sl i)(x := v))"
      unfolding fwd_def nth using assms(2) by (auto simp: fun_eq_iff height_def)
    show "spn ?sl = spn sl" unfolding spn_def nth by (auto simp: fun_eq_iff)
  qed
qed

lemma set_span_frame:
  assumes "x < length (nodes sl)" "i < length (span (nodes sl ! x))"
  obtains sl' where "set_span x i v sl = Some sl'" "same_frame sl sl'"
    "fwd sl' = fwd sl" "spn sl' = (spn sl)(i := (spn sl i)(x := v))"
proof -
  let ?n = "nodes sl ! x"
  let ?sl = "sl\<lparr>nodes := (nodes sl)[x := ?n\<lparr>span := (span ?n)[i := v]\<rparr>]\<rparr>"
  have nth: "(nodes ?sl) ! y = (if y = x then ?n\<lparr>span := (span ?n)[i := v]\<rparr> else nodes sl ! y)" for y
    using assms(1) by (simp add: nth_list_update)
  show thesis
  proof (rule that [of ?sl])
    show "set_span x i v sl = Some ?sl"
      using assms by (simp add: set_span_def vec_get_def vec_set_def)
    show "same_frame sl ?sl" unfolding same_frame_def height_def nth by simp
    show "fwd ?sl = fwd sl" unfolding fwd_def nth by (auto simp: fun_eq_iff)
    show "spn ?sl = (spn sl)(i := (spn sl i)(x := v))"
      unfolding spn_def nth using assms(2) by (auto simp: fun_eq_iff)
  qed
qed

section \<open>Insertion\<close>

lemma for_each_upt:
  assumes "lo \<le> hi" "I lo s"
    and step: "\<And>i s. lo \<le> i \<Longrightarrow> i < hi \<Longrightarrow> I i s \<Longrightarrow> \<exists>s'. f i s = Some s' \<and> I (Suc i) s'"
  shows "\<exists>s'. for_each [lo..<hi] f s = Some s' \<and> I hi s'"
  using assms
proof (induction "hi - lo" arbitrary: lo s)
  case (Suc n)
  have "lo < hi" using Suc.hyps(2) by simp
  then have lo: "[lo..<hi] = lo # [Suc lo..<hi]" by (simp add: upt_conv_Cons)
  obtain s' where s': "f lo s = Some s'" "I (Suc lo) s'"
    using Suc.prems(3) [OF order_refl \<open>lo < hi\<close> Suc.prems(2)] by blast
  have "\<exists>t. for_each [Suc lo..<hi] f s' = Some t \<and> I hi t"
    using Suc s'(2) by (intro Suc.hyps(1)) auto
  then show ?case using s'(1) lo by simp
qed simp

lemma tail_access:
  assumes "skip_shape sl (as @ bs)" "i < SKIPLIST_MAXLEVEL" "tail_at sl as i = (u, e)"
  shows "u = 0 \<or> u \<in> set (as @ bs)" "i < height sl u" "e \<le> length as"
proof -
  show "u = 0 \<or> u \<in> set (as @ bs)" using last_tall_in [of "tall sl i" 0 0 as] assms(3) by auto
  show "i < height sl u"
    using assms(1,2) by (cases rule: last_tall_cases [OF assms(3)]) (auto simp: skip_shape_def)
  show "e \<le> length as" using last_tall_snd [of "tall sl i" 0 0 as] assms(3) by simp
qed

lemma link_step:
  assumes shape: "skip_shape sl (as @ n # bs)" and i: "i < height sl n"
    and arr: "arrays_ok sl as I update rank" "i \<in> I" "0 \<in> I" and u: "tail_at sl as i = (u, e)"
    and ch: "chain_at sl i (as @ bs)"
  obtains sl' where "link_level n update rank i sl = Some sl'" "same_frame sl sl'"
    "chain_at sl' i (as @ n # bs)" "\<And>j. j \<noteq> i \<Longrightarrow> fwd sl' j = fwd sl j \<and> spn sl' j = spn sl j"
proof -
  have imax: "i < SKIPLIST_MAXLEVEL" using shape_access(5) [OF shape _ i] by simp
  note ua = tail_access [OF shape imax u]
  note acc_u = shape_access [OF shape ua(1,2)]
  have n: "n = 0 \<or> n \<in> set (as @ n # bs)" by simp
  note acc_n = shape_access [OF shape n i]
  have dist: "distinct (0 # as @ n # bs)" using shape by (auto simp: skip_shape_def)
  have un: "u \<noteq> n" using last_tall_not_after(1) [OF dist u] .
  have "tail_at sl as 0 = (last (0 # as), 0)"
    using shape_tall0 [OF shape] by (intro last_tall_all) simp
  then have gets: "vec_get update i = Some u" "vec_get rank 0 = Some (length as)"
    "vec_get rank i = Some (length as - e)"
    using arr imax u by (auto simp: arrays_ok_def vec_get_def SKIPLIST_MAXLEVEL_def)
  have "chain (tall sl i) (fwd sl i) (spn sl i) u e bs"
    using ch by (simp add: chain_append u)
  then have e: "e \<le> spn sl i u" by (rule chain_span)
  obtain s1 where s1: "set_forward n i (fwd sl i u) sl = Some s1" "same_frame sl s1"
    "fwd s1 = (fwd sl)(i := (fwd sl i)(n := fwd sl i u))" "spn s1 = spn sl"
    using set_forward_frame [OF acc_n(3) i] .
  obtain s2 where s2: "set_forward u i (Some n) s1 = Some s2" "same_frame s1 s2"
    "fwd s2 = (fwd s1)(i := (fwd s1 i)(u := Some n))" "spn s2 = spn s1"
    using set_forward_frame [of u s1 i "Some n"] acc_u(3) ua(2)
    unfolding same_frame_simps [OF s1(2)] by blast
  have f2: "same_frame sl s2" by (rule same_frame_trans [OF s1(2) s2(2)])
  have "get_span s2 u i = Some (spn s2 i u)"
    using shape_access(2) [of s2 "as @ n # bs" u i] f2 shape ua by (simp add: same_frame_shape same_frame_simps)
  then have g: "get_span s2 u i = Some (spn sl i u)" using s1(4) s2(4) by simp
  obtain s3 where s3: "set_span n i (spn sl i u - e) s2 = Some s3" "same_frame s2 s3"
    "fwd s3 = fwd s2" "spn s3 = (spn s2)(i := (spn s2 i)(n := spn sl i u - e))"
    using set_span_frame [of n s2 i "spn sl i u - e"] acc_n(3,4)
    unfolding same_frame_simps [OF f2] by blast
  have f3: "same_frame sl s3" by (rule same_frame_trans [OF f2 s3(2)])
  obtain s4 where s4: "set_span u i (e + 1) s3 = Some s4" "same_frame s3 s4"
    "fwd s4 = fwd s3" "spn s4 = (spn s3)(i := (spn s3 i)(u := e + 1))"
    using set_span_frame [of u s3 i "e + 1"] acc_u(3,4)
    unfolding same_frame_simps [OF f3] by blast
  show thesis
  proof (rule that [of s4])
    show "link_level n update rank i sl = Some s4"
      using gets acc_u(1) s1(1) s2(1) g s3(1) s4(1) e ua(3) by (simp add: link_level_def checked_sub_def)
    show f4: "same_frame sl s4" by (rule same_frame_trans [OF f3 s4(2)])
    have "fwd s4 i = (fwd sl i)(n := fwd sl i u, u := Some n)"
      "spn s4 i = (spn sl i)(n := spn sl i u - e, u := e + 1)"
      using s1(3,4) s2(3,4) s3(3,4) s4(3,4) by simp_all
    then show "chain_at s4 i (as @ n # bs)"
      using chain_link [OF dist ch i u] same_frame_simps(1) [OF f4] by simp
    show "\<And>j. j \<noteq> i \<Longrightarrow> fwd s4 j = fwd sl j \<and> spn s4 j = spn sl j"
      using s1(3,4) s2(3,4) s3(3,4) s4(3,4) by simp
  qed
qed

lemma bump_step:
  assumes shape: "skip_shape sl (as @ n # bs)" and i: "\<not> i < height sl n" "i < SKIPLIST_MAXLEVEL"
    and arr: "arrays_ok sl as I update rank" "i \<in> I" and u: "tail_at sl as i = (u, e)"
    and ch: "chain_at sl i (as @ bs)"
  obtains sl' where "bump_level update i sl = Some sl'" "same_frame sl sl'"
    "chain_at sl' i (as @ n # bs)" "\<And>j. j \<noteq> i \<Longrightarrow> fwd sl' j = fwd sl j \<and> spn sl' j = spn sl j"
proof -
  note ua = tail_access [OF shape i(2) u]
  note acc_u = shape_access [OF shape ua(1,2)]
  have dist: "distinct (0 # as @ n # bs)" using shape by (auto simp: skip_shape_def)
  have get: "vec_get update i = Some u" using arr i(2) u by (auto simp: arrays_ok_def vec_get_def)
  obtain s1 where s1: "set_span u i (spn sl i u + 1) sl = Some s1" "same_frame sl s1"
    "fwd s1 = fwd sl" "spn s1 = (spn sl)(i := (spn sl i)(u := spn sl i u + 1))"
    using set_span_frame [OF acc_u(3,4)] .
  show thesis
  proof (rule that [of s1])
    show "bump_level update i sl = Some s1"
      using get acc_u(2) s1(1) by (simp add: bump_level_def)
    show "chain_at s1 i (as @ n # bs)"
      using chain_bump [OF dist ch i(1) u] same_frame_simps(1) [OF s1(2)] s1(3,4) by simp
  qed (use s1 in simp_all)
qed

lemma arrays_ok_frame: "same_frame sl s \<Longrightarrow> arrays_ok s as I update rank = arrays_ok sl as I update rank"
  by (simp add: arrays_ok_def same_frame_simps)

lemma chain_at_frame:
  "same_frame sl s \<Longrightarrow> fwd s i = fwd sl i \<Longrightarrow> spn s i = spn sl i \<Longrightarrow> chain_at s i ps = chain_at sl i ps"
  by (simp add: same_frame_simps)

lemma link_loop:
  assumes shape: "skip_shape sl (as @ n # bs)" and arr: "arrays_ok sl as {..level sl} update rank"
    and ch: "\<And>i. i \<le> level sl \<Longrightarrow> chain_at sl i (as @ bs)"
  shows "\<exists>s. for_each [0..<height sl n] (link_level n update rank) sl = Some s \<and> same_frame sl s \<and>
    (\<forall>i < height sl n. chain_at s i (as @ n # bs)) \<and>
    (\<forall>i \<ge> height sl n. fwd s i = fwd sl i \<and> spn s i = spn sl i)"
proof (rule for_each_upt [where I = "\<lambda>k s. same_frame sl s \<and> (\<forall>i < k. chain_at s i (as @ n # bs)) \<and>
    (\<forall>i \<ge> k. fwd s i = fwd sl i \<and> spn s i = spn sl i)"])
  fix i s
  assume i: "i < height sl n" and I: "same_frame sl s \<and> (\<forall>j < i. chain_at s j (as @ n # bs)) \<and>
    (\<forall>j \<ge> i. fwd s j = fwd sl j \<and> spn s j = spn sl j)"
  have frame: "same_frame sl s" using I by blast
  have il: "i \<le> level sl" using i shape by (fastforce simp: skip_shape_def)
  obtain u e where u: "tail_at s as i = (u, e)" by (cases "tail_at s as i")
  have "chain_at s i (as @ bs)" using ch [OF il] I chain_at_frame [OF frame] by simp
  then obtain s' where s': "link_level n update rank i s = Some s'" "same_frame s s'"
    "chain_at s' i (as @ n # bs)" "\<And>j. j \<noteq> i \<Longrightarrow> fwd s' j = fwd s j \<and> spn s' j = spn s j"
    using link_step [of s as n bs i "{..level sl}" update rank u e] u shape arr i il
      same_frame_shape [OF frame] same_frame_simps(1) [OF frame] arrays_ok_frame [OF frame] by auto
  have "chain_at s' j (as @ n # bs)" if "j < Suc i" for j
    using that s'(3) s'(4) [of j] I chain_at_frame [OF s'(2), of j] by (cases "j = i") simp_all
  then show "\<exists>s'. link_level n update rank i s = Some s' \<and> same_frame sl s' \<and>
      (\<forall>j < Suc i. chain_at s' j (as @ n # bs)) \<and> (\<forall>j \<ge> Suc i. fwd s' j = fwd sl j \<and> spn s' j = spn sl j)"
    using s'(1,4) same_frame_trans [OF frame s'(2)] I by auto
qed simp_all

lemma bump_loop:
  assumes shape: "skip_shape sl (as @ n # bs)" and arr: "arrays_ok sl as {..level sl} update rank"
    and ch: "\<And>i. i < height sl n \<Longrightarrow> chain_at sl i (as @ n # bs)"
      "\<And>i. height sl n \<le> i \<Longrightarrow> i \<le> level sl \<Longrightarrow> chain_at sl i (as @ bs)"
  shows "\<exists>s. for_each [height sl n..<level sl + 1] (bump_level update) sl = Some s \<and> same_frame sl s \<and>
    (\<forall>i < level sl + 1. chain_at s i (as @ n # bs)) \<and>
    (\<forall>i \<ge> level sl + 1. fwd s i = fwd sl i \<and> spn s i = spn sl i)"
proof (rule for_each_upt [where I = "\<lambda>k s. same_frame sl s \<and> (\<forall>i < k. chain_at s i (as @ n # bs)) \<and>
    (\<forall>i \<ge> k. fwd s i = fwd sl i \<and> spn s i = spn sl i)"])
  show "height sl n \<le> level sl + 1" using shape by (simp add: skip_shape_def)
next
  fix i s
  assume i: "height sl n \<le> i" "i < level sl + 1"
    and I: "same_frame sl s \<and> (\<forall>j < i. chain_at s j (as @ n # bs)) \<and>
    (\<forall>j \<ge> i. fwd s j = fwd sl j \<and> spn s j = spn sl j)"
  have frame: "same_frame sl s" using I by blast
  have im: "i < SKIPLIST_MAXLEVEL" "i \<le> level sl" using i shape by (auto simp: skip_shape_def)
  obtain u e where u: "tail_at s as i = (u, e)" by (cases "tail_at s as i")
  have "chain_at s i (as @ bs)" using ch(2) [OF i(1) im(2)] I chain_at_frame [OF frame] by simp
  then obtain s' where s': "bump_level update i s = Some s'" "same_frame s s'"
    "chain_at s' i (as @ n # bs)" "\<And>j. j \<noteq> i \<Longrightarrow> fwd s' j = fwd s j \<and> spn s' j = spn s j"
    using bump_step [of s as n bs i "{..level sl}" update rank u e] u shape arr i(1) im
      same_frame_shape [OF frame] same_frame_simps(1) [OF frame] arrays_ok_frame [OF frame] by auto
  have "chain_at s' j (as @ n # bs)" if "j < Suc i" for j
    using that s'(3) s'(4) [of j] I chain_at_frame [OF s'(2), of j] by (cases "j = i") simp_all
  then show "\<exists>s'. bump_level update i s = Some s' \<and> same_frame sl s' \<and>
      (\<forall>j < Suc i. chain_at s' j (as @ n # bs)) \<and> (\<forall>j \<ge> Suc i. fwd s' j = fwd sl j \<and> spn s' j = spn sl j)"
    using s'(1,4) same_frame_trans [OF frame s'(2)] I by auto
qed (use ch(1) in simp_all)

lemma raise_loop:
  assumes shape: "skip_shape sl (as @ bs)" and arr: "arrays_ok sl as {..level sl} update rank"
    and lvl: "level sl + 1 \<le> lvl" "lvl \<le> SKIPLIST_MAXLEVEL"
  shows "\<exists>t. for_each [level sl + 1..<lvl] raise_level (sl, update, rank) = Some t \<and>
    same_frame sl (fst t) \<and> fwd (fst t) = fwd sl \<and> (\<forall>i \<le> level sl. spn (fst t) i = spn sl i) \<and>
    (\<forall>i. level sl < i \<and> i < lvl \<longrightarrow> spn (fst t) i 0 = sl_length sl) \<and>
    arrays_ok sl as {..<lvl} (fst (snd t)) (snd (snd t))"
proof (rule for_each_upt [where I = "\<lambda>k t. same_frame sl (fst t) \<and> fwd (fst t) = fwd sl \<and>
    (\<forall>i \<le> level sl. spn (fst t) i = spn sl i) \<and>
    (\<forall>i. level sl < i \<and> i < k \<longrightarrow> spn (fst t) i 0 = sl_length sl) \<and>
    arrays_ok sl as {..<k} (fst (snd t)) (snd (snd t))"])
  show "level sl + 1 \<le> lvl" by (rule lvl(1))
  fix i t
  assume i: "level sl + 1 \<le> i" "i < lvl"
    and I: "same_frame sl (fst t) \<and> fwd (fst t) = fwd sl \<and> (\<forall>i \<le> level sl. spn (fst t) i = spn sl i) \<and>
    (\<forall>j. level sl < j \<and> j < i \<longrightarrow> spn (fst t) j 0 = sl_length sl) \<and>
    arrays_ok sl as {..<i} (fst (snd t)) (snd (snd t))"
  obtain s up rk where t: "t = (s, up, rk)" by (cases t) auto
  have frame: "same_frame sl s" using I t by simp
  have im: "i < SKIPLIST_MAXLEVEL" using i lvl by simp
  have "0 < length (nodes s)" "i < length (span (nodes s ! 0))"
    using shape im same_frame_simps [OF frame] by (simp_all add: skip_shape_def)
  then obtain s' where s': "set_span 0 i (sl_length s) s = Some s'" "same_frame s s'" "fwd s' = fwd s"
    "spn s' = (spn s)(i := (spn s i)(0 := sl_length s))"
    using set_span_frame by blast
  have "\<not> tall sl i y" if "y \<in> set as" for y using shape_height [OF shape, of y] that i(1) by simp
  then have tail: "tail_at sl as i = (0, length as)" by (simp add: last_tall_none)
  have len: "i < length up" "i < length rk" using I t im by (simp_all add: arrays_ok_def)
  then have "raise_level i t = Some (s', up[i := 0], rk[i := 0])"
    using s'(1) t by (simp add: raise_level_def vec_set_def)
  moreover have "arrays_ok sl as {..<Suc i} (up[i := 0]) (rk[i := 0])"
    using I t tail len by (auto simp: arrays_ok_def nth_list_update less_Suc_eq)
  ultimately show "\<exists>t'. raise_level i t = Some t' \<and> same_frame sl (fst t') \<and> fwd (fst t') = fwd sl \<and>
      (\<forall>i \<le> level sl. spn (fst t') i = spn sl i) \<and>
      (\<forall>j. level sl < j \<and> j < Suc i \<longrightarrow> spn (fst t') j 0 = sl_length sl) \<and>
      arrays_ok sl as {..<Suc i} (fst (snd t')) (snd (snd t'))"
    using s' I t i(1) same_frame_trans [OF frame s'(2)] same_frame_simps(4) [OF frame]
    by (auto simp: less_Suc_eq)
qed (use arr in \<open>simp_all add: lessThan_Suc_atMost\<close>)

lemma alloc_spec:
  assumes shape: "skip_shape sl (as @ bs)" and lvl: "1 \<le> lvl" "lvl \<le> Suc (level sl)"
  obtains n sl' where "alloc_node key lvl sl = Some (n, sl')" "skip_shape sl' (as @ n # bs)"
    "height sl' n = lvl" "key_at sl' n = key" "level sl' = level sl" "sl_length sl' = sl_length sl"
    "\<And>y. y = 0 \<or> y \<in> set (as @ bs) \<Longrightarrow> nodes sl' ! y = nodes sl ! y"
proof (cases "free sl = []")
  case True
  let ?n = "length (nodes sl)" and ?sl = "sl\<lparr>nodes := nodes sl @ [new_node key lvl]\<rparr>"
  have keep: "nodes ?sl ! y = nodes sl ! y" if "y = 0 \<or> y \<in> set (as @ bs)" for y
    using that shape by (auto simp: skip_shape_def nth_append)
  have n: "?n \<notin> set (as @ bs)" "?n \<noteq> 0" "nodes ?sl ! ?n = new_node key lvl"
    using shape by (auto simp: skip_shape_def)
  show thesis
  proof (rule that [of ?n ?sl])
    show "alloc_node key lvl sl = Some (?n, ?sl)" using True by (simp add: alloc_node_def)
    show "skip_shape ?sl (as @ ?n # bs)"
      using shape n keep True lvl
      by (auto simp: skip_shape_def height_def new_node_def less_Suc_eq)
  qed (use n(3) keep in \<open>auto simp: height_def key_at_def new_node_def\<close>)
next
  case False
  then obtain fr n where fr: "free sl = fr @ [n]" by (cases "free sl" rule: rev_cases) auto
  let ?sl = "sl\<lparr>nodes := (nodes sl)[n := new_node key lvl], free := fr\<rparr>"
  have n: "n < length (nodes sl)" "n \<notin> set (as @ bs)" "n \<noteq> 0" "n \<notin> set fr"
    using shape by (auto simp: skip_shape_def fr)
  have keep: "nodes ?sl ! y = nodes sl ! y" if "y = 0 \<or> y \<in> set (as @ bs)" for y
  proof -
    have "n \<noteq> y" using that n by auto
    then show ?thesis by simp
  qed
  have at_n: "nodes ?sl ! n = new_node key lvl" using n(1) by simp
  show thesis
  proof (rule that [of n ?sl])
    show "alloc_node key lvl sl = Some (n, ?sl)"
      using n(1) by (simp add: alloc_node_def vec_set_def fr)
    have "distinct (0 # (as @ n # bs) @ fr)" "set (as @ n # bs) \<union> set fr \<subseteq> {..<length (nodes sl)}"
      using shape n by (auto simp: skip_shape_def fr)
    moreover have "nodes sl \<noteq> []" using n(1) by auto
    ultimately show "skip_shape ?sl (as @ n # bs)"
      using shape keep at_n lvl unfolding skip_shape_def height_def
      by (simp add: new_node_def)
  qed (use n at_n keep in \<open>auto simp: height_def key_at_def new_node_def\<close>)
qed

lemma random_level_bounds: "1 \<le> random_level coin" "random_level coin \<le> SKIPLIST_MAXLEVEL"
proof -
  have "lvl \<le> SKIPLIST_MAXLEVEL \<Longrightarrow> lvl \<le> random_level_from coin n lvl \<and>
      random_level_from coin n lvl \<le> SKIPLIST_MAXLEVEL" for n lvl
  proof (induction coin n lvl rule: random_level_from.induct)
    case (1 coin n lvl)
    then show ?case by (cases "coin n \<and> lvl < SKIPLIST_MAXLEVEL") (auto simp: random_level_from.simps [of coin n])
  qed
  from this [of 1 0] show "1 \<le> random_level coin" "random_level coin \<le> SKIPLIST_MAXLEVEL"
    by (simp_all add: random_level_def SKIPLIST_MAXLEVEL_def)
qed

lemma header_update [simp]:
  "height (sl\<lparr>level := l\<rparr>) = height sl" "fwd (sl\<lparr>level := l\<rparr>) = fwd sl"
  "spn (sl\<lparr>level := l\<rparr>) = spn sl" "key_at (sl\<lparr>level := l\<rparr>) = key_at sl"
  "height (sl\<lparr>sl_length := l\<rparr>) = height sl" "fwd (sl\<lparr>sl_length := l\<rparr>) = fwd sl"
  "spn (sl\<lparr>sl_length := l\<rparr>) = spn sl" "key_at (sl\<lparr>sl_length := l\<rparr>) = key_at sl"
  by (simp_all add: fun_eq_iff height_def fwd_def spn_def key_at_def)

lemma shape_level:
  "skip_shape sl ps \<Longrightarrow> (\<And>p. p \<in> set ps \<Longrightarrow> height sl p \<le> Suc l) \<Longrightarrow> l < SKIPLIST_MAXLEVEL \<Longrightarrow>
     skip_shape (sl\<lparr>level := l\<rparr>) ps"
  by (simp add: skip_shape_def)

text \<open>The state between the search and the allocation: the levels reach up to the new height.\<close>

definition ready :: "skip_list \<Rightarrow> nat list \<Rightarrow> nat list \<Rightarrow> nat list \<Rightarrow> nat list \<Rightarrow> bool" where
  "ready sl as bs update rank \<longleftrightarrow>
     skip_shape sl (as @ bs) \<and> arrays_ok sl as {..level sl} update rank \<and>
     (\<forall>i \<le> level sl. chain_at sl i (as @ bs)) \<and>
     (\<forall>i. level sl < i \<longrightarrow> i < SKIPLIST_MAXLEVEL \<longrightarrow> fwd sl i 0 = None)"

lemma raise_ready:
  assumes inv: "skip_inv sl (as @ bs)" and arr: "arrays_ok sl as {..level sl} update rank"
    and lvl: "level sl < lvl - 1" "lvl \<le> SKIPLIST_MAXLEVEL"
  obtains sl1 update1 rank1 where
    "for_each [level sl + 1..<lvl] raise_level (sl, update, rank) = Some (sl1, update1, rank1)"
    "ready (sl1\<lparr>level := lvl - 1\<rparr>) as bs update1 rank1" "same_frame sl sl1"
proof -
  have shape: "skip_shape sl (as @ bs)" using inv by (simp add: skip_inv_def)
  have l: "level sl + 1 \<le> lvl" using lvl(1) by simp
  obtain t where t: "for_each [level sl + 1..<lvl] raise_level (sl, update, rank) = Some t"
    "same_frame sl (fst t)" "fwd (fst t) = fwd sl" "\<And>i. i \<le> level sl \<Longrightarrow> spn (fst t) i = spn sl i"
    "\<And>i. level sl < i \<Longrightarrow> i < lvl \<Longrightarrow> spn (fst t) i 0 = sl_length sl"
    "arrays_ok sl as {..<lvl} (fst (snd t)) (snd (snd t))"
    using raise_loop [OF shape arr l lvl(2)] by blast
  obtain s up rk where [simp]: "t = (s, up, rk)" by (cases t) auto
  note frame = same_frame_simps [OF t(2), simplified]
  have "height sl p \<le> Suc (lvl - 1)" if "p \<in> set (as @ bs)" for p
    using shape_height [OF shape that] lvl(1) by simp
  then have "skip_shape (s\<lparr>level := lvl - 1\<rparr>) (as @ bs)"
    using same_frame_shape [OF t(2), of "as @ bs"] shape lvl frame(1) by (intro shape_level) auto
  moreover have "{..lvl - 1} = {..<lvl}" using lvl(1) by auto
  moreover have "chain_at (s\<lparr>level := lvl - 1\<rparr>) i (as @ bs)" if i: "i \<le> lvl - 1" for i
  proof (cases "i \<le> level sl")
    case True
    then show ?thesis using t(3) t(4) [of i] inv frame(1) by (simp add: skip_inv_def)
  next
    case False
    then have "\<forall>y \<in> set (as @ bs). \<not> i < height sl y"
      using shape_height [OF shape] by fastforce
    then show ?thesis using False t(3) t(5) [of i] inv frame(1) i lvl
      by (simp add: chain_none skip_inv_def)
  qed
  moreover have "\<forall>i. lvl - 1 < i \<longrightarrow> i < SKIPLIST_MAXLEVEL \<longrightarrow> fwd s i 0 = None"
    using inv t(3) lvl(1) by (simp add: skip_inv_def)
  ultimately have "ready (s\<lparr>level := lvl - 1\<rparr>) as bs up rk"
    using t(6) frame(1) by (simp add: ready_def arrays_ok_def)
  then show thesis using that t(1,2) by simp
qed

lemma link_all:
  assumes rdy: "ready sl as bs update rank" and lvl: "1 \<le> lvl" "lvl \<le> Suc (level sl)"
  obtains n sl2 sl3 sl4 where "alloc_node key lvl sl = Some (n, sl2)"
    "for_each [0..<lvl] (link_level n update rank) sl2 = Some sl3"
    "for_each [lvl..<level sl3 + 1] (bump_level update) sl3 = Some sl4"
    "skip_shape sl4 (as @ n # bs)" "\<And>i. i \<le> level sl4 \<Longrightarrow> chain_at sl4 i (as @ n # bs)"
    "\<And>i. level sl4 < i \<Longrightarrow> i < SKIPLIST_MAXLEVEL \<Longrightarrow> fwd sl4 i 0 = None"
    "sl_length sl4 = sl_length sl" "skip_keys sl4 (as @ n # bs) = skip_keys sl as @ key # skip_keys sl bs"
proof -
  have shape: "skip_shape sl (as @ bs)" using rdy by (simp add: ready_def)
  obtain n sl2 where a: "alloc_node key lvl sl = Some (n, sl2)" "skip_shape sl2 (as @ n # bs)"
    "height sl2 n = lvl" "key_at sl2 n = key" "level sl2 = level sl" "sl_length sl2 = sl_length sl"
    "\<And>y. y = 0 \<or> y \<in> set (as @ bs) \<Longrightarrow> nodes sl2 ! y = nodes sl ! y"
    using alloc_spec [OF shape lvl, of key] by blast
  have same: "height sl2 y = height sl y \<and> fwd sl2 i y = fwd sl i y \<and> spn sl2 i y = spn sl i y \<and>
      key_at sl2 y = key_at sl y" if "y = 0 \<or> y \<in> set (as @ bs)" for y i
    using a(7) [OF that] by (simp add: height_def fwd_def spn_def key_at_def)
  have "tail_at sl2 as i = tail_at sl as i" for i
    using same by (intro last_tall_cong) simp
  then have arr2: "arrays_ok sl2 as {..level sl2} update rank"
    using rdy a(5) by (simp add: ready_def arrays_ok_def)
  have ch2: "chain_at sl2 i (as @ bs)" if "i \<le> level sl2" for i
  proof -
    have "chain_at sl2 i (as @ bs) = chain_at sl i (as @ bs)" using same by (intro chain_cong) simp_all
    then show ?thesis using rdy that a(5) by (simp add: ready_def)
  qed
  obtain sl3 where s3: "for_each [0..<lvl] (link_level n update rank) sl2 = Some sl3" "same_frame sl2 sl3"
    "\<And>i. i < lvl \<Longrightarrow> chain_at sl3 i (as @ n # bs)"
    "\<And>i. lvl \<le> i \<Longrightarrow> fwd sl3 i = fwd sl2 i \<and> spn sl3 i = spn sl2 i"
    using link_loop [OF a(2) arr2 ch2] a(3) by auto
  note f3 = same_frame_simps [OF s3(2)]
  have "chain_at sl3 i (as @ bs)" if "lvl \<le> i" "i \<le> level sl3" for i
    using ch2 [of i] s3(4) [of i] that chain_at_frame [OF s3(2), of i] f3(3) by simp
  then obtain sl4 where s4: "for_each [lvl..<level sl3 + 1] (bump_level update) sl3 = Some sl4"
    "same_frame sl3 sl4" "\<And>i. i < level sl3 + 1 \<Longrightarrow> chain_at sl4 i (as @ n # bs)"
    "\<And>i. level sl3 + 1 \<le> i \<Longrightarrow> fwd sl4 i = fwd sl3 i \<and> spn sl4 i = spn sl3 i"
    using bump_loop [of sl3 as n bs update rank] a(2,3) arr2 s3(3) f3
      same_frame_shape [OF s3(2)] arrays_ok_frame [OF s3(2)] by auto
  note f4 = same_frame_simps [OF same_frame_trans [OF s3(2) s4(2)]]
  show thesis
  proof (rule that [OF a(1) s3(1) s4(1)])
    show "skip_shape sl4 (as @ n # bs)"
      using a(2) same_frame_shape [OF same_frame_trans [OF s3(2) s4(2)]] by simp
    show "\<And>i. i \<le> level sl4 \<Longrightarrow> chain_at sl4 i (as @ n # bs)" using s4(3) f3(3) f4(3) by simp
    show "fwd sl4 i 0 = None" if "level sl4 < i" "i < SKIPLIST_MAXLEVEL" for i
      using that rdy s3(4) [of i] s4(4) [of i] same [of 0 i] a(5) f3(3) f4(3) lvl(2)
      by (simp add: ready_def)
    show "sl_length sl4 = sl_length sl" using f4(4) a(6) by simp
    show "skip_keys sl4 (as @ n # bs) = skip_keys sl as @ key # skip_keys sl bs"
      using f4(2) a(4) same by simp
  qed
qed

lemma spec_insert_sorted:
  assumes "sorted_keys ks" "\<not> spec_member key ks"
  shows "sorted_keys (spec_insert key ks)"
proof -
  have parts: "sorted_keys (keys_below key ks @ keys_from key ks)" using assms(1) by (simp add: keys_split)
  have "score_key_lt key k" if "k \<in> set (keys_from key ks)" for k
  proof -
    have "k \<in> set ks" using that keys_split [of key ks] by (metis Un_iff set_append)
    then show ?thesis using keys_from_not_less [OF assms(1) that] assms(2)
      by (force simp: spec_member_def list_ex_iff score_key_eq_rank score_key_lt_rank)
  qed
  then show ?thesis using parts keys_below_less [of _ key ks]
    by (auto simp: spec_insert_def sorted_wrt_append)
qed

lemma skip_invI:
  assumes "skip_shape sl ps" "\<And>i. i \<le> level sl \<Longrightarrow> chain_at sl i ps"
    "\<And>i. level sl < i \<Longrightarrow> i < SKIPLIST_MAXLEVEL \<Longrightarrow> fwd sl i 0 = None"
    "sorted_keys (skip_keys sl ps)" "n = length ps"
  shows "skip_inv (sl\<lparr>sl_length := n\<rparr>) ps"
  using assms by (simp add: skip_inv_def skip_shape_def)

lemma sl_insert_spec:
  assumes inv: "skip_inv sl ps" and new: "\<not> spec_member key (skip_keys sl ps)"
  shows "\<exists>sl' ps'. sl_insert coin key sl = Some sl' \<and> skip_inv sl' ps' \<and>
    skip_keys sl' ps' = spec_insert key (skip_keys sl ps)"
proof -
  let ?as = "nodes_below sl key ps" and ?bs = "nodes_from sl key ps" and ?lvl = "random_level coin"
  have inv': "skip_inv sl (?as @ ?bs)" using inv by (simp add: nodes_split)
  obtain update rank where s: "search sl (go_key sl key) = Some (last (0 # ?as), length ?as, update, rank)"
    "arrays_ok sl ?as {..level sl} update rank"
    using search_key [OF inv] .
  let ?raise = "if ?lvl - 1 > level sl then do {
      (sl', update', rank') \<leftarrow> for_each [level sl + 1..<?lvl] raise_level (sl, update, rank);
      Some (sl'\<lparr>level := ?lvl - 1\<rparr>, update', rank') } else Some (sl, update, rank)"
  obtain sl1 update1 rank1 where r: "?raise = Some (sl1, update1, rank1)" "ready sl1 ?as ?bs update1 rank1"
    "?lvl \<le> Suc (level sl1)" "sl_length sl1 = sl_length sl" "key_at sl1 = key_at sl"
  proof (cases "?lvl - 1 > level sl")
    case True
    obtain s0 u0 r0 where "for_each [level sl + 1..<?lvl] raise_level (sl, update, rank) = Some (s0, u0, r0)"
      "ready (s0\<lparr>level := ?lvl - 1\<rparr>) ?as ?bs u0 r0" "same_frame sl s0"
      using raise_ready [OF inv' s(2) True random_level_bounds(2)] .
    then show thesis using that [of "s0\<lparr>level := ?lvl - 1\<rparr>" u0 r0] True
      by (simp add: same_frame_simps)
  next
    case False
    then show thesis using that [of sl update rank] inv' s(2) by (simp add: ready_def skip_inv_def)
  qed
  obtain n sl2 sl3 sl4 where l: "alloc_node key ?lvl sl1 = Some (n, sl2)"
    "for_each [0..<?lvl] (link_level n update1 rank1) sl2 = Some sl3"
    "for_each [?lvl..<level sl3 + 1] (bump_level update1) sl3 = Some sl4"
    "skip_shape sl4 (?as @ n # ?bs)" "\<And>i. i \<le> level sl4 \<Longrightarrow> chain_at sl4 i (?as @ n # ?bs)"
    "\<And>i. level sl4 < i \<Longrightarrow> i < SKIPLIST_MAXLEVEL \<Longrightarrow> fwd sl4 i 0 = None"
    "sl_length sl4 = sl_length sl1"
    "skip_keys sl4 (?as @ n # ?bs) = skip_keys sl1 ?as @ key # skip_keys sl1 ?bs"
    using link_all [OF r(2) random_level_bounds(1) r(3), of key] by blast
  have keys: "skip_keys sl4 (?as @ n # ?bs) = spec_insert key (skip_keys sl ps)"
    using l(8) r(5) by (simp add: spec_insert_def nodes_keys)
  have "sorted_keys (skip_keys sl4 (?as @ n # ?bs))"
    unfolding keys using inv new by (intro spec_insert_sorted) (simp_all add: skip_inv_def)
  moreover have "sl_length sl4 + 1 = length (?as @ n # ?bs)"
    using l(7) r(4) inv arg_cong [OF nodes_split [of sl key ps], of length] by (simp add: skip_inv_def)
  ultimately have "skip_inv (sl4\<lparr>sl_length := sl_length sl4 + 1\<rparr>) (?as @ n # ?bs)"
    using l(4-6) by (intro skip_invI)
  moreover have "sl_insert coin key sl = Some (sl4\<lparr>sl_length := sl_length sl4 + 1\<rparr>)"
    using s(1) r(1) l(1-3) by (simp add: sl_insert_def Let_def)
  ultimately show ?thesis using keys by auto
qed

section \<open>Removal\<close>

lemma unlink_step:
  assumes shape: "skip_shape sl (as @ n # bs)" and i: "i < SKIPLIST_MAXLEVEL"
    and arr: "arrays_ok sl as I update rank" "i \<in> I" and u: "tail_at sl as i = (u, e)"
    and ch: "chain_at sl i (as @ n # bs)"
  obtains sl' where "unlink_level update n i sl = Some sl'" "same_frame sl sl'"
    "chain_at sl' i (as @ bs)" "\<And>j. j \<noteq> i \<Longrightarrow> fwd sl' j = fwd sl j \<and> spn sl' j = spn sl j"
proof -
  note ua = tail_access [OF shape i u]
  note acc_u = shape_access [OF shape ua(1,2)]
  have dist: "distinct (0 # as @ n # bs)" using shape by (auto simp: skip_shape_def)
  have get: "vec_get update i = Some u" using arr i u by (auto simp: arrays_ok_def vec_get_def)
  show thesis
  proof (cases "tall sl i n")
    case True
    note un = chain_unlink [OF dist ch True u]
    have n: "n = 0 \<or> n \<in> set (as @ n # bs)" by simp
    note acc_n = shape_access [OF shape n True]
    obtain s1 where s1: "set_span u i (spn sl i u + (spn sl i n - 1)) sl = Some s1" "same_frame sl s1"
      "fwd s1 = fwd sl" "spn s1 = (spn sl)(i := (spn sl i)(u := spn sl i u + (spn sl i n - 1)))"
      using set_span_frame [OF acc_u(3,4)] .
    have tf: "get_forward s1 n i = Some (fwd sl i n)"
      using shape_access(1) [of s1 "as @ n # bs" n i] shape True s1(3)
        same_frame_shape [OF s1(2)] same_frame_simps(1) [OF s1(2)] by simp
    obtain s2 where s2: "set_forward u i (fwd sl i n) s1 = Some s2" "same_frame s1 s2"
      "fwd s2 = (fwd s1)(i := (fwd s1 i)(u := fwd sl i n))" "spn s2 = spn s1"
      using set_forward_frame [of u s1 i "fwd sl i n"] acc_u(3) ua(2)
      unfolding same_frame_simps [OF s1(2)] by blast
    show thesis
    proof (rule that [of s2])
      show "unlink_level update n i sl = Some s2"
        using get acc_u(1,2) acc_n(2) un(1) s1(1) tf s2(1) by (simp add: unlink_level_def)
      show f: "same_frame sl s2" by (rule same_frame_trans [OF s1(2) s2(2)])
      show "chain_at s2 i (as @ bs)"
        using un(2) same_frame_simps(1) [OF f] s1(3,4) s2(3,4) by simp
    qed (use s1 s2 in simp_all)
  next
    case False
    note un = chain_unbump [OF dist ch False u]
    obtain s1 where s1: "set_span u i (spn sl i u - 1) sl = Some s1" "same_frame sl s1"
      "fwd s1 = fwd sl" "spn s1 = (spn sl)(i := (spn sl i)(u := spn sl i u - 1))"
      using set_span_frame [OF acc_u(3,4)] .
    show thesis
    proof (rule that [of s1])
      show "unlink_level update n i sl = Some s1"
        using get acc_u(1,2) un(1) s1(1) by (simp add: unlink_level_def)
      show "chain_at s1 i (as @ bs)" using un(2) same_frame_simps(1) [OF s1(2)] s1(3,4) by simp
    qed (use s1 in simp_all)
  qed
qed

lemma unlink_loop:
  assumes shape: "skip_shape sl (as @ n # bs)" and arr: "arrays_ok sl as {..level sl} update rank"
    and ch: "\<And>i. i \<le> level sl \<Longrightarrow> chain_at sl i (as @ n # bs)"
  shows "\<exists>s. for_each [0..<level sl + 1] (unlink_level update n) sl = Some s \<and> same_frame sl s \<and>
    (\<forall>i < level sl + 1. chain_at s i (as @ bs)) \<and>
    (\<forall>i \<ge> level sl + 1. fwd s i = fwd sl i \<and> spn s i = spn sl i)"
proof (rule for_each_upt [where I = "\<lambda>k s. same_frame sl s \<and> (\<forall>i < k. chain_at s i (as @ bs)) \<and>
    (\<forall>i \<ge> k. fwd s i = fwd sl i \<and> spn s i = spn sl i)"])
  fix i s
  assume i: "i < level sl + 1" and I: "same_frame sl s \<and> (\<forall>j < i. chain_at s j (as @ bs)) \<and>
    (\<forall>j \<ge> i. fwd s j = fwd sl j \<and> spn s j = spn sl j)"
  have frame: "same_frame sl s" using I by blast
  have im: "i < SKIPLIST_MAXLEVEL" "i \<le> level sl" using i shape by (auto simp: skip_shape_def)
  obtain u e where u: "tail_at s as i = (u, e)" by (cases "tail_at s as i")
  have "chain_at s i (as @ n # bs)" using ch [OF im(2)] I chain_at_frame [OF frame] by simp
  then obtain s' where s': "unlink_level update n i s = Some s'" "same_frame s s'"
    "chain_at s' i (as @ bs)" "\<And>j. j \<noteq> i \<Longrightarrow> fwd s' j = fwd s j \<and> spn s' j = spn s j"
    using unlink_step [of s as n bs i "{..level sl}" update rank u e] u shape arr im
      same_frame_shape [OF frame] arrays_ok_frame [OF frame] by auto
  have "chain_at s' j (as @ bs)" if "j < Suc i" for j
    using that s'(3) s'(4) [of j] I chain_at_frame [OF s'(2), of j] by (cases "j = i") simp_all
  then show "\<exists>s'. unlink_level update n i s = Some s' \<and> same_frame sl s' \<and>
      (\<forall>j < Suc i. chain_at s' j (as @ bs)) \<and> (\<forall>j \<ge> Suc i. fwd s' j = fwd sl j \<and> spn s' j = spn sl j)"
    using s'(1,4) same_frame_trans [OF frame s'(2)] I by auto
qed simp_all

lemma free_node_spec:
  assumes shape: "skip_shape sl (as @ n # bs)"
  obtains sl' where "free_node n sl = Some sl'" "skip_shape sl' (as @ bs)" "level sl' = level sl"
    "sl_length sl' = sl_length sl" "\<And>y. y = 0 \<or> y \<in> set (as @ bs) \<Longrightarrow> nodes sl' ! y = nodes sl ! y"
proof -
  let ?sl = "sl\<lparr>nodes := (nodes sl)[n := head_node 1], free := free sl @ [n]\<rparr>"
  have n: "n < length (nodes sl)" using shape by (auto simp: skip_shape_def)
  have keep: "nodes ?sl ! y = nodes sl ! y" if "y = 0 \<or> y \<in> set (as @ bs)" for y
  proof -
    have "n \<noteq> y" using that shape by (auto simp: skip_shape_def)
    then show ?thesis by simp
  qed
  show thesis
  proof (rule that [of ?sl])
    show "free_node n sl = Some ?sl" using n by (simp add: free_node_def vec_set_def)
    have "distinct (0 # (as @ bs) @ free sl @ [n])"
      "set (as @ bs) \<union> set (free sl @ [n]) \<subseteq> {..<length (nodes sl)}"
      using shape by (auto simp: skip_shape_def)
    moreover have "nodes sl \<noteq> []" using n by auto
    ultimately show "skip_shape ?sl (as @ bs)"
      using shape keep unfolding skip_shape_def height_def by simp
  qed (use keep in simp_all)
qed

lemma chain_no_tall: "chain T F S x d ys \<Longrightarrow> F x = None \<Longrightarrow> y \<in> set ys \<Longrightarrow> \<not> T y"
  by (induction ys arbitrary: d) (auto split: if_splits)

lemma lower_level_spec:
  assumes "skip_shape sl ps" "L < SKIPLIST_MAXLEVEL"
  obtains l where "lower_level sl L = Some l" "l \<le> L" "\<And>i. l < i \<Longrightarrow> i \<le> L \<Longrightarrow> fwd sl i 0 = None"
proof -
  have "\<exists>l \<le> L. lower_level sl L = Some l \<and> (\<forall>i. l < i \<longrightarrow> i \<le> L \<longrightarrow> fwd sl i 0 = None)"
    using assms(2)
  proof (induction L)
    case (Suc L)
    have "get_forward sl 0 (Suc L) = Some (fwd sl (Suc L) 0)"
      using assms(1) Suc.prems by (intro shape_access(1)) (auto simp: skip_shape_def)
    then show ?case using Suc by (auto simp: le_Suc_eq)
  qed simp
  then show thesis using that by blast
qed

lemma spec_remove_absent: "\<not> spec_member key ks \<Longrightarrow> spec_remove key ks = ks"
  by (simp add: spec_remove_def spec_member_def list_ex_iff filter_id_conv)

lemma spec_remove_present:
  assumes "sorted_keys ks" "keys_from key ks = h # t" "score_key_eq h key"
  shows "spec_remove key ks = keys_below key ks @ t"
proof -
  have parts: "ks = keys_below key ks @ h # t" using assms(2) keys_split [of key ks] by simp
  have "sorted_keys (keys_below key ks @ h # t)" using assms(1) parts by simp
  then have "\<not> score_key_eq k key" if "k \<in> set (keys_below key ks) \<union> set t" for k
    using that assms(3) by (auto simp: sorted_wrt_append score_key_lt_rank score_key_eq_rank)
  then have "filter (\<lambda>k. \<not> score_key_eq k key) (keys_below key ks @ h # t) = keys_below key ks @ t"
    using assms(3) by (simp add: filter_id_conv)
  then show ?thesis using parts by (simp add: spec_remove_def)
qed

lemma spec_remove_sorted: "sorted_keys ks \<Longrightarrow> sorted_keys (spec_remove key ks)"
  by (simp add: spec_remove_def sorted_wrt_filter)

lemma unlink_all:
  assumes inv: "skip_inv sl (as @ n # bs)" and arr: "arrays_ok sl as {..level sl} update rank"
  obtains sl1 sl2 l where "for_each [0..<level sl + 1] (unlink_level update n) sl = Some sl1"
    "free_node n sl1 = Some sl2" "lower_level sl2 (level sl2) = Some l"
    "skip_inv (sl2\<lparr>level := l, sl_length := sl_length sl2 - 1\<rparr>) (as @ bs)"
    "skip_keys (sl2\<lparr>level := l, sl_length := sl_length sl2 - 1\<rparr>) (as @ bs) = skip_keys sl (as @ bs)"
proof -
  have shape: "skip_shape sl (as @ n # bs)" and ch: "\<And>i. i \<le> level sl \<Longrightarrow> chain_at sl i (as @ n # bs)"
    using inv by (simp_all add: skip_inv_def)
  obtain sl1 where s1: "for_each [0..<level sl + 1] (unlink_level update n) sl = Some sl1"
    "same_frame sl sl1" "\<And>i. i < level sl + 1 \<Longrightarrow> chain_at sl1 i (as @ bs)"
    "\<And>i. level sl + 1 \<le> i \<Longrightarrow> fwd sl1 i = fwd sl i \<and> spn sl1 i = spn sl i"
    using unlink_loop [OF shape arr ch] by blast
  note f1 = same_frame_simps [OF s1(2)]
  have "skip_shape sl1 (as @ n # bs)" using shape same_frame_shape [OF s1(2)] by simp
  then obtain sl2 where s2: "free_node n sl1 = Some sl2" "skip_shape sl2 (as @ bs)" "level sl2 = level sl1"
    "sl_length sl2 = sl_length sl1" "\<And>y. y = 0 \<or> y \<in> set (as @ bs) \<Longrightarrow> nodes sl2 ! y = nodes sl1 ! y"
    using free_node_spec by blast
  have same: "height sl2 y = height sl1 y \<and> fwd sl2 i y = fwd sl1 i y \<and> spn sl2 i y = spn sl1 i y \<and>
      key_at sl2 y = key_at sl1 y" if "y = 0 \<or> y \<in> set (as @ bs)" for y i
    using s2(5) [OF that] by (simp add: height_def fwd_def spn_def key_at_def)
  have ch2: "chain_at sl2 i (as @ bs)" if "i \<le> level sl2" for i
  proof -
    have "chain_at sl2 i (as @ bs) = chain_at sl1 i (as @ bs)" using same by (intro chain_cong) simp_all
    then show ?thesis using s1(3) that s2(3) f1(3) by simp
  qed
  have lmax: "level sl2 < SKIPLIST_MAXLEVEL" using s2(2) by (simp add: skip_shape_def)
  obtain l where l: "lower_level sl2 (level sl2) = Some l" "l \<le> level sl2"
    "\<And>i. l < i \<Longrightarrow> i \<le> level sl2 \<Longrightarrow> fwd sl2 i 0 = None"
    using lower_level_spec [OF s2(2) lmax] by blast
  have h: "height sl2 p \<le> Suc l" if "p \<in> set (as @ bs)" for p
  proof (rule ccontr)
    assume "\<not> height sl2 p \<le> Suc l"
    moreover have "height sl2 p \<le> Suc (level sl2)" by (rule shape_height [OF s2(2) that])
    ultimately show False
      using chain_no_tall [OF ch2 [of "Suc l"] _ that] l(3) [of "Suc l"] by simp
  qed
  have above: "fwd sl2 i 0 = None" if "l < i" "i < SKIPLIST_MAXLEVEL" for i
    using that l(3) [of i] inv s1(4) [of i] same [of 0 i] s2(3) f1(3)
    by (cases "i \<le> level sl2") (simp_all add: skip_inv_def)
  have keys: "skip_keys (sl2\<lparr>level := l, sl_length := k\<rparr>) (as @ bs) = skip_keys sl (as @ bs)" for k
    using same f1(2) by simp
  show thesis
  proof (rule that [OF s1(1) s2(1) l(1) _ keys])
    have "sorted_keys (skip_keys sl (as @ bs))" using inv by (auto simp: skip_inv_def sorted_wrt_append)
    then have "sorted_keys (skip_keys (sl2\<lparr>level := l\<rparr>) (as @ bs))"
      using keys [of "sl_length sl2"] by (metis header_update(4,8))
    moreover have "skip_shape (sl2\<lparr>level := l\<rparr>) (as @ bs)"
      using s2(2) h l(2) lmax by (intro shape_level) auto
    ultimately have "skip_inv ((sl2\<lparr>level := l\<rparr>)\<lparr>sl_length := sl_length sl2 - 1\<rparr>) (as @ bs)"
      using ch2 l(2) above inv s2(4) f1(4) by (intro skip_invI) (simp_all add: skip_inv_def)
    then show "skip_inv (sl2\<lparr>level := l, sl_length := sl_length sl2 - 1\<rparr>) (as @ bs)" by simp
  qed
qed

lemma sl_remove_spec:
  assumes inv: "skip_inv sl ps"
  shows "\<exists>sl' ps'. sl_remove key sl = Some (sl', spec_member key (skip_keys sl ps)) \<and> skip_inv sl' ps' \<and>
    skip_keys sl' ps' = spec_remove key (skip_keys sl ps)"
proof -
  let ?as = "nodes_below sl key ps" and ?bs = "nodes_from sl key ps"
  obtain update rank where s: "search sl (go_key sl key) = Some (last (0 # ?as), length ?as, update, rank)"
    "arrays_ok sl ?as {..level sl} update rank"
    using search_key [OF inv] .
  have inv': "skip_inv sl (?as @ ?bs)" using inv by (simp add: nodes_split)
  have nxt: "get_forward sl (last (0 # ?as)) 0 = Some (case ?bs of [] \<Rightarrow> None | t # _ \<Rightarrow> Some t)"
    using next_at_0 [OF inv'] .
  show ?thesis
  proof (cases "spec_member key (skip_keys sl ps)")
    case False
    have "sl_remove key sl = Some (sl, False)"
      using s(1) nxt False target_key [OF inv] by (cases ?bs) (simp_all add: sl_remove_def)
    then show ?thesis using False inv by (auto simp: spec_remove_absent)
  next
    case True
    then obtain n ts where n: "?bs = n # ts" using no_target [OF inv] by (cases ?bs) auto
    note t = target_key [OF inv n]
    have inv'': "skip_inv sl (?as @ n # ts)" using inv' n by simp
    obtain sl1 sl2 l where u: "for_each [0..<level sl + 1] (unlink_level update n) sl = Some sl1"
      "free_node n sl1 = Some sl2" "lower_level sl2 (level sl2) = Some l"
      "skip_inv (sl2\<lparr>level := l, sl_length := sl_length sl2 - 1\<rparr>) (?as @ ts)"
      "skip_keys (sl2\<lparr>level := l, sl_length := sl_length sl2 - 1\<rparr>) (?as @ ts) = skip_keys sl (?as @ ts)"
      using unlink_all [OF inv'' s(2)] .
    have "sl_remove key sl = Some (sl2\<lparr>level := l, sl_length := sl_length sl2 - 1\<rparr>, True)"
      using s(1) nxt n t True u(1-3) by (simp add: sl_remove_def)
    moreover have "spec_remove key (skip_keys sl ps) = skip_keys sl (?as @ ts)"
      using spec_remove_present [of "skip_keys sl ps" key "key_at sl n" "skip_keys sl ts"] inv t(3) True
      by (simp add: skip_inv_def nodes_keys [symmetric] n)
    ultimately show ?thesis using True u(4,5) by auto
  qed
qed

section \<open>The interface of an ordered index\<close>

text \<open>
  What the sorted set needs of its index: a representation of a strictly increasing list of keys
  on which every operation returns and does what the list operation does.
\<close>

locale ordered_index =
  fixes rep :: "'s \<Rightarrow> score_key list \<Rightarrow> bool"
    and emp :: 's
    and ins :: "score_key \<Rightarrow> 's \<Rightarrow> 's option"
    and del :: "score_key \<Rightarrow> 's \<Rightarrow> ('s \<times> bool) option"
    and rnk :: "score_key \<Rightarrow> 's \<Rightarrow> nat option option"
    and nth_key :: "nat \<Rightarrow> 's \<Rightarrow> score_key option option"
    and keys :: "'s \<Rightarrow> score_key list option"
  assumes rep_sorted: "rep s ks \<Longrightarrow> sorted_keys ks"
    and rep_emp: "rep emp []"
    and rep_ins: "rep s ks \<Longrightarrow> \<not> spec_member k ks \<Longrightarrow> \<exists>s'. ins k s = Some s' \<and> rep s' (spec_insert k ks)"
    and rep_del: "rep s ks \<Longrightarrow> \<exists>s'. del k s = Some (s', spec_member k ks) \<and> rep s' (spec_remove k ks)"
    and rep_rnk: "rep s ks \<Longrightarrow> rnk k s = Some (spec_rank k ks)"
    and rep_nth: "rep s ks \<Longrightarrow> nth_key r s = Some (spec_nth r ks)"
    and rep_keys: "rep s ks \<Longrightarrow> keys s = Some ks"
begin

lemma rep_functional: "rep s ks \<Longrightarrow> rep s ks' \<Longrightarrow> ks = ks'"
  using rep_keys [of s ks] rep_keys [of s ks'] by simp

text \<open>Rank and access by rank are inverse to each other.\<close>

lemma nth_of_rank:
  assumes "rep s ks" "rnk k s = Some (Some r)"
  obtains k' where "nth_key r s = Some (Some k')" "score_key_eq k' k"
proof -
  have m: "spec_member k ks" and r: "r = length (keys_below k ks)"
    using rep_rnk [OF assms(1), of k] assms(2) by (auto simp: spec_rank_def split: if_splits)
  obtain h t where h: "keys_from k ks = h # t" "score_key_eq h k"
    using keys_from_member [OF rep_sorted [OF assms(1)]] m by blast
  then have "spec_nth r ks = Some h"
    using keys_split [of k ks] r by (metis spec_nth_def length_append less_add_same_cancel1
        length_greater_0_conv list.distinct(1) nth_append_length)
  then show thesis using that rep_nth [OF assms(1)] h(2) by simp
qed

text \<open>Moving an element: the old key out, the new key in.\<close>

lemma move:
  assumes "rep s ks" "\<not> spec_member k' (spec_remove k ks)"
  obtains s1 s2 where "del k s = Some (s1, spec_member k ks)" "ins k' s1 = Some s2"
    "rep s2 (spec_insert k' (spec_remove k ks))"
  using rep_del [OF assms(1), of k] rep_ins assms(2) by blast

end

definition skip_rep :: "skip_list \<Rightarrow> score_key list \<Rightarrow> bool" where
  "skip_rep sl ks \<longleftrightarrow> (\<exists>ps. skip_inv sl ps \<and> ks = skip_keys sl ps)"

interpretation skip_index: ordered_index skip_rep new_skip_list "sl_insert coin" sl_remove rank_of
  get_by_rank iter_keys for coin
proof
  show "skip_rep new_skip_list []" using new_skip_list_inv by (auto simp: skip_rep_def)
  show "\<And>s ks. skip_rep s ks \<Longrightarrow> sorted_keys ks" by (auto simp: skip_rep_def skip_inv_def)
  show "\<And>s ks k. skip_rep s ks \<Longrightarrow> \<not> spec_member k ks \<Longrightarrow>
      \<exists>s'. sl_insert coin k s = Some s' \<and> skip_rep s' (spec_insert k ks)"
    using sl_insert_spec unfolding skip_rep_def by metis
  show "\<And>s ks k. skip_rep s ks \<Longrightarrow>
      \<exists>s'. sl_remove k s = Some (s', spec_member k ks) \<and> skip_rep s' (spec_remove k ks)"
    using sl_remove_spec unfolding skip_rep_def by metis
qed (auto simp: skip_rep_def rank_of_spec get_by_rank_spec iter_keys_spec)

section \<open>Properties of the skiplist\<close>

text \<open>
  C1. Refinement: on a skiplist that represents a strictly increasing list of keys, inserting a new
  key (whatever level the coin gives), removing a key, the rank of a key, access by rank and
  iteration all return without a panic, an underflow or an endless walk, and give what the same
  operation on the sorted list gives; insertion and removal yield a skiplist that represents the
  new list.
\<close>

theorem skip_list_refines:
  assumes "skip_rep sl ks"
  shows "sorted_keys ks \<and>
    (\<not> spec_member key ks \<longrightarrow>
       (\<exists>sl'. sl_insert coin key sl = Some sl' \<and> skip_rep sl' (spec_insert key ks))) \<and>
    (\<exists>sl'. sl_remove key sl = Some (sl', spec_member key ks) \<and> skip_rep sl' (spec_remove key ks)) \<and>
    rank_of key sl = Some (spec_rank key ks) \<and>
    get_by_rank r sl = Some (spec_nth r ks) \<and>
    iter_keys sl = Some ks"
  using skip_index.rep_sorted [OF assms] skip_index.rep_ins [OF assms] skip_index.rep_del [OF assms]
    skip_index.rep_rnk [OF assms] skip_index.rep_nth [OF assms] skip_index.rep_keys [OF assms]
  by blast

theorem skip_list_refines_witness:
  "skip_rep new_skip_list [] \<and>
   (\<exists>sl'. sl_insert (\<lambda>n. n < 2) \<lparr>key_score = 0, key_member = ''a''\<rparr> new_skip_list = Some sl' \<and>
      skip_rep sl' [\<lparr>key_score = 0, key_member = ''a''\<rparr>])"
  using skip_list_refines [OF skip_index.rep_emp, of "\<lparr>key_score = 0, key_member = ''a''\<rparr>" "\<lambda>n. n < 2"]
    skip_index.rep_emp
  by (simp add: spec_member_def spec_insert_def keys_below_def keys_from_def)

text \<open>
  Access by rank inverts rank: the element found at the rank of a key is that key.
\<close>

theorem skip_list_rank_inverse:
  assumes "skip_rep sl ks" and "rank_of key sl = Some (Some r)"
  shows "\<exists>k. get_by_rank r sl = Some (Some k) \<and> score_key_eq k key"
  using skip_index.nth_of_rank [OF assms] by blast

theorem skip_list_rank_inverse_witness:
  "\<exists>sl k. skip_rep sl [\<lparr>key_score = 0, key_member = ''a''\<rparr>] \<and> get_by_rank 0 sl = Some (Some k) \<and>
     score_key_eq k \<lparr>key_score = 0, key_member = ''a''\<rparr>"
proof -
  let ?k = "\<lparr>key_score = 0, key_member = ''a''\<rparr>"
  have "\<not> spec_member ?k []" "spec_insert ?k [] = [?k]"
    by (simp_all add: spec_member_def spec_insert_def keys_below_def keys_from_def)
  then obtain sl where sl: "skip_rep sl [?k]"
    using skip_index.rep_ins [OF skip_index.rep_emp, of ?k "\<lambda>_. False"] by auto
  have "spec_rank ?k [?k] = Some 0"
    by (simp add: spec_rank_def spec_member_def score_key_eq_rank keys_below_def score_key_lt_rank)
  then have "rank_of ?k sl = Some (Some 0)" using skip_index.rep_rnk [OF sl] by simp
  from skip_list_rank_inverse [OF sl this] show ?thesis using sl by blast
qed

end
