(* ===== verification/Sorted_Set.thy ===== *)
theory Sorted_Set
  imports Skip_List_Proofs
begin

text \<open>
  The sorted set of \<open>src/src/sorted_set.rs\<close> (\<open>SortedSet\<close>): the skiplist of \<open>Skip_List\<close> with a hash map
  from member to score. A scored member is the pair of the member and its score. As for the
  skiplist, \<open>None\<close> is a panic or an endless loop. IEEE addition (\<open>incr_by\<close>) is the parameter \<open>fadd\<close>;
  the random selections are not modelled. The additions of \<open>LIMIT\<close> offsets and counts are on \<open>nat\<close>:
  the callers take both from \<open>i64\<close> arguments, so their sum fits \<open>usize\<close>.

  \<open>zset_rep\<close> relates the two halves of the structure; every operation keeps it, and the lemmas give
  each result in terms of the increasing list of keys and of the member map.
\<close>

section \<open>Model\<close>

record sorted_set =
  zlist :: skip_list
  member_map :: "(bytes \<times> f64) list"

definition new_zset :: sorted_set where
  "new_zset = \<lparr>zlist = new_skip_list, member_map = []\<rparr>"

definition mk_key :: "f64 \<Rightarrow> bytes \<Rightarrow> score_key" where
  "mk_key score member = \<lparr>key_score = score, key_member = member\<rparr>"

definition scored :: "score_key \<Rightarrow> bytes \<times> f64" where
  "scored k = (key_member k, key_score k)"

definition zadd :: "(nat \<Rightarrow> bool) \<Rightarrow> bytes \<Rightarrow> f64 \<Rightarrow> sorted_set \<Rightarrow> (sorted_set \<times> bool) option" where
  "zadd coin m score s =
     (case map_of (member_map s) m of
        Some old_score \<Rightarrow>
          if ordered_float_eq old_score score then Some (s, False)
          else do {
            (l1, _) \<leftarrow> sl_remove (mk_key old_score m) (zlist s);
            l2 \<leftarrow> sl_insert coin (mk_key score m) l1;
            Some (\<lparr>zlist = l2, member_map = AList.update m score (member_map s)\<rparr>, False) }
      | None \<Rightarrow> do {
          l \<leftarrow> sl_insert coin (mk_key score m) (zlist s);
          Some (\<lparr>zlist = l, member_map = AList.update m score (member_map s)\<rparr>, True) })"

definition zremove :: "bytes \<Rightarrow> sorted_set \<Rightarrow> (sorted_set \<times> bool) option" where
  "zremove m s =
     (case map_of (member_map s) m of
        Some score \<Rightarrow> do {
          (l, _) \<leftarrow> sl_remove (mk_key score m) (zlist s);
          Some (\<lparr>zlist = l, member_map = AList.delete m (member_map s)\<rparr>, True) }
      | None \<Rightarrow> Some (s, False))"

definition zscore :: "bytes \<Rightarrow> sorted_set \<Rightarrow> f64 option" where
  "zscore m s = map_of (member_map s) m"

definition zlen :: "sorted_set \<Rightarrow> nat" where
  "zlen s = length (member_map s)"

text \<open>The loops of \<open>range_forward\<close> and \<open>range_reverse\<close> over the rank each index stands for.\<close>

fun gather :: "skip_list \<Rightarrow> (nat \<Rightarrow> nat option) \<Rightarrow> nat list \<Rightarrow> (bytes \<times> f64) list option" where
  "gather l f [] = Some []"
| "gather l f (r # rs) = do {
     a \<leftarrow> f r;
     k \<leftarrow> get_by_rank a l;
     out \<leftarrow> gather l f rs;
     Some (case k of Some key \<Rightarrow> scored key # out | None \<Rightarrow> out) }"

definition range_forward :: "nat \<Rightarrow> nat \<Rightarrow> sorted_set \<Rightarrow> (bytes \<times> f64) list option" where
  "range_forward start stop s = gather (zlist s) Some [start..<stop + 1]"

definition range_reverse :: "nat \<Rightarrow> nat \<Rightarrow> sorted_set \<Rightarrow> (bytes \<times> f64) list option" where
  "range_reverse start stop s =
     gather (zlist s) (\<lambda>rev_rank. do { t \<leftarrow> checked_sub (zlen s) 1; checked_sub t rev_rank })
       [start..<stop + 1]"

definition zrange :: "int \<Rightarrow> int \<Rightarrow> bool \<Rightarrow> sorted_set \<Rightarrow> (bytes \<times> f64) list option" where
  "zrange start stop reverse s =
     (let len = int (zlen s) in
      if len = 0 then Some []
      else
        let start_idx = (if start < 0 then max (len + start) 0 else start);
            stop_idx = (if stop < 0 then max (len + stop) 0 else stop)
        in if start_idx > stop_idx \<or> start_idx \<ge> len then Some []
           else
             let stop_idx = min stop_idx (len - 1)
             in if reverse then range_reverse (nat start_idx) (nat stop_idx) s
                else range_forward (nat start_idx) (nat stop_idx) s)"

fun pop_min_loop ::
  "nat \<Rightarrow> sorted_set \<Rightarrow> (bytes \<times> f64) list \<Rightarrow> (sorted_set \<times> (bytes \<times> f64) list) option" where
  "pop_min_loop 0 s out = Some (s, out)"
| "pop_min_loop (Suc n) s out = do {
     k \<leftarrow> get_by_rank 0 (zlist s);
     case k of
       None \<Rightarrow> Some (s, out)
     | Some key \<Rightarrow> do {
         (s', _) \<leftarrow> zremove (key_member key) s;
         pop_min_loop n s' (out @ [scored key]) } }"

definition pop_min :: "nat \<Rightarrow> sorted_set \<Rightarrow> (sorted_set \<times> (bytes \<times> f64) list) option" where
  "pop_min cnt s = pop_min_loop (min cnt (zlen s)) s []"

fun pop_max_loop ::
  "nat \<Rightarrow> sorted_set \<Rightarrow> (bytes \<times> f64) list \<Rightarrow> (sorted_set \<times> (bytes \<times> f64) list) option" where
  "pop_max_loop 0 s out = Some (s, out)"
| "pop_max_loop (Suc n) s out =
     (if member_map s = [] then Some (s, out)
      else do {
        k \<leftarrow> get_by_rank (zlen s - 1) (zlist s);
        case k of
          None \<Rightarrow> Some (s, out)
        | Some key \<Rightarrow> do {
            (s', _) \<leftarrow> zremove (key_member key) s;
            pop_max_loop n s' (out @ [scored key]) } })"

definition pop_max :: "nat \<Rightarrow> sorted_set \<Rightarrow> (sorted_set \<times> (bytes \<times> f64) list) option" where
  "pop_max cnt s = pop_max_loop (min cnt (zlen s)) s []"

definition zrank :: "bytes \<Rightarrow> sorted_set \<Rightarrow> nat option option" where
  "zrank m s =
     (case map_of (member_map s) m of
        None \<Rightarrow> Some None
      | Some score \<Rightarrow> rank_of (mk_key score m) (zlist s))"

definition zrev_rank :: "bytes \<Rightarrow> sorted_set \<Rightarrow> nat option option" where
  "zrev_rank m s = do {
     r \<leftarrow> zrank m s;
     case r of
       None \<Rightarrow> Some None
     | Some rank \<Rightarrow> do {
         t \<leftarrow> checked_sub (zlen s) 1;
         d \<leftarrow> checked_sub t rank;
         Some (Some d) } }"

text \<open>The removal loop shared by the \<open>remove_range_by_*\<close> operations.\<close>

fun remove_members :: "bytes list \<Rightarrow> sorted_set \<Rightarrow> (sorted_set \<times> nat) option" where
  "remove_members [] s = Some (s, 0)"
| "remove_members (m # ms) s = do {
     (s', removed) \<leftarrow> zremove m s;
     (s'', n) \<leftarrow> remove_members ms s';
     Some (s'', if removed then n + 1 else n) }"

definition remove_range_by_rank :: "int \<Rightarrow> int \<Rightarrow> sorted_set \<Rightarrow> (sorted_set \<times> nat) option" where
  "remove_range_by_rank start stop s = do {
     out \<leftarrow> zrange start stop False s;
     remove_members (map fst out) s }"

definition incr_by ::
  "(f64 \<Rightarrow> f64 \<Rightarrow> f64) \<Rightarrow> (nat \<Rightarrow> bool) \<Rightarrow> bytes \<Rightarrow> f64 \<Rightarrow> sorted_set \<Rightarrow> (sorted_set \<times> f64) option" where
  "incr_by fadd coin m incr s = do {
     let new_score = fadd (case map_of (member_map s) m of Some x \<Rightarrow> x | None \<Rightarrow> 0) incr;
     (s', _) \<leftarrow> zadd coin m new_score s;
     Some (s', new_score) }"

definition limit_slice :: "nat \<Rightarrow> nat option \<Rightarrow> 'a list \<Rightarrow> 'a list" where
  "limit_slice offset cnt matched =
     (if offset \<ge> length matched then []
      else
        let e = (case cnt of Some c \<Rightarrow> min (offset + c) (length matched) | None \<Rightarrow> length matched)
        in take (e - offset) (drop offset matched))"

definition range_by_score ::
  "score_bound \<Rightarrow> score_bound \<Rightarrow> bool \<Rightarrow> nat \<Rightarrow> nat option \<Rightarrow> sorted_set \<Rightarrow> (bytes \<times> f64) list option" where
  "range_by_score mn mx reverse offset cnt s = do {
     ks \<leftarrow> iter_keys (zlist s);
     let matched = map scored (filter (\<lambda>k. score_in_range (key_score k) mn mx) ks);
     let matched = (if reverse then rev matched else matched);
     Some (limit_slice offset cnt matched) }"

definition count_by_score :: "score_bound \<Rightarrow> score_bound \<Rightarrow> sorted_set \<Rightarrow> nat option" where
  "count_by_score mn mx s = do {
     ks \<leftarrow> iter_keys (zlist s);
     Some (length (filter (\<lambda>k. score_in_range (key_score k) mn mx) ks)) }"

definition remove_range_by_score ::
  "score_bound \<Rightarrow> score_bound \<Rightarrow> sorted_set \<Rightarrow> (sorted_set \<times> nat) option" where
  "remove_range_by_score mn mx s = do {
     ks \<leftarrow> iter_keys (zlist s);
     remove_members (map key_member (filter (\<lambda>k. score_in_range (key_score k) mn mx) ks)) s }"

definition range_by_lex ::
  "lex_bound \<Rightarrow> lex_bound \<Rightarrow> bool \<Rightarrow> nat \<Rightarrow> nat option \<Rightarrow> sorted_set \<Rightarrow> (bytes \<times> f64) list option" where
  "range_by_lex mn mx reverse offset cnt s = do {
     ks \<leftarrow> iter_keys (zlist s);
     let matched = map scored (filter (\<lambda>k. member_in_lex_range (key_member k) mn mx) ks);
     let matched = sort_key fst matched;
     let matched = (if reverse then rev matched else matched);
     Some (limit_slice offset cnt matched) }"

definition count_by_lex :: "lex_bound \<Rightarrow> lex_bound \<Rightarrow> sorted_set \<Rightarrow> nat" where
  "count_by_lex mn mx s = length (filter (\<lambda>m. member_in_lex_range m mn mx) (map fst (member_map s)))"

definition remove_range_by_lex :: "lex_bound \<Rightarrow> lex_bound \<Rightarrow> sorted_set \<Rightarrow> (sorted_set \<times> nat) option" where
  "remove_range_by_lex mn mx s =
     remove_members (filter (\<lambda>m. member_in_lex_range m mn mx) (map fst (member_map s))) s"

section \<open>The two halves agree\<close>

definition zset_rep :: "sorted_set \<Rightarrow> score_key list \<Rightarrow> bool" where
  "zset_rep s ks \<longleftrightarrow>
     skip_rep (zlist s) ks \<and> hm_wf (member_map s) \<and> scored ` set ks = set (member_map s)"

lemma mk_key_simps [simp]:
  "scored (mk_key x m) = (m, x)" "key_member (mk_key x m) = m" "key_score (mk_key x m) = x"
  "mk_key (key_score k) (key_member k) = k"
  by (simp_all add: mk_key_def scored_def)

lemma scored_inject: "scored k = scored k' \<longleftrightarrow> k = k'"
  by (cases k; cases k') (auto simp: scored_def)

lemma fst_scored [simp]: "fst (scored k) = key_member k"
  by (simp add: scored_def)

lemma scored_filter:
  "scored ` set (filter (\<lambda>k. P (key_member k)) ks) = {p \<in> scored ` set ks. P (fst p)}"
  by auto

lemma set_alist_delete: "set (AList.delete m xs) = {p \<in> set xs. fst p \<noteq> m}"
  by (auto simp: AList.delete_eq)

lemma zset_sorted: "zset_rep s ks \<Longrightarrow> sorted_keys ks"
  by (auto simp: zset_rep_def intro: skip_index.rep_sorted)

lemma sorted_keys_distinct: "sorted_keys ks \<Longrightarrow> distinct ks"
  by (induction ks) (auto simp: score_key_lt_rank)

lemma zset_member_iff:
  "zset_rep s ks \<Longrightarrow> map_of (member_map s) m = Some x \<longleftrightarrow> mk_key x m \<in> set ks"
proof -
  assume z: "zset_rep s ks"
  then have "map_of (member_map s) m = Some x \<longleftrightarrow> (m, x) \<in> scored ` set ks"
    by (simp add: zset_rep_def)
  also have "\<dots> \<longleftrightarrow> mk_key x m \<in> set ks"
    by (metis (mono_tags, lifting) image_iff mk_key_simps(1) scored_inject)
  finally show ?thesis .
qed

lemma zset_length:
  assumes "zset_rep s ks"
  shows "zlen s = length ks"
proof -
  have "distinct (member_map s)" using assms by (simp add: zset_rep_def distinct_map)
  then have "zlen s = card (scored ` set ks)"
    using assms by (simp add: zset_rep_def zlen_def distinct_card)
  also have "\<dots> = card (set ks)" by (rule card_image) (auto simp: inj_on_def scored_inject)
  also have "\<dots> = length ks" using sorted_keys_distinct [OF zset_sorted [OF assms]] by (rule distinct_card)
  finally show ?thesis .
qed

lemma sorted_keys_inj:
  "sorted_keys ks \<Longrightarrow> k \<in> set ks \<Longrightarrow> k' \<in> set ks \<Longrightarrow> key_rank k = key_rank k' \<Longrightarrow> k = k'"
  by (induction ks) (auto simp: score_key_lt_rank)

lemma set_spec_insert: "set (spec_insert k ks) = insert k (set ks)"
  using arg_cong [OF keys_split [of k ks], of set] by (auto simp: spec_insert_def)

lemma spec_member_memberD:
  "spec_member (mk_key x m) ks \<Longrightarrow> \<exists>y. mk_key y m \<in> set ks"
  by (auto simp: spec_member_def list_ex_iff score_key_eq_def) (metis mk_key_simps(4))

lemma unique_member:
  assumes "zset_rep s ks" "mk_key x m \<in> set ks" "k \<in> set ks" "key_member k = m"
  shows "k = mk_key x m"
proof -
  have "mk_key (key_score k) m \<in> set ks" using assms(3,4) by (metis mk_key_simps(4))
  then have "key_score k = x"
    using zset_member_iff [OF assms(1), of m] assms(2) by (metis option.inject)
  then show ?thesis using assms(4) by (metis mk_key_simps(4))
qed

lemma spec_remove_member:
  assumes "zset_rep s ks" "mk_key x m \<in> set ks"
  shows "spec_remove (mk_key x m) ks = filter (\<lambda>k. key_member k \<noteq> m) ks"
    "spec_member (mk_key x m) ks"
proof -
  have "score_key_eq k (mk_key x m) \<longleftrightarrow> key_member k = m" if "k \<in> set ks" for k
  proof (cases "key_member k = m")
    case True
    show ?thesis unfolding unique_member [OF assms that True]
      by (simp add: score_key_eq_def ordered_float_eq_rank)
  qed (simp add: score_key_eq_def)
  then show "spec_remove (mk_key x m) ks = filter (\<lambda>k. key_member k \<noteq> m) ks"
    "spec_member (mk_key x m) ks"
    using assms(2) by (auto simp: spec_remove_def spec_member_def list_ex_iff intro!: filter_cong bexI [OF _ assms(2)])
qed

lemma no_member_key:
  assumes "zset_rep s ks" "map_of (member_map s) m = None"
  shows "filter (\<lambda>k. key_member k \<noteq> m) ks = ks" "\<not> spec_member (mk_key x m) ks"
proof -
  have none: "key_member k \<noteq> m" if "k \<in> set ks" for k
    using zset_member_iff [OF assms(1), of m "key_score k"] assms(2) that by auto
  then show "filter (\<lambda>k. key_member k \<noteq> m) ks = ks" by (simp add: filter_id_conv)
  show "\<not> spec_member (mk_key x m) ks" using spec_member_memberD none by fastforce
qed

lemma zremove_spec:
  assumes z: "zset_rep s ks"
  obtains s' where "zremove m s = Some (s', map_of (member_map s) m \<noteq> None)"
    "zset_rep s' (filter (\<lambda>k. key_member k \<noteq> m) ks)" "member_map s' = AList.delete m (member_map s)"
proof (cases "map_of (member_map s) m")
  case None
  then have "zremove m s = Some (s, False)" by (simp add: zremove_def)
  then show thesis using that [of s] None z no_member_key(1) [OF z None] delete_absent [OF None] by simp
next
  case (Some x)
  then have k: "mk_key x m \<in> set ks" using zset_member_iff [OF z] by simp
  have "skip_rep (zlist s) ks" using z by (simp add: zset_rep_def)
  from skip_index.rep_del [OF this, of "mk_key x m"] obtain l where
    l: "sl_remove (mk_key x m) (zlist s) = Some (l, True)"
      "skip_rep l (filter (\<lambda>k. key_member k \<noteq> m) ks)"
    using spec_remove_member [OF z k] by auto
  note scored_filter [of "\<lambda>n. n \<noteq> m" ks]
  then have "zset_rep \<lparr>zlist = l, member_map = AList.delete m (member_map s)\<rparr>
      (filter (\<lambda>k. key_member k \<noteq> m) ks)"
    using z l(2) by (auto simp: zset_rep_def distinct_delete set_alist_delete)
  then show thesis using that l(1) Some by (simp add: zremove_def)
qed

definition zadd_map :: "bytes \<Rightarrow> f64 \<Rightarrow> (bytes \<rightharpoonup> f64) \<Rightarrow> (bytes \<rightharpoonup> f64)" where
  "zadd_map m x M =
     (case M m of Some y \<Rightarrow> if ordered_float_eq y x then M else M(m \<mapsto> x) | None \<Rightarrow> M(m \<mapsto> x))"

lemma zset_rep_insert:
  assumes "zset_rep s ks" "skip_rep l (spec_insert (mk_key x m) (filter (\<lambda>k. key_member k \<noteq> m) ks))"
  shows "zset_rep \<lparr>zlist = l, member_map = AList.update m x (member_map s)\<rparr>
    (spec_insert (mk_key x m) (filter (\<lambda>k. key_member k \<noteq> m) ks))"
proof -
  have wf: "hm_wf (AList.update m x (member_map s))"
    using assms(1) by (simp add: zset_rep_def distinct_update)
  have "p \<in> set (AList.update m x (member_map s)) \<longleftrightarrow> p = (m, x) \<or> p \<in> set (member_map s) \<and> fst p \<noteq> m" for p
  proof -
    have "p \<in> set (AList.update m x (member_map s)) \<longleftrightarrow>
        map_of (AList.update m x (member_map s)) (fst p) = Some (snd p)"
      using wf by (simp only: map_of_eq_Some_iff prod.collapse)
    also have "\<dots> \<longleftrightarrow> p = (m, x) \<or> map_of (member_map s) (fst p) = Some (snd p) \<and> fst p \<noteq> m"
      by (cases p) (auto simp: update_conv')
    finally show ?thesis using assms(1) by (simp add: zset_rep_def)
  qed
  moreover note scored_filter [of "\<lambda>n. n \<noteq> m" ks]
  ultimately have "scored ` set (spec_insert (mk_key x m) (filter (\<lambda>k. key_member k \<noteq> m) ks)) =
      set (AList.update m x (member_map s))"
    using assms(1) unfolding set_spec_insert image_insert by (auto simp: zset_rep_def)
  then show ?thesis using assms(2) wf by (simp add: zset_rep_def)
qed

lemma zadd_spec:
  assumes z: "zset_rep s ks"
  obtains s' ks' where "zadd coin m x s = Some (s', map_of (member_map s) m = None)" "zset_rep s' ks'"
    "map_of (member_map s') = zadd_map m x (map_of (member_map s))"
proof -
  have rep: "skip_rep (zlist s) ks" using z by (simp add: zset_rep_def)
  let ?ks = "filter (\<lambda>k. key_member k \<noteq> m) ks"
  have new: "\<not> spec_member (mk_key x m) ?ks" using spec_member_memberD [of x m ?ks] by auto
  show thesis
  proof (cases "map_of (member_map s) m")
    case None
    have eq: "?ks = ks" by (rule no_member_key(1) [OF z None])
    obtain l where l: "sl_insert coin (mk_key x m) (zlist s) = Some l" "skip_rep l (spec_insert (mk_key x m) ?ks)"
      using skip_index.rep_ins [OF rep, of "mk_key x m" coin] new eq by auto
    show thesis using that [OF _ zset_rep_insert [OF z l(2)]] l(1) None
      by (simp add: zadd_def zadd_map_def update_conv' fun_eq_iff)
  next
    case (Some y)
    show thesis
    proof (cases "ordered_float_eq y x")
      case True
      then show thesis using that [of s ks] Some z by (simp add: zadd_def zadd_map_def)
    next
      case False
      have y: "mk_key y m \<in> set ks" using Some zset_member_iff [OF z] by simp
      obtain l1 l2 where l: "sl_remove (mk_key y m) (zlist s) = Some (l1, spec_member (mk_key y m) ks)"
        "sl_insert coin (mk_key x m) l1 = Some l2" "skip_rep l2 (spec_insert (mk_key x m) ?ks)"
        using skip_index.move [OF rep, of "mk_key x m" "mk_key y m" coin] new spec_remove_member(1) [OF z y]
        by auto
      show thesis using that [OF _ zset_rep_insert [OF z l(3)]] l(1,2) Some False
        by (simp add: zadd_def zadd_map_def update_conv' fun_eq_iff)
    qed
  qed
qed

lemma zset_distinct_members:
  assumes "zset_rep s ks"
  shows "distinct (map key_member ks)"
proof -
  have "inj_on key_member (set ks)"
    by (rule inj_onI) (metis assms mk_key_simps(4) unique_member)
  then show ?thesis
    using sorted_keys_distinct [OF zset_sorted [OF assms]] by (simp add: distinct_map)
qed

lemma zset_members: "zset_rep s ks \<Longrightarrow> set (map key_member ks) = dom (map_of (member_map s))"
proof -
  assume z: "zset_rep s ks"
  have "set (map key_member ks) = fst ` scored ` set ks" by force
  then show ?thesis using z by (simp add: zset_rep_def dom_map_of_conv_image_fst)
qed

lemma remove_members_spec:
  "zset_rep s ks \<Longrightarrow> \<exists>s'. remove_members ms s = Some (s', card (set ms \<inter> set (map key_member ks))) \<and>
     zset_rep s' (filter (\<lambda>k. key_member k \<notin> set ms) ks)"
proof (induction ms arbitrary: s ks)
  case (Cons m ms)
  obtain s' where s': "zremove m s = Some (s', map_of (member_map s) m \<noteq> None)"
    "zset_rep s' (filter (\<lambda>k. key_member k \<noteq> m) ks)"
    using zremove_spec [OF Cons.prems] by metis
  let ?M = "set (map key_member ks)"
  have M: "map_of (member_map s) m \<noteq> None \<longleftrightarrow> m \<in> ?M" using zset_members [OF Cons.prems] by auto
  have M': "set (map key_member (filter (\<lambda>k. key_member k \<noteq> m) ks)) = ?M - {m}" by auto
  from Cons.IH [OF s'(2)] obtain s'' where
    s'': "remove_members ms s' = Some (s'', card (set ms \<inter> (?M - {m})))"
      "zset_rep s'' (filter (\<lambda>k. key_member k \<notin> set ms) (filter (\<lambda>k. key_member k \<noteq> m) ks))"
    unfolding M' by blast
  have "set (m # ms) \<inter> ?M = (if m \<in> ?M then insert m (set ms \<inter> (?M - {m})) else set ms \<inter> (?M - {m}))"
    by auto
  then have "card (set (m # ms) \<inter> ?M) =
      (if m \<in> ?M then card (set ms \<inter> (?M - {m})) + 1 else card (set ms \<inter> (?M - {m})))"
    by (simp del: set_map)
  moreover have "filter (\<lambda>k. key_member k \<notin> set ms) (filter (\<lambda>k. key_member k \<noteq> m) ks) =
      filter (\<lambda>k. key_member k \<notin> set (m # ms)) ks"
    by (simp add: conj_commute)
  ultimately show ?case using s'(1) s'' M by (simp del: set_map)
qed (simp add: zset_rep_def)

section \<open>Ranges, ranks and pops\<close>

lemma gather_spec:
  assumes "skip_rep l ks"
  shows "(\<And>r. r \<in> set rs \<Longrightarrow> f r = Some (g r) \<and> g r < length ks) \<Longrightarrow>
    gather l f rs = Some (map (\<lambda>r. scored (ks ! g r)) rs)"
proof (induction rs)
  case (Cons r rs)
  then have "f r = Some (g r)" "g r < length ks" "gather l f rs = Some (map (\<lambda>r. scored (ks ! g r)) rs)"
    by simp_all
  then show ?case using skip_index.rep_nth [OF assms, of "g r"] by (simp add: spec_nth_def)
qed simp

lemma zrange_spec:
  assumes z: "zset_rep s ks"
  shows "zrange start stop reverse s =
    Some (map (\<lambda>r. scored ((if reverse then rev ks else ks) ! r))
      [clamp_index (length ks) start..<min (Suc (clamp_index (length ks) stop)) (length ks)])"
proof -
  let ?s = "clamp_index (length ks) start" and ?e = "clamp_index (length ks) stop"
  have rep: "skip_rep (zlist s) ks" using z by (simp add: zset_rep_def)
  have len: "zlen s = length ks" by (rule zset_length [OF z])
  show ?thesis
  proof (cases "?s \<le> ?e \<and> ?s < length ks")
    case True
    have e: "nat (min (int ?e) (int (length ks) - 1)) + 1 = min (Suc ?e) (length ks)"
      using True by (simp add: min_def) linarith
    have fwd: "range_forward ?s (nat (min (int ?e) (int (length ks) - 1))) s =
        Some (map (\<lambda>r. scored (ks ! r)) [?s..<min (Suc ?e) (length ks)])"
      unfolding range_forward_def e by (rule gather_spec [OF rep]) auto
    have rev: "range_reverse ?s (nat (min (int ?e) (int (length ks) - 1))) s =
        Some (map (\<lambda>r. scored (ks ! (length ks - 1 - r))) [?s..<min (Suc ?e) (length ks)])"
      unfolding range_reverse_def e len
      by (rule gather_spec [OF rep]) (auto simp: checked_sub_def)
    have "map (\<lambda>r. scored (ks ! (length ks - 1 - r))) [?s..<min (Suc ?e) (length ks)] =
        map (\<lambda>r. scored (rev ks ! r)) [?s..<min (Suc ?e) (length ks)]"
      by (rule map_cong) (auto simp: rev_nth)
    then show ?thesis using True fwd rev by (simp add: zrange_def len Let_def clamp_index_int)
  next
    case False
    then have "[?s..<min (Suc ?e) (length ks)] = []" by auto
    then show ?thesis using False by (simp add: zrange_def len Let_def clamp_index_int) auto
  qed
qed

lemma filter_other:
  assumes "distinct (map f (xs @ k # ys))"
  shows "filter (\<lambda>h. f h \<noteq> f k) (xs @ k # ys) = xs @ ys"
proof -
  have k: "f k \<notin> f ` (set xs \<union> set ys)" using assms by (simp add: image_Un)
  have "f h \<noteq> f k" if "h \<in> set xs \<union> set ys" for h
    using imageI [OF that, of f] k by metis
  then have "filter (\<lambda>h. f h \<noteq> f k) xs = xs" "filter (\<lambda>h. f h \<noteq> f k) ys = ys"
    by (simp_all add: filter_id_conv)
  then show ?thesis by simp
qed

lemma pop_min_loop_spec:
  "zset_rep s ks \<Longrightarrow> n \<le> length ks \<Longrightarrow>
     \<exists>s'. pop_min_loop n s out = Some (s', out @ map scored (take n ks)) \<and> zset_rep s' (drop n ks)"
proof (induction n arbitrary: s ks out)
  case (Suc n)
  then obtain k t where ks: "ks = k # t" by (cases ks) auto
  have "get_by_rank 0 (zlist s) = Some (Some k)"
    using Suc.prems(1) skip_index.rep_nth [of "zlist s" ks 0] by (simp add: zset_rep_def spec_nth_def ks)
  moreover have "filter (\<lambda>h. key_member h \<noteq> key_member k) ks = t"
    using zset_distinct_members [OF Suc.prems(1)] filter_other [of key_member "[]" k t] by (simp add: ks)
  then obtain s' where "zremove (key_member k) s = Some (s', map_of (member_map s) (key_member k) \<noteq> None)"
    "zset_rep s' t"
    using zremove_spec [OF Suc.prems(1), of "key_member k"] by metis
  ultimately show ?case using Suc.IH [of s' t "out @ [scored k]"] Suc.prems(2) by (simp add: ks)
qed simp

lemma pop_max_loop_spec:
  "zset_rep s ks \<Longrightarrow> n \<le> length ks \<Longrightarrow>
     \<exists>s'. pop_max_loop n s out = Some (s', out @ map scored (take n (rev ks))) \<and>
       zset_rep s' (take (length ks - n) ks)"
proof (induction n arbitrary: s ks out)
  case (Suc n)
  then obtain k t where ks: "ks = t @ [k]" by (cases ks rule: rev_cases) auto
  have "zlen s = Suc (length t)" using zset_length [OF Suc.prems(1)] ks by simp
  then have ne: "member_map s \<noteq> []" "zlen s - 1 = length t" by (auto simp: zlen_def)
  have "get_by_rank (zlen s - 1) (zlist s) = Some (Some k)"
    using Suc.prems(1) skip_index.rep_nth [of "zlist s" ks "length t"] ne(2)
    by (simp add: zset_rep_def spec_nth_def ks)
  moreover have "filter (\<lambda>h. key_member h \<noteq> key_member k) ks = t"
    using zset_distinct_members [OF Suc.prems(1)] filter_other [of key_member t k "[]"] by (simp add: ks)
  then obtain s' where "zremove (key_member k) s = Some (s', map_of (member_map s) (key_member k) \<noteq> None)"
    "zset_rep s' t"
    using zremove_spec [OF Suc.prems(1), of "key_member k"] by metis
  ultimately show ?case using Suc.IH [of s' t "out @ [scored k]"] Suc.prems(2) ne(1) by (simp add: ks)
qed simp

lemma keys_below_filter:
  assumes "sorted_keys ks"
  shows "keys_below key ks = filter (\<lambda>k. score_key_lt k key) ks"
proof -
  have "filter (\<lambda>k. score_key_lt k key) (keys_below key ks @ keys_from key ks) = keys_below key ks"
    using keys_below_less [of _ key ks] keys_from_not_less [OF assms, of _ key]
    by (simp add: filter_id_conv filter_empty_conv)
  then show ?thesis by (simp add: keys_split)
qed

lemma zrank_count:
  assumes z: "zset_rep s ks" and x: "zscore m s = Some x"
  shows "zrank m s =
    Some (Some (card {n. \<exists>y. zscore n s = Some y \<and> score_key_lt (mk_key y n) (mk_key x m)}))"
proof -
  let ?k = "mk_key x m"
  let ?below = "filter (\<lambda>k. score_key_lt k ?k) ks"
  have mem: "?k \<in> set ks" using zset_member_iff [OF z] x by (simp add: zscore_def)
  have "{n. \<exists>y. zscore n s = Some y \<and> score_key_lt (mk_key y n) ?k} = key_member ` set ?below"
    unfolding zscore_def zset_member_iff [OF z]
    by (auto simp: image_iff) (metis mk_key_simps(2), metis mk_key_simps(4))
  moreover have "card (key_member ` set ?below) = length ?below"
  proof -
    have "distinct (map key_member ?below)"
      using zset_distinct_members [OF z] by (rule distinct_map_filter)
    then show ?thesis by (metis distinct_card length_map set_map)
  qed
  moreover have "zrank m s = Some (spec_rank ?k ks)"
    using z x skip_index.rep_rnk [of "zlist s" ks ?k] by (simp add: zrank_def zscore_def zset_rep_def)
  moreover have "spec_rank ?k ks = Some (length ?below)"
    using spec_remove_member(2) [OF z mem] keys_below_filter [OF zset_sorted [OF z]]
    by (simp add: spec_rank_def)
  ultimately show ?thesis by simp
qed

lemma zrank_less:
  assumes "zset_rep s ks" "zrank m s = Some (Some r)"
  shows "r < length ks"
proof -
  obtain x where x: "map_of (member_map s) m = Some x" using assms(2) by (auto simp: zrank_def split: option.splits)
  then have "spec_rank (mk_key x m) ks = Some r"
    using assms skip_index.rep_rnk [of "zlist s" ks "mk_key x m"] by (simp add: zrank_def zset_rep_def)
  then obtain h t where "keys_from (mk_key x m) ks = h # t" "r = length (keys_below (mk_key x m) ks)"
    using keys_from_member [OF zset_sorted [OF assms(1)], of "mk_key x m"]
    by (auto simp: spec_rank_def split: if_splits)
  then show ?thesis using arg_cong [OF keys_split [of "mk_key x m" ks], of length] by simp
qed

section \<open>Sequences of operations\<close>

datatype zop =
    ZAdd "nat \<Rightarrow> bool" bytes f64
  | ZRem bytes
  | ZPopMin nat
  | ZPopMax nat
  | ZRemRangeByRank int int
  | ZRemRangeByScore score_bound score_bound
  | ZRemRangeByLex lex_bound lex_bound

fun zexec :: "zop \<Rightarrow> sorted_set \<Rightarrow> sorted_set option" where
  "zexec (ZAdd coin m x) s = map_option fst (zadd coin m x s)"
| "zexec (ZRem m) s = map_option fst (zremove m s)"
| "zexec (ZPopMin n) s = map_option fst (pop_min n s)"
| "zexec (ZPopMax n) s = map_option fst (pop_max n s)"
| "zexec (ZRemRangeByRank a b) s = map_option fst (remove_range_by_rank a b s)"
| "zexec (ZRemRangeByScore a b) s = map_option fst (remove_range_by_score a b s)"
| "zexec (ZRemRangeByLex a b) s = map_option fst (remove_range_by_lex a b s)"

lemma zexec_rep:
  assumes z: "zset_rep s ks"
  shows "\<exists>s' ks'. zexec op s = Some s' \<and> zset_rep s' ks'"
proof (cases op)
  case (ZAdd coin m x)
  then show ?thesis by (metis z zadd_spec zexec.simps(1) option.simps(9) fst_conv)
next
  case (ZRem m)
  then show ?thesis by (metis z zremove_spec zexec.simps(2) option.simps(9) fst_conv)
next
  case (ZPopMin n)
  then show ?thesis using pop_min_loop_spec [OF z, of "min n (length ks)" "[]"] zset_length [OF z]
    by (auto simp: pop_min_def)
next
  case (ZPopMax n)
  then show ?thesis using pop_max_loop_spec [OF z, of "min n (length ks)" "[]"] zset_length [OF z]
    by (auto simp: pop_max_def)
next
  case (ZRemRangeByRank a b)
  show ?thesis using remove_members_spec [OF z] zrange_spec [OF z, of a b False] ZRemRangeByRank
    by (fastforce simp: remove_range_by_rank_def simp del: set_map)
next
  case (ZRemRangeByScore a b)
  moreover have "iter_keys (zlist s) = Some ks" using z by (auto simp: zset_rep_def skip_index.rep_keys)
  ultimately show ?thesis using remove_members_spec [OF z]
    by (fastforce simp: remove_range_by_score_def simp del: set_map)
next
  case (ZRemRangeByLex a b)
  then show ?thesis using remove_members_spec [OF z]
    by (fastforce simp: remove_range_by_lex_def simp del: set_map)
qed

lemma new_zset_rep: "zset_rep new_zset []"
  using skip_index.rep_emp by (simp add: zset_rep_def new_zset_def)

lemma limit_slice_all: "limit_slice 0 None xs = xs"
  by (simp add: limit_slice_def)

lemma singleton_zset: "\<exists>s. zset_rep s [mk_key 0 ''a'']"
proof -
  have "\<not> spec_member (mk_key 0 ''a'') []" "spec_insert (mk_key 0 ''a'') [] = [mk_key 0 ''a'']"
    by (simp_all add: spec_member_def spec_insert_def keys_below_def keys_from_def)
  then obtain l where "skip_rep l [mk_key 0 ''a'']"
    using skip_index.rep_ins [OF skip_index.rep_emp, of "mk_key 0 ''a''" "\<lambda>_. False"] by auto
  then have "zset_rep \<lparr>zlist = l, member_map = [(''a'', 0)]\<rparr> [mk_key 0 ''a'']"
    by (simp add: zset_rep_def)
  then show ?thesis by blast
qed

section \<open>Properties of the sorted set\<close>

text \<open>
  C4. Every sequence of updates on a fresh sorted set (adds and score changes with any random
  levels, removals, pops, and range removals by rank, score and name) runs to its end without a
  panic, an underflow or an endless walk, and leaves the skiplist and the member map in agreement:
  the skiplist holds exactly the entries of the map, strictly ordered by score and then member.
\<close>

theorem zset_updates_consistent:
  "\<exists>s ks. for_each ops zexec new_zset = Some s \<and> zset_rep s ks"
proof -
  have "\<exists>s' ks'. for_each ops zexec s = Some s' \<and> zset_rep s' ks'" if "zset_rep s ks" for s ks
    using that
  proof (induction ops arbitrary: s ks)
    case (Cons op ops)
    obtain s' ks' where "zexec op s = Some s'" "zset_rep s' ks'" using zexec_rep [OF Cons.prems] by blast
    then show ?case using Cons.IH by simp
  qed auto
  then show ?thesis using new_zset_rep by blast
qed

text \<open>
  C12. \<open>ZADD\<close> returns whether the member is new; afterwards the member has the given score (or keeps
  its old one when that is equal in the score order) and every other member keeps its score.
  \<open>ZREM\<close> returns whether the member was present, and removes it alone.
\<close>

theorem zset_add_remove:
  assumes "zset_rep s ks"
  shows "(\<exists>s' ks'. zadd coin m x s = Some (s', zscore m s = None) \<and> zset_rep s' ks' \<and>
      (\<forall>n. zscore n s' =
        (if n = m \<and> (\<forall>y. zscore m s = Some y \<longrightarrow> \<not> ordered_float_eq y x) then Some x else zscore n s))) \<and>
    (\<exists>s' ks'. zremove m s = Some (s', zscore m s \<noteq> None) \<and> zset_rep s' ks' \<and>
      (\<forall>n. zscore n s' = (if n = m then None else zscore n s)))"
proof
  obtain s' ks' where a: "zadd coin m x s = Some (s', map_of (member_map s) m = None)" "zset_rep s' ks'"
    "map_of (member_map s') = zadd_map m x (map_of (member_map s))"
    using zadd_spec [OF assms] by blast
  then show "\<exists>s' ks'. zadd coin m x s = Some (s', zscore m s = None) \<and> zset_rep s' ks' \<and>
      (\<forall>n. zscore n s' =
        (if n = m \<and> (\<forall>y. zscore m s = Some y \<longrightarrow> \<not> ordered_float_eq y x) then Some x else zscore n s))"
    by (intro exI [of _ s'] exI [of _ ks']) (auto simp: zscore_def zadd_map_def split: option.splits)
  obtain s1 where r: "zremove m s = Some (s1, map_of (member_map s) m \<noteq> None)"
    "zset_rep s1 (filter (\<lambda>k. key_member k \<noteq> m) ks)" "member_map s1 = AList.delete m (member_map s)"
    using zremove_spec [OF assms] by metis
  then show "\<exists>s' ks'. zremove m s = Some (s', zscore m s \<noteq> None) \<and> zset_rep s' ks' \<and>
      (\<forall>n. zscore n s' = (if n = m then None else zscore n s))"
    by (auto simp: zscore_def delete_conv')
qed

theorem zset_add_remove_witness:
  "\<exists>s s' ks'. zset_rep s [mk_key 0 ''a''] \<and> zadd (\<lambda>_. True) ''b'' 1 s = Some (s', zscore ''b'' s = None) \<and>
     zset_rep s' ks'"
proof -
  obtain s where s: "zset_rep s [mk_key 0 ''a'']" using singleton_zset by blast
  then show ?thesis using zset_add_remove [OF s, of "\<lambda>_. True" "''b''" 1] by blast
qed

text \<open>
  C13. \<open>ZRANK\<close> of a member is the number of members before it in the order by score and then name,
  computed from the spans of the skiplist; \<open>ZREVRANK\<close> is its mirror image; a member that is not
  in the set has neither.
\<close>

theorem zset_rank_counts:
  assumes "zset_rep s ks"
  shows "case zscore m s of
      None \<Rightarrow> zrank m s = Some None \<and> zrev_rank m s = Some None
    | Some x \<Rightarrow>
        (let r = card {n. \<exists>y. zscore n s = Some y \<and> score_key_lt (mk_key y n) (mk_key x m)}
         in r < zlen s \<and> zrank m s = Some (Some r) \<and> zrev_rank m s = Some (Some (zlen s - 1 - r)))"
proof (cases "zscore m s")
  case None
  then show ?thesis by (simp add: zscore_def zrank_def zrev_rank_def)
next
  case (Some x)
  let ?r = "card {n. \<exists>y. zscore n s = Some y \<and> score_key_lt (mk_key y n) (mk_key x m)}"
  have r: "zrank m s = Some (Some ?r)" by (rule zrank_count [OF assms Some])
  then have "?r < zlen s" using zrank_less [OF assms r] zset_length [OF assms] by simp
  then show ?thesis using Some r by (simp add: Let_def zrev_rank_def checked_sub_def)
qed

theorem zset_rank_counts_witness:
  "\<exists>s. zset_rep s [mk_key 0 ''a''] \<and> zrank ''a'' s = Some (Some 0) \<and> zrev_rank ''a'' s = Some (Some 0)"
proof -
  obtain s where s: "zset_rep s [mk_key 0 ''a'']" using singleton_zset by blast
  have "zscore ''a'' s = Some 0" "zlen s = 1"
    using zset_member_iff [OF s, of "''a''" 0] zset_length [OF s] by (simp_all add: zscore_def)
  then show ?thesis using zset_rank_counts [OF s, of "''a''"] s by (auto simp: Let_def)
qed

text \<open>
  C14. \<open>ZRANGE\<close> and \<open>ZREVRANGE\<close> return the entries at the clamped positions of the ordered list (of
  its reverse); \<open>ZPOPMIN\<close> and \<open>ZPOPMAX\<close> return the first entries in that order and remove exactly
  those.
\<close>

theorem zset_range_pop:
  assumes "zset_rep s ks"
  shows "zrange start stop reverse s =
      Some (map (\<lambda>r. scored ((if reverse then rev ks else ks) ! r))
        [clamp_index (length ks) start..<min (Suc (clamp_index (length ks) stop)) (length ks)]) \<and>
    (\<exists>s'. pop_min n s = Some (s', map scored (take n ks)) \<and> zset_rep s' (drop n ks)) \<and>
    (\<exists>s'. pop_max n s = Some (s', map scored (take n (rev ks))) \<and> zset_rep s' (take (length ks - n) ks))"
proof -
  have len: "zlen s = length ks" by (rule zset_length [OF assms])
  have t: "take (min n (length ks)) xs = take n xs" if "length xs = length ks" for xs :: "score_key list"
    using that by (simp add: min_def)
  have d: "drop (min n (length ks)) ks = drop n ks" "length ks - min n (length ks) = length ks - n"
    by (simp_all add: min_def)
  show ?thesis
    using zrange_spec [OF assms] pop_min_loop_spec [OF assms, of "min n (length ks)" "[]"]
      pop_max_loop_spec [OF assms, of "min n (length ks)" "[]"]
    by (simp only: pop_min_def pop_max_def len t d length_rev min.cobounded2 append_Nil)
qed

theorem zset_range_pop_witness:
  "\<exists>s s'. zset_rep s [mk_key 0 ''a''] \<and> pop_min 3 s = Some (s', [(''a'', 0)]) \<and> zset_rep s' []"
proof -
  obtain s where s: "zset_rep s [mk_key 0 ''a'']" using singleton_zset by blast
  then show ?thesis using zset_range_pop [OF s, of 0 0 False 3] by auto
qed

text \<open>
  C15. Score ranges: \<open>ZRANGEBYSCORE\<close> without a limit returns exactly the entries whose score lies
  between the bounds, in order; \<open>ZCOUNT\<close> is their number; \<open>ZREMRANGEBYSCORE\<close> returns the same
  number and leaves exactly the other entries.
\<close>

theorem zset_score_range:
  assumes "zset_rep s ks"
  shows "let hits = filter (\<lambda>k. score_in_range (key_score k) mn mx) ks
    in range_by_score mn mx reverse 0 None s = Some (map scored (if reverse then rev hits else hits)) \<and>
       count_by_score mn mx s = Some (length hits) \<and>
       (\<exists>s'. remove_range_by_score mn mx s = Some (s', length hits) \<and>
          zset_rep s' (filter (\<lambda>k. \<not> score_in_range (key_score k) mn mx) ks))"
proof -
  let ?P = "\<lambda>k. score_in_range (key_score k) mn mx"
  let ?hits = "filter ?P ks" and ?ms = "map key_member (filter ?P ks)"
  have it: "iter_keys (zlist s) = Some ks" using assms by (auto simp: zset_rep_def skip_index.rep_keys)
  have dist: "distinct (map key_member ks)" by (rule zset_distinct_members [OF assms])
  have "set ?ms \<inter> set (map key_member ks) = set ?ms" by auto
  then have c: "card (set ?ms \<inter> set (map key_member ks)) = length ?hits"
    using distinct_card [OF distinct_map_filter [OF dist, of ?P]] by (simp only: length_map)
  have "key_member k \<in> set ?ms \<longleftrightarrow> ?P k" if "k \<in> set ks" for k
    using that dist by (auto simp: distinct_map inj_on_def)
  then have f: "filter (\<lambda>k. key_member k \<notin> set ?ms) ks = filter (\<lambda>k. \<not> ?P k) ks"
    by (intro filter_cong) simp_all
  show ?thesis
    using remove_members_spec [OF assms, of ?ms] unfolding c f
    by (simp add: range_by_score_def count_by_score_def remove_range_by_score_def it limit_slice_all
        rev_map Let_def)
qed

theorem zset_score_range_witness:
  "\<exists>s. zset_rep s [mk_key 0 ''a''] \<and>
     count_by_score \<lparr>sb_value = 0, sb_exclusive = True\<rparr> \<lparr>sb_value = 1, sb_exclusive = False\<rparr> s = Some 0"
proof -
  obtain s where s: "zset_rep s [mk_key 0 ''a'']" using singleton_zset by blast
  then show ?thesis
    using zset_score_range [OF s, of "\<lparr>sb_value = 0, sb_exclusive = True\<rparr>"
        "\<lparr>sb_value = 1, sb_exclusive = False\<rparr>" False]
    by (auto simp: Let_def score_in_range_def score_accepts_as_min_def ordered_float_cmp_rank cmp_int_def)
qed

end
