(* ===== verification/Key_Map.thy ===== *)
theory Key_Map
  imports Kore_Prelude
begin

text \<open>
  The sharded key map, \<open>src/src/hashmap.rs\<close>: \<open>ShardedKeyMap\<close> with its per-shard version (CAS)
  counters, the random sampling used by eviction and expiry, and the glob matcher \<open>pattern_match\<close>.

  The hash function of the map is its field \<open>hasher\<close>, an arbitrary function. Each shard is a
  \<open>HashMap\<close>, an association list with distinct keys. Random numbers come from a stream
  \<open>nat \<Rightarrow> nat\<close>, of which each draw takes the next element. The interface that the keyspace relies on
  is the locale \<open>map_store\<close>. The older \<open>Shard\<close> and \<open>ShardedHashMap\<close> of the same file are not used
  by the keyspace and are not modelled.
\<close>

section \<open>The map\<close>

datatype 'v map_action = Keep | Set 'v | Remove

record 'v key_map =
  shards :: "(bytes \<times> 'v) list list"
  cas_counters :: "nat list"
  num_shards :: nat
  hasher :: "bytes \<Rightarrow> nat"

definition new_map :: "(bytes \<Rightarrow> nat) \<Rightarrow> nat \<Rightarrow> 'v key_map" where
  "new_map h n =
     (let k = max n 1
      in \<lparr>shards = replicate k [], cas_counters = replicate k 1, num_shards = k, hasher = h\<rparr>)"

definition shard_index :: "'v key_map \<Rightarrow> bytes \<Rightarrow> nat" where
  "shard_index m key = hasher m key mod num_shards m"

definition shard :: "'v key_map \<Rightarrow> bytes \<Rightarrow> (bytes \<times> 'v) list" where
  "shard m key = shards m ! shard_index m key"

definition set_shard :: "bytes \<Rightarrow> (bytes \<times> 'v) list \<Rightarrow> 'v key_map \<Rightarrow> 'v key_map" where
  "set_shard key s m = m\<lparr>shards := (shards m)[shard_index m key := s]\<rparr>"

definition next_cas :: "bytes \<Rightarrow> 'v key_map \<Rightarrow> 'v key_map \<times> nat" where
  "next_cas key m =
     (let i = shard_index m key; c = cas_counters m ! i
      in (m\<lparr>cas_counters := (cas_counters m)[i := wrapping_add c 1]\<rparr>, c))"

definition map_get :: "'v key_map \<Rightarrow> bytes \<Rightarrow> 'v option" where
  "map_get m key = map_of (shard m key) key"

definition contains_key :: "'v key_map \<Rightarrow> bytes \<Rightarrow> bool" where
  "contains_key m key \<longleftrightarrow> map_of (shard m key) key \<noteq> None"

definition map_insert :: "bytes \<Rightarrow> 'v \<Rightarrow> 'v key_map \<Rightarrow> 'v key_map \<times> 'v option" where
  "map_insert key v m = (set_shard key (AList.update key v (shard m key)) m, map_get m key)"

definition map_remove :: "bytes \<Rightarrow> 'v key_map \<Rightarrow> 'v key_map \<times> 'v option" where
  "map_remove key m = (set_shard key (AList.delete key (shard m key)) m, map_get m key)"

text \<open>
  The read-modify-write: the callback sees the current value and a fresh version number and returns
  the action and the result of the whole call.
\<close>

definition mutate ::
  "bytes \<Rightarrow> ('v option \<Rightarrow> nat \<Rightarrow> 'v map_action \<times> 'r) \<Rightarrow> 'v key_map \<Rightarrow> 'v key_map \<times> 'r" where
  "mutate key f m =
     (let (m1, cas) = next_cas key m; (action, result) = f (map_get m1 key) cas
      in (case action of
            Keep \<Rightarrow> m1
          | Set v \<Rightarrow> set_shard key (AList.update key v (shard m1 key)) m1
          | Remove \<Rightarrow> set_shard key (AList.delete key (shard m1 key)) m1,
          result))"

text \<open>The last component says whether the callback ran, that is, whether the key was created.\<close>

definition get_or_insert_with :: "bytes \<Rightarrow> (unit \<Rightarrow> 'v) \<Rightarrow> 'v key_map \<Rightarrow> 'v key_map \<times> 'v \<times> bool" where
  "get_or_insert_with key f m =
     (case map_get m key of
        Some v \<Rightarrow> (m, v, False)
      | None \<Rightarrow> (set_shard key (AList.update key (f ()) (shard m key)) m, f (), True))"

definition map_len :: "'v key_map \<Rightarrow> nat" where
  "map_len m = sum_list (map length (shards m))"

definition map_is_empty :: "'v key_map \<Rightarrow> bool" where
  "map_is_empty m = list_all (\<lambda>s. s = []) (shards m)"

definition clear_map :: "'v key_map \<Rightarrow> 'v key_map" where
  "clear_map m = m\<lparr>shards := map (\<lambda>s. []) (shards m)\<rparr>"

text \<open>\<open>for_each\<close> visits the entries in this order.\<close>

definition entries :: "'v key_map \<Rightarrow> (bytes \<times> 'v) list" where
  "entries m = concat (shards m)"

definition drain_all :: "'v key_map \<Rightarrow> 'v key_map \<times> (bytes \<times> 'v) list" where
  "drain_all m = (clear_map m, entries m)"

definition fill_all :: "(bytes \<times> 'v) list \<Rightarrow> 'v key_map \<Rightarrow> 'v key_map" where
  "fill_all kvs m = foldl (\<lambda>m (k, v). fst (map_insert k v m)) m kvs"

definition replace_all :: "(bytes \<times> 'v) list \<Rightarrow> 'v key_map \<Rightarrow> 'v key_map" where
  "replace_all kvs m = fill_all kvs (fst (drain_all m))"

section \<open>Glob patterns\<close>

text \<open>
  \<open>pattern_match\<close> on the code points of pattern and text: one loop with a single backtrack point,
  the last star and the text position it is tried at. \<open>None\<close> would be a loop that does not end.
\<close>

definition STAR :: nat where "STAR = 42"

definition QUESTION :: nat where "QUESTION = 63"

partial_function (option) match_loop ::
  "nat list \<Rightarrow> nat list \<Rightarrow> nat \<Rightarrow> nat \<Rightarrow> nat option \<Rightarrow> nat \<Rightarrow> bool option" where
  "match_loop pat str p t star_idx match_idx =
     (if t < length str then
        if p < length pat \<and> pat ! p = STAR then
          match_loop pat str (p + 1) t (Some p) t
        else if p < length pat \<and> (pat ! p = QUESTION \<or> pat ! p = str ! t) then
          match_loop pat str (p + 1) (t + 1) star_idx match_idx
        else (case star_idx of
                Some star \<Rightarrow> match_loop pat str (star + 1) (match_idx + 1) star_idx (match_idx + 1)
              | None \<Rightarrow> Some False)
      else Some (dropWhile (\<lambda>c. c = STAR) (drop p pat) = []))"

definition pattern_match :: "nat list \<Rightarrow> nat list \<Rightarrow> bool option" where
  "pattern_match pat str = (if pat = [STAR] then Some True else match_loop pat str 0 0 None 0)"

text \<open>A key that is not valid UTF-8 is matched as the empty text.\<close>

definition key_text :: "bytes \<Rightarrow> nat list" where
  "key_text key = (case utf8_decode key of Some t \<Rightarrow> t | None \<Rightarrow> [])"

definition map_keys :: "nat list option \<Rightarrow> 'v key_map \<Rightarrow> bytes list" where
  "map_keys pattern m =
     filter (\<lambda>k. case pattern of
                   Some pat \<Rightarrow> pattern_match pat (key_text k) = Some True
                 | None \<Rightarrow> True)
       (map fst (entries m))"

section \<open>Random samples\<close>

type_synonym rng = "nat \<Rightarrow> nat"

definition gen_range :: "nat \<Rightarrow> rng \<Rightarrow> nat \<times> rng" where
  "gen_range n r = (r 0 mod n, \<lambda>i. r (Suc i))"

fun try_random :: "nat \<Rightarrow> 'v key_map \<Rightarrow> rng \<Rightarrow> (bytes \<times> 'v) option \<times> rng" where
  "try_random 0 m r = (None, r)"
| "try_random (Suc tries) m r =
     (let (idx, r1) = gen_range (num_shards m) r; s = shards m ! idx
      in if s = [] then try_random tries m r1
         else let (i, r2) = gen_range (length s) r1 in (Some (s ! i), r2))"

definition get_random :: "'v key_map \<Rightarrow> rng \<Rightarrow> (bytes \<times> 'v) option \<times> rng" where
  "get_random m r = try_random 10 m r"

fun sample_loop ::
  "nat \<Rightarrow> nat \<Rightarrow> 'v key_map \<Rightarrow> (bytes \<times> 'v) list \<Rightarrow> rng \<Rightarrow> (bytes \<times> 'v) list \<times> rng" where
  "sample_loop 0 n m result r = (result, r)"
| "sample_loop (Suc attempts) n m result r =
     (if length result \<ge> n then (result, r)
      else case get_random m r of
             (Some (key, v), r') \<Rightarrow>
               sample_loop attempts n m
                 (if key \<in> set (map fst result) then result else result @ [(key, v)]) r'
           | (None, r') \<Rightarrow> (result, r'))"

definition get_n_random :: "nat \<Rightarrow> 'v key_map \<Rightarrow> rng \<Rightarrow> (bytes \<times> 'v) list \<times> rng" where
  "get_n_random n m r = sample_loop (max (saturating_mul n 5) n) n m [] r"

section \<open>The interface of a key-value store\<close>

text \<open>
  What a client may rely on: a lookup sees exactly the last write of each key, and the entries are
  the graph of the lookup without duplicates. Sums over the entries then follow every update.
\<close>

locale map_store =
  fixes lookup :: "'m \<Rightarrow> bytes \<Rightarrow> 'v option"
    and put :: "bytes \<Rightarrow> 'v \<Rightarrow> 'm \<Rightarrow> 'm"
    and del :: "bytes \<Rightarrow> 'm \<Rightarrow> 'm"
    and items :: "'m \<Rightarrow> (bytes \<times> 'v) list"
    and inv :: "'m \<Rightarrow> bool"
  assumes inv_put: "inv m \<Longrightarrow> inv (put k v m)"
    and inv_del: "inv m \<Longrightarrow> inv (del k m)"
    and lookup_put: "inv m \<Longrightarrow> lookup (put k v m) = (lookup m)(k \<mapsto> v)"
    and lookup_del: "inv m \<Longrightarrow> lookup (del k m) = (lookup m)(k := None)"
    and distinct_items: "inv m \<Longrightarrow> hm_wf (items m)"
    and map_of_items: "inv m \<Longrightarrow> map_of (items m) = lookup m"
begin

definition total_of :: "(bytes \<Rightarrow> 'v \<Rightarrow> nat) \<Rightarrow> 'm \<Rightarrow> nat" where
  "total_of f m = sum_list (map (\<lambda>(k, v). f k v) (items m))"

lemma finite_dom: "inv m \<Longrightarrow> finite (dom (lookup m))"
  by (metis finite_dom_map_of map_of_items)

lemma items_iff: "inv m \<Longrightarrow> (k, v) \<in> set (items m) \<longleftrightarrow> lookup m k = Some v"
  using map_of_eq_Some_iff [OF distinct_items] map_of_items by metis

lemma length_items: "inv m \<Longrightarrow> length (items m) = card (dom (lookup m))"
  by (metis distinct_items hm_size_dom map_of_items)

lemma total_of_dom:
  assumes "inv m"
  shows "total_of f m = (\<Sum>k \<in> dom (lookup m). f k (the (lookup m k)))"
proof -
  have d: "distinct (items m)" "inj_on fst (set (items m))"
    using distinct_items [OF assms] by (simp_all add: distinct_map)
  have "total_of f m = (\<Sum>(k, v) \<in> set (items m). f k v)"
    by (simp add: total_of_def sum_list_distinct_conv_sum_set [OF d(1)])
  also have "\<dots> = (\<Sum>e \<in> set (items m). f (fst e) (the (lookup m (fst e))))"
    using items_iff [OF assms] by (intro sum.cong) auto
  also have "\<dots> = (\<Sum>k \<in> fst ` set (items m). f k (the (lookup m k)))"
    by (simp add: sum.reindex [OF d(2)])
  also have "fst ` set (items m) = dom (lookup m)"
    using items_iff [OF assms] by (force simp: dom_def)
  finally show ?thesis .
qed

lemma total_of_put:
  assumes "inv m"
  shows "total_of f (put k v m) + (case lookup m k of None \<Rightarrow> 0 | Some w \<Rightarrow> f k w) = total_of f m + f k v"
proof -
  let ?D = "dom (lookup m)"
  have rest: "(\<Sum>j \<in> ?D - {k}. f j (the (((lookup m)(k \<mapsto> v)) j))) = (\<Sum>j \<in> ?D - {k}. f j (the (lookup m j)))"
    by (intro sum.cong) auto
  have "total_of f (put k v m) = f k v + (\<Sum>j \<in> ?D - {k}. f j (the (lookup m j)))"
    using finite_dom [OF assms] rest
    by (simp add: total_of_dom [OF inv_put [OF assms]] lookup_put [OF assms] sum.insert_remove)
  moreover have "total_of f m = (case lookup m k of None \<Rightarrow> 0 | Some w \<Rightarrow> f k w) + (\<Sum>j \<in> ?D - {k}. f j (the (lookup m j)))"
  proof (cases "lookup m k")
    case None
    then have "?D - {k} = ?D" by auto
    then show ?thesis using None by (simp add: total_of_dom [OF assms])
  next
    case (Some w)
    then have "k \<in> ?D" by auto
    from sum.remove [OF finite_dom [OF assms] this, of "\<lambda>j. f j (the (lookup m j))"] show ?thesis
      using Some by (simp add: total_of_dom [OF assms])
  qed
  ultimately show ?thesis by simp
qed

lemma total_of_del:
  assumes "inv m"
  shows "total_of f (del k m) + (case lookup m k of None \<Rightarrow> 0 | Some w \<Rightarrow> f k w) = total_of f m"
proof -
  let ?v = "the (lookup m k)"
  have d: "inv (del k m)" by (rule inv_del [OF assms])
  have "total_of f (put k ?v (del k m)) = total_of f (put k ?v m)"
    by (simp add: total_of_dom inv_put inv_del assms lookup_put lookup_del)
  moreover have "total_of f (put k ?v (del k m)) = total_of f (del k m) + f k ?v"
    using total_of_put [OF d, of f k ?v] by (simp add: lookup_del assms)
  moreover note total_of_put [OF assms, of f k ?v]
  ultimately show ?thesis by simp
qed

end

section \<open>The sharded map is a key-value store\<close>

definition shard_ok :: "'v key_map \<Rightarrow> nat \<Rightarrow> (bytes \<times> 'v) list \<Rightarrow> bool" where
  "shard_ok m i s \<longleftrightarrow> hm_wf s \<and> (\<forall>k \<in> fst ` set s. shard_index m k = i)"

definition map_wf :: "'v key_map \<Rightarrow> bool" where
  "map_wf m \<longleftrightarrow> 0 < num_shards m \<and> length (shards m) = num_shards m \<and> length (cas_counters m) = num_shards m
     \<and> (\<forall>i < num_shards m. shard_ok m i (shards m ! i))"

lemma shard_index_less: "map_wf m \<Longrightarrow> shard_index m k < length (shards m)"
  by (simp add: map_wf_def shard_index_def)

lemma set_shard_fields [simp]:
  "num_shards (set_shard k s m) = num_shards m" "hasher (set_shard k s m) = hasher m"
  "cas_counters (set_shard k s m) = cas_counters m" "shard_index (set_shard k s m) = shard_index m"
  by (simp_all add: set_shard_def shard_index_def fun_eq_iff)

lemma shards_update [simp]:
  "shard_index (m\<lparr>shards := S\<rparr>) = shard_index m" "shard_ok (m\<lparr>shards := S\<rparr>) = shard_ok m"
  "shard_index (m\<lparr>cas_counters := C\<rparr>) = shard_index m" "shard_ok (m\<lparr>cas_counters := C\<rparr>) = shard_ok m"
  by (simp_all add: fun_eq_iff shard_index_def shard_ok_def)

lemma map_get_set_shard:
  assumes "map_wf m" "\<And>j. j \<noteq> k \<Longrightarrow> map_of s j = map_of (shard m k) j"
  shows "map_get (set_shard k s m) j = (if j = k then map_of s k else map_get m j)"
  using assms shard_index_less [OF assms(1), of k]
  by (auto simp: map_get_def shard_def set_shard_def shard_index_def nth_list_update)

lemma map_wf_shard: "map_wf m \<Longrightarrow> shard_ok m (shard_index m k) (shard m k)"
  by (simp add: map_wf_def shard_def shard_index_def)

lemma map_wf_set_shard:
  assumes "map_wf m" "hm_wf s" "fst ` set s \<subseteq> insert k (fst ` set (shard m k))"
  shows "map_wf (set_shard k s m)"
proof -
  have "shard_ok m (shard_index m k) s"
    using assms(2,3) map_wf_shard [OF assms(1), of k] unfolding shard_ok_def by blast
  then have "shard_ok m i ((shards m)[shard_index m k := s] ! i)" if "i < num_shards m" for i
    using assms(1) that by (cases "i = shard_index m k") (simp_all add: map_wf_def)
  then show ?thesis
    using assms(1) by (simp add: map_wf_def set_shard_def)
qed

lemma shard_wf: "map_wf m \<Longrightarrow> hm_wf (shard m k)"
  using map_wf_shard [of m k] by (simp add: shard_ok_def)

lemma map_wf_new [simp]: "map_wf (new_map h n)"
  by (simp add: map_wf_def new_map_def shard_ok_def Let_def)

lemma map_insert_facts:
  assumes "map_wf m"
  shows "map_wf (fst (map_insert k v m))" "map_get (fst (map_insert k v m)) = (map_get m)(k \<mapsto> v)"
    "snd (map_insert k v m) = map_get m k"
proof -
  show "map_wf (fst (map_insert k v m))"
    unfolding map_insert_def fst_conv
    by (rule map_wf_set_shard [OF assms]) (auto simp: shard_wf [OF assms] distinct_update dom_update)
  show "map_get (fst (map_insert k v m)) = (map_get m)(k \<mapsto> v)"
    by (rule ext) (simp add: map_insert_def map_get_set_shard [OF assms] update_conv')
qed (simp add: map_insert_def)

lemma map_remove_facts:
  assumes "map_wf m"
  shows "map_wf (fst (map_remove k m))" "map_get (fst (map_remove k m)) = (map_get m)(k := None)"
    "snd (map_remove k m) = map_get m k"
proof -
  show "map_wf (fst (map_remove k m))"
    unfolding map_remove_def fst_conv
    by (rule map_wf_set_shard [OF assms distinct_delete [OF shard_wf [OF assms]]]) (auto simp: AList.delete_eq)
  show "map_get (fst (map_remove k m)) = (map_get m)(k := None)"
    by (rule ext) (simp add: map_remove_def map_get_set_shard [OF assms] delete_conv')
qed (simp add: map_remove_def)

lemma next_cas_facts:
  assumes "map_wf m"
  shows "map_wf (fst (next_cas k m))" "map_get (fst (next_cas k m)) = map_get m"
    "shard (fst (next_cas k m)) = shard m" "entries (fst (next_cas k m)) = entries m"
  using assms
  by (auto simp: next_cas_def map_wf_def map_get_def shard_def entries_def Let_def fun_eq_iff)

lemma mutate_facts:
  assumes "map_wf m" "mutate k f m = (m', r)"
  obtains action cas where "f (map_get m k) cas = (action, r)" "cas = cas_counters m ! shard_index m k" "map_wf m'"
    "map_get m' = (case action of Keep \<Rightarrow> map_get m | Set v \<Rightarrow> (map_get m)(k \<mapsto> v) | Remove \<Rightarrow> (map_get m)(k := None))"
proof -
  obtain m1 cas where n: "next_cas k m = (m1, cas)" by fastforce
  note nf = next_cas_facts [OF assms(1), of k, unfolded n fst_conv]
  obtain action r' where f: "f (map_get m k) cas = (action, r')" by fastforce
  have cas: "cas = cas_counters m ! shard_index m k" using n by (auto simp: next_cas_def Let_def)
  have m': "m' = (case action of Keep \<Rightarrow> m1 | Set v \<Rightarrow> fst (map_insert k v m1) | Remove \<Rightarrow> fst (map_remove k m1))" "r = r'"
    using assms(2) f nf(2) by (auto simp: mutate_def n map_insert_def map_remove_def split: map_action.splits)
  show thesis
  proof (rule that [OF f [folded m'(2)] cas])
    show "map_wf m'"
      using map_insert_facts(1) [OF nf(1)] map_remove_facts(1) [OF nf(1)] nf(1) by (auto simp: m' split: map_action.splits)
    show "map_get m' = (case action of Keep \<Rightarrow> map_get m | Set v \<Rightarrow> (map_get m)(k \<mapsto> v) | Remove \<Rightarrow> (map_get m)(k := None))"
      using map_insert_facts(2) [OF nf(1)] map_remove_facts(2) [OF nf(1)] nf(2) by (auto simp: m' split: map_action.splits)
  qed
qed

lemma distinct_keys_concat:
  "(\<And>i. i < length S \<Longrightarrow> hm_wf (S ! i) \<and> (\<forall>k \<in> fst ` set (S ! i). g k = n + i)) \<Longrightarrow> hm_wf (concat S)"
proof (induction S arbitrary: n)
  case (Cons s S)
  have IH: "hm_wf (concat S)"
  proof (rule Cons.IH [of "Suc n"])
    fix i assume "i < length S"
    then show "hm_wf (S ! i) \<and> (\<forall>k \<in> fst ` set (S ! i). g k = Suc n + i)" using Cons.prems [of "Suc i"] by simp
  qed
  have "g k = n" if "k \<in> fst ` set s" for k using Cons.prems [of 0] that by auto
  moreover have "g k > n" if k: "k \<in> fst ` set (concat S)" for k
  proof -
    obtain t where "t \<in> set S" "k \<in> fst ` set t" using k by auto
    then obtain i where "i < length S" "k \<in> fst ` set (S ! i)" by (metis in_set_conv_nth)
    then show ?thesis using Cons.prems [of "Suc i"] by auto
  qed
  ultimately have "fst ` set s \<inter> fst ` set (concat S) = {}" by fastforce
  moreover have "hm_wf s" using Cons.prems [of 0] by simp
  ultimately show ?case using IH by simp
qed simp

lemma entries_facts:
  assumes "map_wf m"
  shows "hm_wf (entries m)" "map_of (entries m) = map_get m"
proof -
  have ok: "shard_ok m i (shards m ! i)" if "i < length (shards m)" for i
    using assms that by (simp add: map_wf_def)
  have mem: "(k, v) \<in> set (entries m) \<longleftrightarrow> map_get m k = Some v" for k v
  proof -
    have "(k, v) \<in> set (entries m) \<longleftrightarrow> (\<exists>i < length (shards m). (k, v) \<in> set (shards m ! i))"
      unfolding entries_def set_concat by (metis (no_types, lifting) UN_iff in_set_conv_nth)
    also have "\<dots> \<longleftrightarrow> (k, v) \<in> set (shards m ! shard_index m k)"
      using ok shard_index_less [OF assms, of k] unfolding shard_ok_def by (metis fst_conv image_eqI)
    also have "\<dots> \<longleftrightarrow> map_get m k = Some v"
      using shard_wf [OF assms, of k] by (simp add: map_get_def shard_def)
    finally show ?thesis .
  qed
  show wf: "hm_wf (entries m)"
    unfolding entries_def using ok
    by (intro distinct_keys_concat [where g = "shard_index m" and n = 0]) (simp add: shard_ok_def)
  show "map_of (entries m) = map_get m"
    using mem map_of_eq_Some_iff [OF wf] by (metis (no_types, opaque_lifting) ext option.exhaust)
qed

interpretation km: map_store
  map_get "\<lambda>k v m. fst (map_insert k v m)" "\<lambda>k m. fst (map_remove k m)" entries map_wf
  by unfold_locales (simp_all add: map_insert_facts map_remove_facts entries_facts)

lemma map_wf_clear: "map_wf m \<Longrightarrow> map_wf (clear_map m)"
  by (simp add: map_wf_def clear_map_def shard_ok_def)

lemma map_get_clear: "map_wf m \<Longrightarrow> map_get (clear_map m) = Map.empty"
  using shard_index_less [of m] by (simp add: map_get_def shard_def clear_map_def fun_eq_iff)

lemma map_len_card: "map_wf m \<Longrightarrow> map_len m = card (dom (map_get m))"
  using km.length_items [of m] by (simp add: map_len_def entries_def length_concat)

lemma fill_all_facts:
  "map_wf m \<Longrightarrow> map_wf (fill_all kvs m) \<and> map_get (fill_all kvs m) = map_get m ++ map_of (rev kvs)"
proof (induction kvs arbitrary: m)
  case (Cons kv kvs)
  obtain k v where kv: "kv = (k, v)" by (cases kv)
  have e: "fill_all (kv # kvs) m = fill_all kvs (fst (map_insert k v m))" by (simp add: fill_all_def kv)
  show ?case
    unfolding e using Cons.IH [OF map_insert_facts(1) [OF Cons.prems]]
    by (auto simp: map_insert_facts(2) [OF Cons.prems] kv map_add_def fun_eq_iff split: option.splits)
qed (simp add: fill_all_def)

lemma map_of_rev: "hm_wf kvs \<Longrightarrow> map_of (rev kvs) = map_of kvs"
  by (metis distinct_rev map_of_eqI map_of_inject_set rev_map set_rev)

section \<open>Samples\<close>

lemma try_random_in:
  "map_wf m \<Longrightarrow> try_random n m r = (Some (k, v), r') \<Longrightarrow> map_get m k = Some v"
proof (induction n arbitrary: r)
  case (Suc n)
  let ?s = "shards m ! (r 0 mod num_shards m)"
  show ?case
  proof (cases "?s = []")
    case True
    then show ?thesis using Suc by (simp add: gen_range_def Let_def)
  next
    case False
    then have "?s ! (r (Suc 0) mod length ?s) \<in> set ?s" by simp
    moreover have "?s ! (r (Suc 0) mod length ?s) = (k, v)"
      using False Suc.prems(2) by (auto simp: gen_range_def Let_def)
    ultimately have "(k, v) \<in> set ?s" by simp
    moreover have "r 0 mod num_shards m < length (shards m)" using Suc.prems(1) by (simp add: map_wf_def)
    ultimately have "(k, v) \<in> set (entries m)" by (auto simp: entries_def)
    then show ?thesis using km.items_iff [OF Suc.prems(1)] by blast
  qed
qed simp

lemma sample_loop_spec:
  assumes "map_wf m" "hm_wf result" "set result \<subseteq> set (entries m)" "length result \<le> n"
    "sample_loop attempts n m result r = (out, r')"
  shows "hm_wf out \<and> set out \<subseteq> set (entries m) \<and> length out \<le> n"
  using assms(2-)
proof (induction attempts arbitrary: result r)
  case (Suc attempts)
  show ?case
  proof (cases "length result \<ge> n")
    case True
    then show ?thesis using Suc.prems by simp
  next
    case False
    obtain o' r1 where g: "get_random m r = (o', r1)" by fastforce
    show ?thesis
    proof (cases o')
      case None
      then show ?thesis using Suc.prems False g by simp
    next
      case (Some kv)
      obtain k v where kv: "kv = (k, v)" by (cases kv)
      have "(k, v) \<in> set (entries m)"
        using try_random_in [OF assms(1)] g Some kv km.items_iff [OF assms(1)] by (simp add: get_random_def)
      then show ?thesis
        using Suc.prems(1-3) False Suc.prems(4) g Some kv
        by (intro Suc.IH [of "if k \<in> set (map fst result) then result else result @ [(k, v)]" r1]) auto
    qed
  qed
qed simp

section \<open>Glob matching against its reference\<close>

fun glob :: "nat list \<Rightarrow> nat list \<Rightarrow> bool" where
  "glob [] str \<longleftrightarrow> str = []"
| "glob (c # pat) str \<longleftrightarrow>
     (if c = STAR then \<exists>k \<le> length str. glob pat (drop k str)
      else str \<noteq> [] \<and> (c = QUESTION \<or> c = hd str) \<and> glob pat (tl str))"

lemma glob_Nil: "glob pat [] \<longleftrightarrow> dropWhile (\<lambda>c. c = STAR) pat = []"
  by (induction pat) auto

text \<open>A star-free segment of a pattern consumes exactly its length.\<close>

lemma glob_segment:
  "list_all (\<lambda>c. c \<noteq> STAR) seg \<Longrightarrow> glob (seg @ pat) str \<Longrightarrow> length seg \<le> length str \<and> glob pat (drop (length seg) str)"
proof (induction seg arbitrary: str)
  case (Cons c seg)
  then show ?case by (cases str) auto
qed simp

text \<open>
  What a state of the loop still has to decide: the rest of the pattern against the rest of the
  text, or the pattern behind the last star against a later position.
\<close>

definition pending :: "nat list \<Rightarrow> nat list \<Rightarrow> nat \<Rightarrow> nat \<Rightarrow> nat option \<Rightarrow> nat \<Rightarrow> bool" where
  "pending pat str p t star mi \<longleftrightarrow> glob (drop p pat) (drop t str)
     \<or> (case star of None \<Rightarrow> False | Some s \<Rightarrow> \<exists>k > mi. k \<le> length str \<and> glob (drop (Suc s) pat) (drop k str))"

definition loop_inv :: "nat list \<Rightarrow> nat list \<Rightarrow> nat \<Rightarrow> nat \<Rightarrow> nat option \<Rightarrow> nat \<Rightarrow> bool" where
  "loop_inv pat str p t star mi \<longleftrightarrow> p \<le> length pat \<and> t \<le> length str
     \<and> (case star of None \<Rightarrow> True
         | Some s \<Rightarrow> \<exists>seg. drop (Suc s) pat = seg @ drop p pat \<and> s < p \<and> list_all (\<lambda>c. c \<noteq> STAR) seg \<and> t = mi + length seg)"

lemma drop_split: "p < length pat \<Longrightarrow> drop p pat = pat ! p # drop (Suc p) pat"
  by (simp add: Cons_nth_drop_Suc)

text \<open>Reading a star: every later position of an earlier star is covered by the new one.\<close>

lemma pending_star:
  assumes "loop_inv pat str p t star mi" "p < length pat" "pat ! p = STAR"
  shows "pending pat str p t star mi = pending pat str (Suc p) t (Some p) t"
proof -
  let ?rest = "drop (Suc p) pat"
  have here: "glob (drop p pat) (drop t str) \<longleftrightarrow> (\<exists>k \<ge> t. k \<le> length str \<and> glob ?rest (drop k str))"
  proof
    assume "glob (drop p pat) (drop t str)"
    then obtain k where "k \<le> length str - t" "glob ?rest (drop (k + t) str)"
      using assms(2,3) by (auto simp: drop_split)
    moreover have "t \<le> length str" using assms(1) by (simp add: loop_inv_def)
    ultimately show "\<exists>k \<ge> t. k \<le> length str \<and> glob ?rest (drop k str)" by (intro exI [of _ "k + t"]) auto
  next
    assume "\<exists>k \<ge> t. k \<le> length str \<and> glob ?rest (drop k str)"
    then obtain k where "t \<le> k" "k \<le> length str" "glob ?rest (drop k str)" by blast
    then have "k - t \<le> length (drop t str)" "glob ?rest (drop (k - t) (drop t str))" by simp_all
    then show "glob (drop p pat) (drop t str)"
      using assms(2,3) by (simp only: drop_split glob.simps(2) refl if_True) blast
  qed
  have older: "\<exists>k \<ge> t. k \<le> length str \<and> glob ?rest (drop k str)"
    if st: "star = Some s" "k > mi" "k \<le> length str" "glob (drop (Suc s) pat) (drop k str)" for s k
  proof -
    obtain seg where seg: "drop (Suc s) pat = seg @ drop p pat" "list_all (\<lambda>c. c \<noteq> STAR) seg" "t = mi + length seg"
      using assms(1) st(1) by (auto simp: loop_inv_def)
    have "length seg \<le> length (drop k str) \<and> glob (drop p pat) (drop (length seg) (drop k str))"
      using glob_segment [OF seg(2), of "drop p pat" "drop k str"] st(4) by (simp only: seg(1))
    then obtain j where "j \<le> length str - (length seg + k)" "glob ?rest (drop (j + (length seg + k)) str)" "length seg + k \<le> length str"
      using assms(2,3) st(3) by (auto simp: drop_split)
    then show ?thesis using st(2) seg(3) by (intro exI [of _ "j + (length seg + k)"]) auto
  qed
  have "pending pat str p t star mi \<longleftrightarrow> (\<exists>k \<ge> t. k \<le> length str \<and> glob ?rest (drop k str))"
    unfolding pending_def here using older by (auto split: option.splits)
  also have "\<dots> \<longleftrightarrow> pending pat str (Suc p) t (Some p) t"
    using assms(1) by (auto simp: pending_def loop_inv_def le_less)
  finally show ?thesis .
qed

text \<open>A position that matches, and one that does not.\<close>

lemma pending_step:
  assumes "p < length pat" "t < length str" "pat ! p \<noteq> STAR" "pat ! p = QUESTION \<or> pat ! p = str ! t"
  shows "pending pat str p t star mi = pending pat str (Suc p) (Suc t) star mi"
proof -
  have "glob (drop p pat) (drop t str) = glob (drop (Suc p) pat) (drop (Suc t) str)"
    using assms by (simp add: drop_split [of p] drop_split [of t str] )
  then show ?thesis by (simp add: pending_def)
qed

lemma glob_mismatch:
  assumes "p \<le> length pat" "t < length str"
    "\<not> (p < length pat \<and> pat ! p = STAR)" "\<not> (p < length pat \<and> (pat ! p = QUESTION \<or> pat ! p = str ! t))"
  shows "\<not> glob (drop p pat) (drop t str)"
  using assms by (cases "p < length pat") (auto simp: drop_split [of p] drop_split [of t str])

lemma pending_backtrack:
  assumes "loop_inv pat str p t (Some s) mi" "t < length str" "\<not> glob (drop p pat) (drop t str)"
  shows "pending pat str p t (Some s) mi = pending pat str (Suc s) (Suc mi) (Some s) (Suc mi)"
proof -
  have "mi < length str" using assms(1,2) by (auto simp: loop_inv_def)
  then have "(\<exists>k > mi. k \<le> length str \<and> glob (drop (Suc s) pat) (drop k str)) \<longleftrightarrow>
      glob (drop (Suc s) pat) (drop (Suc mi) str) \<or> (\<exists>k > Suc mi. k \<le> length str \<and> glob (drop (Suc s) pat) (drop k str))"
    by (metis Suc_leI Suc_lessD lessI linorder_neqE_nat not_less_eq)
  then show ?thesis using assms(3) by (simp add: pending_def)
qed

lemma pending_end:
  assumes "loop_inv pat str p t star mi" "t = length str"
  shows "pending pat str p t star mi \<longleftrightarrow> glob (drop p pat) []"
proof -
  have "False" if st: "star = Some s" "k > mi" "k \<le> length str" "glob (drop (Suc s) pat) (drop k str)" for s k
  proof -
    obtain seg where seg: "drop (Suc s) pat = seg @ drop p pat" "list_all (\<lambda>c. c \<noteq> STAR) seg" "t = mi + length seg"
      using assms(1) st(1) by (auto simp: loop_inv_def)
    then have "length seg \<le> length (drop k str)" using glob_segment [OF seg(2), of "drop p pat" "drop k str"] st(4) by (simp only: seg(1))
    then show False using st(2,3) seg(3) assms(2) by simp
  qed
  then show ?thesis using assms(2) by (auto simp: pending_def split: option.splits)
qed

text \<open>
  The loop decides the pending question. It ends because a backtrack advances the position of the
  last star in the text, and every other step advances in the pattern without moving it back.
\<close>

lemma loop_inv_step:
  assumes "loop_inv pat str p t star mi" "t < length str" "p < length pat" "pat ! p \<noteq> STAR"
  shows "loop_inv pat str (Suc p) (Suc t) star mi"
proof (cases star)
  case None
  then show ?thesis using assms by (simp add: loop_inv_def)
next
  case (Some s)
  then obtain seg where "drop (Suc s) pat = seg @ drop p pat" "s < p" "list_all (\<lambda>c. c \<noteq> STAR) seg" "t = mi + length seg"
    using assms(1) by (auto simp: loop_inv_def)
  then show ?thesis
    using assms Some unfolding loop_inv_def
    by (auto simp: drop_split intro!: exI [of _ "seg @ [pat ! p]"])
qed

definition loop_measure :: "nat list \<Rightarrow> nat list \<Rightarrow> nat \<Rightarrow> nat option \<Rightarrow> nat \<Rightarrow> nat" where
  "loop_measure pat str p star mi =
     (case star of None \<Rightarrow> Suc (length str) | Some _ \<Rightarrow> length str - mi) * Suc (length pat) + (length pat - p)"

lemma lex_less:
  assumes "a < b \<or> (a \<le> b \<and> x < y)" "x \<le> (n :: nat)"
  shows "a * Suc n + x < b * Suc n + y"
proof (cases "a < b")
  case True
  then have "Suc a * Suc n \<le> b * Suc n" by (intro mult_le_mono1) simp
  then show ?thesis using assms(2) by simp
next
  case False
  then show ?thesis using assms(1) by simp
qed

lemma match_loop_correct:
  assumes "loop_inv pat str p t star mi"
  shows "match_loop pat str p t star mi = Some (pending pat str p t star mi)"
  using assms
proof (induction "loop_measure pat str p star mi" arbitrary: p t star mi rule: less_induct)
  case less
  note inv = less.prems
  have le: "p \<le> length pat" "t \<le> length str" using inv by (simp_all add: loop_inv_def)
  consider (fin) "t = length str"
    | (star) "t < length str" "p < length pat" "pat ! p = STAR"
    | (step) "t < length str" "p < length pat" "pat ! p \<noteq> STAR" "pat ! p = QUESTION \<or> pat ! p = str ! t"
    | (fail) "t < length str" "\<not> (p < length pat \<and> pat ! p = STAR)"
        "\<not> (p < length pat \<and> (pat ! p = QUESTION \<or> pat ! p = str ! t))"
    using le by linarith
  then show ?case
  proof cases
    case fin
    then show ?thesis
      using pending_end [OF inv] by (subst match_loop.simps) (simp add: glob_Nil)
  next
    case star
    have "loop_inv pat str (Suc p) t (Some p) t" using star le by (simp add: loop_inv_def)
    moreover have "loop_measure pat str (Suc p) (Some p) t < loop_measure pat str p star mi"
      unfolding loop_measure_def
      using star inv by (intro lex_less) (auto simp: loop_inv_def split: option.splits)
    ultimately have "match_loop pat str (Suc p) t (Some p) t = Some (pending pat str (Suc p) t (Some p) t)"
      by (rule less.hyps [rotated])
    then show ?thesis
      using star pending_star [OF inv] by (subst match_loop.simps) simp
  next
    case step
    note loop_inv_step [OF inv step(1-3)]
    moreover have "loop_measure pat str (Suc p) star mi < loop_measure pat str p star mi"
      unfolding loop_measure_def using step by (intro lex_less) auto
    ultimately have "match_loop pat str (Suc p) (Suc t) star mi = Some (pending pat str (Suc p) (Suc t) star mi)"
      by (rule less.hyps [rotated])
    then show ?thesis
      using step pending_step [OF step(2,1,3,4)] by (subst match_loop.simps) simp
  next
    case fail
    note mismatch = glob_mismatch [OF le(1) fail]
    show ?thesis
    proof (cases star)
      case None
      then show ?thesis using fail mismatch by (subst match_loop.simps) (auto simp: pending_def)
    next
      case (Some s)
      have "loop_inv pat str (Suc s) (Suc mi) (Some s) (Suc mi)" "mi < length str"
        using inv fail(1) Some by (auto simp: loop_inv_def)
      moreover from this have "loop_measure pat str (Suc s) (Some s) (Suc mi) < loop_measure pat str p star mi"
        unfolding loop_measure_def using Some by (intro lex_less) auto
      ultimately have "match_loop pat str (Suc s) (Suc mi) (Some s) (Suc mi) = Some (pending pat str (Suc s) (Suc mi) (Some s) (Suc mi))"
        using less.hyps by blast
      then show ?thesis
        using fail pending_backtrack [OF inv [unfolded Some] fail(1) mismatch] Some
        by (subst match_loop.simps) auto
    qed
  qed
qed

lemma pattern_match_glob: "pattern_match pat str = Some (glob pat str)"
proof (cases "pat = [STAR]")
  case True
  then show ?thesis by (auto simp: pattern_match_def intro: exI [of _ "length str"])
next
  case False
  have "loop_inv pat str 0 0 None 0" by (simp add: loop_inv_def)
  from match_loop_correct [OF this] show ?thesis using False by (simp add: pattern_match_def pending_def)
qed

lemma map_keys_spec:
  assumes "map_wf m"
  shows "distinct (map_keys pattern m)"
    "k \<in> set (map_keys pattern m) \<longleftrightarrow>
       map_get m k \<noteq> None \<and> (case pattern of None \<Rightarrow> True | Some pat \<Rightarrow> glob pat (key_text k))"
proof -
  have "k \<in> set (map fst (entries m)) \<longleftrightarrow> map_get m k \<noteq> None"
    using km.items_iff [OF assms] by force
  then show "k \<in> set (map_keys pattern m) \<longleftrightarrow>
       map_get m k \<noteq> None \<and> (case pattern of None \<Rightarrow> True | Some pat \<Rightarrow> glob pat (key_text k))"
    by (auto simp: map_keys_def pattern_match_glob split: option.splits)
  show "distinct (map_keys pattern m)" using entries_facts(1) [OF assms] by (simp add: map_keys_def)
qed

section \<open>Properties\<close>

text \<open>
  C22. \<open>pattern_match\<close>, one loop with a single backtrack point, terminates on every pattern and text
  and decides exactly the glob language in which a star stands for any sequence and a question
  mark for any one character.
\<close>

theorem pattern_match_correct: "pattern_match pat str = Some (glob pat str)"
  by (rule pattern_match_glob)


definition demo_hash :: "bytes \<Rightarrow> nat" where "demo_hash key = length key"


text \<open>
  \<open>keys\<close> returns every key whose text matches the pattern, once; a sample of \<open>n\<close> random
  entries has at most \<open>n\<close> entries, all present in the map and no key twice; and sampling an
  empty map returns nothing.
\<close>

theorem key_map_keys_samples:
  assumes "map_wf m" and "get_n_random n m r = (sample, r')"
  shows "distinct (map_keys pattern m)
    \<and> (k \<in> set (map_keys pattern m) \<longleftrightarrow>
         map_get m k \<noteq> None \<and> (case pattern of None \<Rightarrow> True | Some pat \<Rightarrow> glob pat (key_text k)))
    \<and> distinct (map fst sample) \<and> length sample \<le> n
    \<and> ((k, v) \<in> set sample \<longrightarrow> map_get m k = Some v)
    \<and> (map_get m = Map.empty \<longrightarrow> sample = [])"
proof -
  have s: "hm_wf sample \<and> set sample \<subseteq> set (entries m) \<and> length sample \<le> n"
    using sample_loop_spec [OF assms(1), of "[]" n] assms(2) by (auto simp: get_n_random_def)
  have mem: "(k, v) \<in> set sample \<Longrightarrow> map_get m k = Some v" for k v
    using s km.items_iff [OF assms(1)] by blast
  have "map_get m = Map.empty \<longrightarrow> sample = []"
    using mem [of "fst (hd sample)" "snd (hd sample)"] by (cases sample) auto
  then show ?thesis using s mem map_keys_spec [OF assms(1)] by auto
qed

theorem key_map_keys_samples_witness:
  "''ab'' \<in> set (map_keys (Some [97, STAR]) (fst (map_insert ''ab'' (7 :: nat) (new_map demo_hash 2))))"
proof -
  let ?m = "fst (map_insert ''ab'' (7 :: nat) (new_map demo_hash 2))"
  have wf: "map_wf ?m" by (rule map_insert_facts(1) [OF map_wf_new])
  have "map_get ?m ''ab'' \<noteq> None" by (simp add: map_insert_facts(2))
  moreover have "key_text ''ab'' = [97, 98]" by code_simp
  moreover have "glob [97, STAR] [97, 98]" by code_simp
  ultimately show ?thesis
    using key_map_keys_samples [where pattern = "Some [97, STAR]" and k = "''ab''", OF wf prod.collapse [symmetric]] by auto
qed

end
