(* ===== verification/Keyspace.thy ===== *)
theory Keyspace
  imports Key_Map Memory Lfu
begin

text \<open>
  The unified keyspace, \<open>src/src/entry.rs\<close>, \<open>src/src/cache/keyspace.rs\<close>, \<open>src/src/cache/mod.rs\<close> and
  the lazy-expiry part of \<open>src/src/cache/expiration.rs\<close> and \<open>storage.rs\<close>: slots with a deadline and a
  typed value in one sharded map, the memory tracker they are charged to, and the generation
  counters of WATCH.

  What an operation reads from outside is the record \<open>env\<close>: the monotonic clock in nanoseconds, the
  wall clock in milliseconds, the minute stamp and the random draws of the LFU counter, the random
  numbers of sampling, and the size of a container, which in the code depends on the capacity the
  standard collections have reserved. An operation reads each clock once. The containers
  themselves (type \<open>'c\<close>) are opaque to this layer. The counters of the statistics are \<open>nat\<close>.
  The keyspace is that of a server on which no search index is defined, so that
  \<open>auto_remove_from_indices\<close> finds none; search is not modelled.
\<close>

section \<open>Entries, slots and the cache\<close>

datatype err =
    Io string
  | KeyNotFound
  | InvalidCommand string
  | ParseError string
  | EntryTooLarge
  | OutOfMemory
  | InvalidProtocol
  | AuthRequired
  | AuthFailed
  | CasMismatch
  | InvalidArgument string
  | LockAcquisitionFailed string
  | LockExtensionFailed string
  | DeadlockDetected string
  | PubSubError string
  | MessageTooLarge nat nat
  | SlowClientTimeout
  | NetworkError string
  | ComparisonError
  | ConfigError string
  | WrongType

fun error_text :: "err \<Rightarrow> string" where
  "error_text (Io e) = ''IO error: '' @ e"
| "error_text KeyNotFound = ''Key not found''"
| "error_text (InvalidCommand s) = ''Invalid command: '' @ s"
| "error_text (ParseError s) = ''Parse error: '' @ s"
| "error_text EntryTooLarge = ''Entry too large''"
| "error_text OutOfMemory = ''Out of memory''"
| "error_text InvalidProtocol = ''Invalid protocol''"
| "error_text AuthRequired = ''Authentication required''"
| "error_text AuthFailed = ''Authentication failed''"
| "error_text CasMismatch = ''CAS mismatch''"
| "error_text (InvalidArgument s) = ''Invalid argument: '' @ s"
| "error_text (LockAcquisitionFailed s) = ''Lock acquisition failed: '' @ s"
| "error_text (LockExtensionFailed s) = ''Lock extension failed: '' @ s"
| "error_text (DeadlockDetected s) = ''Deadlock detected: '' @ s"
| "error_text (PubSubError s) = ''Pub/Sub error: '' @ s"
| "error_text (MessageTooLarge sz mx) = ''Message too large: '' @ show_nat sz @ '' bytes (max: '' @ show_nat mx @ '')''"
| "error_text SlowClientTimeout = ''Slow client timeout''"
| "error_text (NetworkError s) = ''Network error: '' @ s"
| "error_text ComparisonError = ''Comparison error: cannot compare NaN values''"
| "error_text (ConfigError s) = ''Configuration error: '' @ s"
| "error_text WrongType = ''WRONGTYPE Operation against a key holding the wrong kind of value''"

definition to_resp_string :: "err \<Rightarrow> string" where
  "to_resp_string e =
     (case e of
        WrongType \<Rightarrow> error_text e
      | OutOfMemory \<Rightarrow> ''OOM command not allowed when used memory > '' @ [CHR 0x27] @ ''maxmemory'' @ [CHR 0x27]
      | _ \<Rightarrow> ''ERR '' @ error_text e)"

record 'c env =
  now :: int
  unix_ms :: nat
  minute :: "16 word"
  lfu_draw :: "nat \<Rightarrow> bool"
  random :: rng
  shuffled :: "nat \<Rightarrow> nat list"
  csize :: "'c \<Rightarrow> nat"

record entry =
  ekey :: bytes
  evalue :: bytes
  created_at :: int
  last_access_micros :: nat
  lfu :: "64 word"
  eflags :: nat
  ecas :: nat

text \<open>\<open>size_of::<Entry>()\<close> on a 64-bit target: two \<open>Bytes\<close>, an \<open>Instant\<close>, three words and a \<open>u32\<close>.\<close>

definition ENTRY_STRUCT :: nat where "ENTRY_STRUCT = 112"

definition new_entry :: "'c env \<Rightarrow> bytes \<Rightarrow> bytes \<Rightarrow> entry" where
  "new_entry E key v =
     \<lparr>ekey = key, evalue = v, created_at = now E, last_access_micros = 0, lfu = initial (minute E),
      eflags = 0, ecas = 0\<rparr>"

definition entry_size :: "entry \<Rightarrow> nat" where
  "entry_size e = estimate_string_entry (length (ekey e)) (length (evalue e)) ENTRY_STRUCT"

definition logical_size :: "entry \<Rightarrow> nat" where
  "logical_size e = logical_string_entry (length (ekey e)) (length (evalue e)) ENTRY_STRUCT"

definition touch :: "'c env \<Rightarrow> 8 word \<Rightarrow> 8 word \<Rightarrow> entry \<Rightarrow> entry" where
  "touch E log_factor decay_time e =
     e\<lparr>last_access_micros := nat ((now E - created_at e) div 1000),
       lfu := on_access (lfu_draw E) (minute E) (lfu e) log_factor decay_time\<rparr>"

definition last_access_time :: "entry \<Rightarrow> int" where
  "last_access_time e =
     (if last_access_micros e = 0 then created_at e
      else created_at e + int (last_access_micros e) * 1000)"

definition lfu_freq :: "'c env \<Rightarrow> 8 word \<Rightarrow> entry \<Rightarrow> nat" where
  "lfu_freq E decay_time e = unat (effective_counter (minute E) (lfu e) decay_time)"

datatype 'c key_value =
    VString entry
  | VHash 'c
  | VList 'c
  | VSet 'c
  | VZSet 'c
  | VGeo 'c
  | VStream 'c

datatype key_type = TNone | TString | TZSet | TGeo | THash | TList | TSet | TStream

fun as_redis_str :: "key_type \<Rightarrow> string" where
  "as_redis_str TNone = ''none''"
| "as_redis_str TString = ''string''"
| "as_redis_str TZSet = ''zset''"
| "as_redis_str TGeo = ''zset''"
| "as_redis_str THash = ''hash''"
| "as_redis_str TList = ''list''"
| "as_redis_str TSet = ''set''"
| "as_redis_str TStream = ''stream''"

fun value_type :: "'c key_value \<Rightarrow> key_type" where
  "value_type (VString _) = TString"
| "value_type (VHash _) = THash"
| "value_type (VList _) = TList"
| "value_type (VSet _) = TSet"
| "value_type (VZSet _) = TZSet"
| "value_type (VGeo _) = TGeo"
| "value_type (VStream _) = TStream"

fun value_category :: "'c key_value \<Rightarrow> memory_category" where
  "value_category (VString _) = Cache"
| "value_category (VHash _) = Hashes"
| "value_category (VList _) = Lists"
| "value_category (VSet _) = Sets"
| "value_category (VZSet _) = SortedSets"
| "value_category (VGeo _) = GeoSets"
| "value_category (VStream _) = Streams"

fun content_memory_size :: "'c env \<Rightarrow> 'c key_value \<Rightarrow> nat" where
  "content_memory_size E (VString e) = entry_size e"
| "content_memory_size E (VHash x) = csize E x"
| "content_memory_size E (VList x) = csize E x"
| "content_memory_size E (VSet x) = csize E x"
| "content_memory_size E (VZSet x) = csize E x"
| "content_memory_size E (VGeo x) = csize E x"
| "content_memory_size E (VStream x) = csize E x"

definition is_typed_container :: "'c key_value \<Rightarrow> bool" where
  "is_typed_container v \<longleftrightarrow> (case v of VString _ \<Rightarrow> False | _ \<Rightarrow> True)"

record 'c key_slot =
  expires_at :: "int option"
  slot_value :: "'c key_value"

definition new_slot :: "'c key_value \<Rightarrow> 'c key_slot" where
  "new_slot v = \<lparr>expires_at = None, slot_value = v\<rparr>"

definition with_expire :: "'c key_value \<Rightarrow> int option \<Rightarrow> 'c key_slot" where
  "with_expire v e = \<lparr>expires_at = e, slot_value = v\<rparr>"

definition slot_expired :: "'c env \<Rightarrow> 'c key_slot \<Rightarrow> bool" where
  "slot_expired E s \<longleftrightarrow> (case expires_at s of None \<Rightarrow> False | Some d \<Rightarrow> now E \<ge> d)"

definition slot_ttl_live :: "'c env \<Rightarrow> int option \<Rightarrow> bool" where
  "slot_ttl_live E d \<longleftrightarrow> (case d of Some d \<Rightarrow> now E < d | None \<Rightarrow> True)"

record cache_stats =
  cmd_get :: nat
  cmd_set :: nat
  cmd_del :: nat
  cmd_incr :: nat
  cmd_decr :: nat
  hits :: nat
  misses :: nat
  evicted_expired :: nat
  evicted_lru :: nat
  cas_hits :: nat
  cas_misses :: nat
  cas_badval :: nat
  store_too_large :: nat
  store_no_memory :: nat

datatype eviction_policy =
    NoEviction
  | AllKeysLru
  | VolatileLru
  | AllKeysLfu
  | VolatileLfu
  | AllKeysRandom
  | VolatileRandom
  | VolatileTtl

record 'c cache =
  key_values :: "'c key_slot key_map"
  tracker :: memory_tracker
  stats :: cache_stats
  limit :: nat
  string_memory :: nat
  max_entry_size :: nat
  evict_enabled :: bool
  policy :: eviction_policy
  sample_size :: nat
  lfu_log_factor :: "8 word"
  lfu_decay_time :: "8 word"
  watch_gens :: "(bytes \<times> nat) list"

definition new_cache :: "(bytes \<Rightarrow> nat) \<Rightarrow> nat \<Rightarrow> nat \<Rightarrow> nat \<Rightarrow> 'c cache" where
  "new_cache h nshards mx mes =
     \<lparr>key_values = new_map h nshards, tracker = new_tracker mx (1024 * 1024),
      stats = \<lparr>cmd_get = 0, cmd_set = 0, cmd_del = 0, cmd_incr = 0, cmd_decr = 0, hits = 0, misses = 0,
               evicted_expired = 0, evicted_lru = 0, cas_hits = 0, cas_misses = 0, cas_badval = 0,
               store_too_large = 0, store_no_memory = 0\<rparr>,
      limit = mx, string_memory = 0, max_entry_size = mes, evict_enabled = True, policy = AllKeysLru,
      sample_size = 5, lfu_log_factor = 10, lfu_decay_time = 1, watch_gens = []\<rparr>"

section \<open>WATCH generations\<close>

definition watch_generation :: "bytes \<Rightarrow> 'c cache \<Rightarrow> 'c cache \<times> nat" where
  "watch_generation key c =
     (case map_of (watch_gens c) key of
        Some g \<Rightarrow> (c, g)
      | None \<Rightarrow> (c\<lparr>watch_gens := AList.update key 0 (watch_gens c)\<rparr>, 0))"

definition touch_watch_key :: "bytes \<Rightarrow> 'c cache \<Rightarrow> 'c cache" where
  "touch_watch_key key c =
     (case map_of (watch_gens c) key of
        Some g \<Rightarrow> c\<lparr>watch_gens := AList.update key (wrapping_add g 1) (watch_gens c)\<rparr>
      | None \<Rightarrow> c)"

definition touch_all_watch_keys :: "'c cache \<Rightarrow> 'c cache" where
  "touch_all_watch_keys c = c\<lparr>watch_gens := map (\<lambda>(k, g). (k, wrapping_add g 1)) (watch_gens c)\<rparr>"

section \<open>Removal and lazy expiry\<close>

text \<open>\<open>fetch_sub\<close> on a \<open>usize\<close>.\<close>

definition wrapping_sub :: "nat \<Rightarrow> nat \<Rightarrow> nat" where
  "wrapping_sub a b = (a + (usize_max + 1 - b)) mod (usize_max + 1)"

text \<open>What a slot is charged with: a string by its entry, a container with its key.\<close>

definition slot_charge :: "'c env \<Rightarrow> bytes \<Rightarrow> 'c key_value \<Rightarrow> nat" where
  "slot_charge E key v =
     (case v of
        VString e \<Rightarrow> entry_size e
      | _ \<Rightarrow> estimate_keyed_object (length key) (content_memory_size E v))"

definition free_string :: "nat \<Rightarrow> 'c cache \<Rightarrow> 'c cache" where
  "free_string sz c =
     c\<lparr>string_memory := wrapping_sub (string_memory c) sz, tracker := deallocate sz Cache (tracker c)\<rparr>"

definition remove_key_value_raw :: "'c env \<Rightarrow> bytes \<Rightarrow> 'c cache \<Rightarrow> 'c cache \<times> bool" where
  "remove_key_value_raw E key c =
     (let (m, slot) = map_remove key (key_values c); c1 = c\<lparr>key_values := m\<rparr>
      in case slot of
           None \<Rightarrow> (c1, False)
         | Some s \<Rightarrow>
             (case slot_value s of
                VString e \<Rightarrow> (free_string (entry_size e) c1, True)
              | v \<Rightarrow>
                  (c1\<lparr>tracker := deallocate (estimate_keyed_object (length key) (content_memory_size E v))
                                  (value_category v) (tracker c1)\<rparr>, True)))"

definition delete_without_clearing_expire :: "'c env \<Rightarrow> bytes \<Rightarrow> 'c cache \<Rightarrow> 'c cache \<times> bool" where
  "delete_without_clearing_expire E key c =
     (let (c1, deleted) = remove_key_value_raw E key c
      in (if deleted then touch_watch_key key c1 else c1, deleted))"

definition purge_if_expired :: "'c env \<Rightarrow> bytes \<Rightarrow> 'c cache \<Rightarrow> 'c cache \<times> bool" where
  "purge_if_expired E key c =
     (case map_get (key_values c) key of
        None \<Rightarrow> (c, False)
      | Some s \<Rightarrow>
          (case expires_at s of
             None \<Rightarrow> (c, False)
           | Some d \<Rightarrow>
               if now E < d then (c, False)
               else (fst (delete_without_clearing_expire E key c), True)))"

definition get_key_value :: "'c env \<Rightarrow> bytes \<Rightarrow> 'c cache \<Rightarrow> 'c cache \<times> 'c key_value option" where
  "get_key_value E key c =
     (let (c1, purged) = purge_if_expired E key c
      in (c1, if purged then None else map_option slot_value (map_get (key_values c1) key)))"

definition get_string_entry :: "'c env \<Rightarrow> bytes \<Rightarrow> 'c cache \<Rightarrow> entry option" where
  "get_string_entry E key c =
     (case map_get (key_values c) key of
        Some s \<Rightarrow> if \<not> slot_expired E s then (case slot_value s of VString e \<Rightarrow> Some e | _ \<Rightarrow> None) else None
      | None \<Rightarrow> None)"

definition key_type :: "'c env \<Rightarrow> bytes \<Rightarrow> 'c cache \<Rightarrow> 'c cache \<times> key_type" where
  "key_type E key c =
     (let (c1, v) = get_key_value E key c in (c1, case v of Some v \<Rightarrow> value_type v | None \<Rightarrow> TNone))"

definition exists_key :: "'c env \<Rightarrow> bytes \<Rightarrow> 'c cache \<Rightarrow> 'c cache \<times> bool" where
  "exists_key E key c = (let (c1, v) = get_key_value E key c in (c1, v \<noteq> None))"

definition ensure_type :: "'c env \<Rightarrow> bytes \<Rightarrow> key_type \<Rightarrow> 'c cache \<Rightarrow> 'c cache \<times> (err + unit)" where
  "ensure_type E key expected c =
     (let (c1, t) = key_type E key c
      in (c1, if t = TNone \<or> t = expected then Inr () else Inl WrongType))"

definition ensure_string_or_absent :: "'c env \<Rightarrow> bytes \<Rightarrow> 'c cache \<Rightarrow> 'c cache \<times> (err + unit)" where
  "ensure_string_or_absent E key c =
     (let (c1, purged) = purge_if_expired E key c
      in (c1, if purged then Inr ()
              else case map_get (key_values c1) key of
                     None \<Rightarrow> Inr ()
                   | Some s \<Rightarrow> (case slot_value s of VString _ \<Rightarrow> Inr () | _ \<Rightarrow> Inl WrongType)))"

definition account_typed_key_rename ::
  "bytes \<Rightarrow> bytes \<Rightarrow> nat \<Rightarrow> memory_category \<Rightarrow> 'c cache \<Rightarrow> 'c cache" where
  "account_typed_key_rename src dst content cat c =
     (if length src = length dst then c
      else c\<lparr>tracker := account (estimate_keyed_object (length dst) content) cat
                         (deallocate (estimate_keyed_object (length src) content) cat (tracker c))\<rparr>)"

section \<open>The charges of the keyspace\<close>

text \<open>
  The invariant of the cache: the map is well formed, every string entry carries the key it is stored
  under, and each category counter is the sum of the charges of the slots of that category.
\<close>

definition charge_at :: "'c env \<Rightarrow> memory_category \<Rightarrow> bytes \<Rightarrow> 'c key_slot option \<Rightarrow> nat" where
  "charge_at E cat key x =
     (case x of
        None \<Rightarrow> 0
      | Some s \<Rightarrow> if value_category (slot_value s) = cat then slot_charge E key (slot_value s) else 0)"

definition charge_sum :: "'c env \<Rightarrow> memory_category \<Rightarrow> 'c key_slot key_map \<Rightarrow> nat" where
  "charge_sum E cat m = km.total_of (\<lambda>k s. charge_at E cat k (Some s)) m"

definition keyspace_category :: "memory_category \<Rightarrow> bool" where
  "keyspace_category cat \<longleftrightarrow> cat \<noteq> PubSub \<and> cat \<noteq> Search"

definition own_key :: "bytes \<Rightarrow> 'c key_slot \<Rightarrow> bool" where
  "own_key key s \<longleftrightarrow> (case slot_value s of VString e \<Rightarrow> ekey e = key | _ \<Rightarrow> True)"

definition cache_ok :: "'c env \<Rightarrow> 'c cache \<Rightarrow> bool" where
  "cache_ok E c \<longleftrightarrow> map_wf (key_values c) \<and> mem_ok (tracker c)
     \<and> (\<forall>cat. keyspace_category cat \<longrightarrow> category_memory cat (tracker c) = charge_sum E cat (key_values c))
     \<and> string_memory c = charge_sum E Cache (key_values c)
     \<and> (\<forall>k s. map_get (key_values c) k = Some s \<longrightarrow> own_key k s)"

lemma cache_ok_fields:
  "cache_ok E c \<Longrightarrow> key_values c' = key_values c \<Longrightarrow> tracker c' = tracker c \<Longrightarrow> string_memory c' = string_memory c
     \<Longrightarrow> cache_ok E c'"
  by (simp add: cache_ok_def)

lemma cache_okD:
  assumes "cache_ok E c"
  shows "map_wf (key_values c)" "mem_ok (tracker c)" "string_memory c = charge_sum E Cache (key_values c)"
    "keyspace_category cat \<Longrightarrow> category_memory cat (tracker c) = charge_sum E cat (key_values c)"
    "map_get (key_values c) k = Some s \<Longrightarrow> own_key k s"
  using assms by (simp_all add: cache_ok_def)

lemma charge_sum_cong:
  assumes "map_wf m" "map_wf m'" "map_get m = map_get m'"
  shows "charge_sum E cat m = charge_sum E cat m'"
  using assms by (simp add: charge_sum_def km.total_of_dom)

lemma charge_at_case: "(case x of None \<Rightarrow> 0 | Some s \<Rightarrow> charge_at E cat k (Some s)) = charge_at E cat k x"
  by (cases x) (simp_all add: charge_at_def)

lemma charge_sum_upd:
  assumes "map_wf m" "map_wf m'" "map_get m' = (map_get m)(k := x)"
  shows "charge_sum E cat m' + charge_at E cat k (map_get m k) = charge_sum E cat m + charge_at E cat k x"
proof (cases x)
  case None
  have "charge_sum E cat m' = charge_sum E cat (fst (map_remove k m))"
    using assms None by (intro charge_sum_cong) (simp_all add: map_remove_facts)
  moreover have "charge_sum E cat (fst (map_remove k m)) + charge_at E cat k (map_get m k) = charge_sum E cat m"
    using km.total_of_del [OF assms(1), of "\<lambda>k s. charge_at E cat k (Some s)" k]
    by (simp add: charge_sum_def charge_at_case)
  ultimately show ?thesis using None by (simp add: charge_at_def)
next
  case (Some s)
  have "charge_sum E cat m' = charge_sum E cat (fst (map_insert k s m))"
    using assms Some by (intro charge_sum_cong) (simp_all add: map_insert_facts)
  then show ?thesis
    using km.total_of_put [OF assms(1), of "\<lambda>k s. charge_at E cat k (Some s)" k s] Some
    by (simp add: charge_sum_def charge_at_case)
qed

text \<open>
  The one lemma all operations use: a new value, or none, under one key, with the counters moved
  from the old charge to the new one.
\<close>

lemma cache_ok_update:
  assumes "cache_ok E c" "map_wf (key_values c')" "mem_ok (tracker c')"
    and "map_get (key_values c') = (map_get (key_values c))(k := x)"
    and "\<And>cat. keyspace_category cat \<Longrightarrow>
      category_memory cat (tracker c') + charge_at E cat k (map_get (key_values c) k) =
      category_memory cat (tracker c) + charge_at E cat k x"
    and "string_memory c' + charge_at E Cache k (map_get (key_values c) k) = string_memory c + charge_at E Cache k x"
    and "\<And>s. x = Some s \<Longrightarrow> own_key k s"
  shows "cache_ok E c'"
proof -
  note d = cache_okD [OF assms(1)]
  have sum: "charge_sum E cat (key_values c') + charge_at E cat k (map_get (key_values c) k) =
      charge_sum E cat (key_values c) + charge_at E cat k x" for cat
    by (rule charge_sum_upd [OF d(1) assms(2,4)])
  have "category_memory cat (tracker c') = charge_sum E cat (key_values c')" if "keyspace_category cat" for cat
    using assms(5) [OF that] sum [of cat] d(4) [OF that] by simp
  moreover have "string_memory c' = charge_sum E Cache (key_values c')"
    using assms(6) sum [of Cache] d(3) by simp
  moreover have "own_key j s" if "map_get (key_values c') j = Some s" for j s
    using that assms(4,7) d(5) by (cases "j = k") auto
  ultimately show ?thesis using assms(2,3) by (simp add: cache_ok_def)
qed

lemma charge_le:
  assumes "cache_ok E c" "map_get (key_values c) k = Some s" "cat = value_category (slot_value s)"
  shows "slot_charge E k (slot_value s) \<le> category_memory cat (tracker c)"
proof -
  note d = cache_okD [OF assms(1)]
  have "keyspace_category cat" using assms(3) by (cases "slot_value s") (simp_all add: keyspace_category_def)
  moreover have "slot_charge E k (slot_value s) \<le> charge_sum E cat (key_values c)"
    using charge_sum_upd [OF d(1) map_remove_facts(1,2) [OF d(1)], of E cat k] assms(2,3)
    by (simp add: charge_at_def)
  ultimately show ?thesis using d(4) by simp
qed

lemma string_memory_le:
  assumes "cache_ok E c"
  shows "string_memory c = category_memory Cache (tracker c)" "string_memory c \<le> usize_max"
proof -
  note d = cache_okD [OF assms]
  show e: "string_memory c = category_memory Cache (tracker c)" using d(3) d(4) [of Cache] by (simp add: keyspace_category_def)
  show "string_memory c \<le> usize_max" using d(2) category_le_sum [of Cache "tracker c"] unfolding e by (simp add: mem_ok_def)
qed

lemma wrapping_sub_small: "b \<le> a \<Longrightarrow> a \<le> usize_max \<Longrightarrow> wrapping_sub a b = a - b"
  unfolding wrapping_sub_def
proof -
  assume "b \<le> a" "a \<le> usize_max"
  then have "a + (usize_max + 1 - b) = (a - b) + (usize_max + 1)" "a - b < usize_max + 1" by simp_all
  then show "(a + (usize_max + 1 - b)) mod (usize_max + 1) = a - b" by (metis mod_add_self2 mod_less)
qed

lemma deallocate_category_memory [simp]:
  "category_memory cat (deallocate sz c t) = (if cat = c then category_memory cat t - sz else category_memory cat t)"
  by (simp add: deallocate_def deallocate_category_def deallocate_total_def Let_def)

lemma account_category_memory:
  "mem_ok t \<Longrightarrow> total t + sz \<le> usize_max \<Longrightarrow>
     category_memory cat (account sz c t) = (if cat = c then category_memory cat t + sz else category_memory cat t)"
  by (simp add: account_ok(1))

lemma value_keyspace_category [simp]: "keyspace_category (value_category v)"
  by (cases v) (simp_all add: keyspace_category_def)

section \<open>The visible keyspace\<close>

text \<open>
  What a client can see: the slots whose deadline has not passed. Lazy expiry may drop the others at
  any time without changing this view.
\<close>

definition view :: "'c env \<Rightarrow> 'c cache \<Rightarrow> bytes \<Rightarrow> 'c key_slot option" where
  "view E c key =
     (case map_get (key_values c) key of
        Some s \<Rightarrow> if slot_expired E s then None else Some s
      | None \<Rightarrow> None)"

text \<open>The settings that no data operation changes.\<close>

definition same_settings :: "'c cache \<Rightarrow> 'c cache \<Rightarrow> bool" where
  "same_settings c c' \<longleftrightarrow> limit c' = limit c \<and> max_entry_size c' = max_entry_size c \<and> policy c' = policy c
     \<and> evict_enabled c' = evict_enabled c \<and> sample_size c' = sample_size c
     \<and> max_memory (tracker c') = max_memory (tracker c)"

lemma same_settings_refl [simp]: "same_settings c c"
  by (simp add: same_settings_def)

lemma same_settings_trans: "same_settings c c1 \<Longrightarrow> same_settings c1 c2 \<Longrightarrow> same_settings c c2"
  by (simp add: same_settings_def)

lemma deallocate_max [simp]: "max_memory (deallocate sz cat t) = max_memory t"
  by (simp add: deallocate_def deallocate_category_def deallocate_total_def Let_def)

lemma account_max [simp]: "max_memory (account sz cat t) = max_memory t"
  by (simp add: account_def account_total_def account_category_def)

lemma free_string_fields [simp]:
  "key_values (free_string sz c) = key_values c" "watch_gens (free_string sz c) = watch_gens c"
  "same_settings c' (free_string sz c) = same_settings c' c" "stats (free_string sz c) = stats c"
  "limit (free_string sz c) = limit c"
  by (simp_all add: free_string_def same_settings_def)

lemma touch_watch_key_fields [simp]:
  "key_values (touch_watch_key k c) = key_values c" "tracker (touch_watch_key k c) = tracker c"
  "string_memory (touch_watch_key k c) = string_memory c" "same_settings c' (touch_watch_key k c) = same_settings c' c"
  "limit (touch_watch_key k c) = limit c"
  by (simp_all add: touch_watch_key_def same_settings_def split: option.splits)

lemma cache_ok_touch [simp]: "cache_ok E (touch_watch_key k c) = cache_ok E c"
  by (simp add: cache_ok_def)

lemma cache_ok_stats [simp]: "cache_ok E (c\<lparr>stats := st\<rparr>) = cache_ok E c"
  by (simp add: cache_ok_def)

lemma view_fields: "key_values c' = key_values c \<Longrightarrow> view E c' = view E c"
  by (simp add: fun_eq_iff view_def)

lemma view_stats [simp]: "view E (c\<lparr>stats := st\<rparr>) = view E c"
  by (rule view_fields) simp

text \<open>Freeing the slot under a key, with its charge.\<close>

lemma cache_ok_free:
  assumes "cache_ok E c" "map_get (key_values c) k = Some s"
    and "c' = c\<lparr>key_values := fst (map_remove k (key_values c)),
           tracker := deallocate (slot_charge E k (slot_value s)) (value_category (slot_value s)) (tracker c),
           string_memory := (if value_category (slot_value s) = Cache
             then wrapping_sub (string_memory c) (slot_charge E k (slot_value s)) else string_memory c)\<rparr>"
  shows "cache_ok E c'"
proof (rule cache_ok_update [OF assms(1), where k = k and x = None])
  note d = cache_okD [OF assms(1)]
  let ?v = "slot_value s"
  have le: "slot_charge E k ?v \<le> category_memory (value_category ?v) (tracker c)" by (rule charge_le [OF assms(1,2) refl])
  show "map_wf (key_values c')" "map_get (key_values c') = (map_get (key_values c))(k := None)" "mem_ok (tracker c')"
    by (simp_all add: assms(3) map_remove_facts [OF d(1)] deallocate_ok(2) [OF d(2)])
  show "category_memory cat (tracker c') + charge_at E cat k (map_get (key_values c) k) =
      category_memory cat (tracker c) + charge_at E cat k None" if "keyspace_category cat" for cat
    using le by (auto simp: assms(2,3) charge_at_def)
  show "string_memory c' + charge_at E Cache k (map_get (key_values c) k) = string_memory c + charge_at E Cache k None"
    using le string_memory_le [OF assms(1)] by (auto simp: assms(2,3) charge_at_def wrapping_sub_small)
qed simp_all

lemma remove_raw_spec:
  assumes "cache_ok E c" "remove_key_value_raw E key c = (c', deleted)"
  shows "cache_ok E c'" "map_get (key_values c') = (map_get (key_values c))(key := None)"
    "deleted \<longleftrightarrow> map_get (key_values c) key \<noteq> None" "same_settings c c'" "watch_gens c' = watch_gens c"
proof -
  note d = cache_okD [OF assms(1)]
  note r = map_remove_facts [OF d(1), of key]
  have all: "cache_ok E c' \<and> map_get (key_values c') = (map_get (key_values c))(key := None)
    \<and> deleted = (map_get (key_values c) key \<noteq> None) \<and> same_settings c c' \<and> watch_gens c' = watch_gens c"
  proof (cases "map_get (key_values c) key")
    case None
    then have e: "c' = c\<lparr>key_values := fst (map_remove key (key_values c))\<rparr>" "\<not> deleted"
      using assms(2) r(3) by (auto simp: remove_key_value_raw_def case_prod_beta Let_def)
    have "cache_ok E c'"
      by (rule cache_ok_update [OF assms(1), where k = key and x = None]) (auto simp: e r None d charge_at_def)
    then show ?thesis using e None r(2) by (simp add: same_settings_def)
  next
    case (Some s)
    have e: "c' = c\<lparr>key_values := fst (map_remove key (key_values c)),
           tracker := deallocate (slot_charge E key (slot_value s)) (value_category (slot_value s)) (tracker c),
           string_memory := (if value_category (slot_value s) = Cache
             then wrapping_sub (string_memory c) (slot_charge E key (slot_value s)) else string_memory c)\<rparr>" deleted
      using assms(2) r(3) Some
      by (cases "slot_value s"; auto simp: remove_key_value_raw_def case_prod_beta Let_def slot_charge_def free_string_def)+
    then show ?thesis
      using cache_ok_free [OF assms(1) Some e(1)] Some by (simp add: r same_settings_def)
  qed
  then show "cache_ok E c'" "map_get (key_values c') = (map_get (key_values c))(key := None)"
    "deleted \<longleftrightarrow> map_get (key_values c) key \<noteq> None" "same_settings c c'" "watch_gens c' = watch_gens c" by simp_all
qed

lemma purge_spec:
  assumes "cache_ok E c" "purge_if_expired E key c = (c', purged)"
  shows "cache_ok E c'" "view E c' = view E c" "same_settings c c'"
    "purged \<longleftrightarrow> (\<exists>s. map_get (key_values c) key = Some s \<and> slot_expired E s)"
    "map_get (key_values c') = (if purged then (map_get (key_values c))(key := None) else map_get (key_values c))"
    "map_get (key_values c') key = view E c key" "\<not> purged \<Longrightarrow> c' = c"
proof -
  show p: "purged \<longleftrightarrow> (\<exists>s. map_get (key_values c) key = Some s \<and> slot_expired E s)"
    using assms(2)
    by (cases "map_get (key_values c) key") (auto simp: purge_if_expired_def slot_expired_def split: option.splits if_splits)
  obtain c1 d where r: "remove_key_value_raw E key c = (c1, d)" by fastforce
  note rs = remove_raw_spec [OF assms(1) r]
  have c': "c' = (if purged then touch_watch_key key c1 else c)"
    using assms(2) rs(3) r
    by (cases "map_get (key_values c) key")
      (auto simp: purge_if_expired_def delete_without_clearing_expire_def split: option.splits if_splits)
  show "cache_ok E c'" "same_settings c c'" using rs assms(1) by (simp_all add: c')
  show m: "map_get (key_values c') = (if purged then (map_get (key_values c))(key := None) else map_get (key_values c))"
    using rs(2) by (simp add: c')
  show "view E c' = view E c" using p by (auto simp: fun_eq_iff view_def m split: option.splits)
  show "map_get (key_values c') key = view E c key" using p by (auto simp: view_def m split: option.splits)
  show "\<not> purged \<Longrightarrow> c' = c" by (simp add: c')
qed

lemma get_key_value_spec:
  assumes "cache_ok E c" "get_key_value E key c = (c', v)"
  shows "cache_ok E c'" "view E c' = view E c" "same_settings c c'" "v = map_option slot_value (view E c key)"
    "map_get (key_values c') key = view E c key"
proof -
  obtain purged where p: "purge_if_expired E key c = (c', purged)" "v = (if purged then None else map_option slot_value (map_get (key_values c') key))"
    using assms(2) by (auto simp: get_key_value_def split: prod.splits)
  note s = purge_spec [OF assms(1) p(1)]
  show "cache_ok E c'" "view E c' = view E c" "same_settings c c'" "map_get (key_values c') key = view E c key"
    by (fact s)+
  show "v = map_option slot_value (view E c key)"
    using p(2) s(4,6) by (auto simp: view_def split: option.splits)
qed

definition type_of_slot :: "'c key_slot option \<Rightarrow> key_type" where
  "type_of_slot x = (case x of None \<Rightarrow> TNone | Some s \<Rightarrow> value_type (slot_value s))"

lemma key_type_spec:
  assumes "cache_ok E c" "key_type E key c = (c', t)"
  shows "cache_ok E c'" "view E c' = view E c" "same_settings c c'" "t = type_of_slot (view E c key)"
    "map_get (key_values c') key = view E c key"
proof -
  obtain v where g: "get_key_value E key c = (c', v)" "t = (case v of Some v \<Rightarrow> value_type v | None \<Rightarrow> TNone)"
    using assms(2) by (auto simp: key_type_def split: prod.splits)
  note s = get_key_value_spec [OF assms(1) g(1)]
  show "cache_ok E c'" "view E c' = view E c" "same_settings c c'" "map_get (key_values c') key = view E c key"
    by (fact s)+
  show "t = type_of_slot (view E c key)" by (cases "view E c key") (simp_all add: g(2) s(4) type_of_slot_def)
qed

lemma value_type_not_TNone [simp]: "value_type v \<noteq> TNone"
  by (cases v) simp_all

lemma exists_key_spec:
  assumes "cache_ok E c" "exists_key E key c = (c', b)"
  shows "cache_ok E c'" "view E c' = view E c" "same_settings c c'" "b \<longleftrightarrow> view E c key \<noteq> None"
    "map_get (key_values c') key = view E c key"
proof -
  obtain v where g: "get_key_value E key c = (c', v)" "b \<longleftrightarrow> v \<noteq> None"
    using assms(2) by (auto simp: exists_key_def split: prod.splits)
  note s = get_key_value_spec [OF assms(1) g(1)]
  show "cache_ok E c'" "view E c' = view E c" "same_settings c c'" "map_get (key_values c') key = view E c key"
    by (fact s)+
  show "b \<longleftrightarrow> view E c key \<noteq> None" by (simp add: g(2) s(4))
qed

lemma ensure_string_spec:
  assumes "cache_ok E c" "ensure_string_or_absent E key c = (c', r)"
  shows "cache_ok E c'" "view E c' = view E c" "same_settings c c'"
    "r = (if type_of_slot (view E c key) \<in> {TNone, TString} then Inr () else Inl WrongType)"
    "map_get (key_values c') key = view E c key"
proof -
  obtain purged where p: "purge_if_expired E key c = (c', purged)"
    "r = (if purged then Inr () else case map_get (key_values c') key of None \<Rightarrow> Inr ()
         | Some s \<Rightarrow> (case slot_value s of VString _ \<Rightarrow> Inr () | _ \<Rightarrow> Inl WrongType))"
    using assms(2) by (auto simp: ensure_string_or_absent_def split: prod.splits)
  note s = purge_spec [OF assms(1) p(1)]
  show "cache_ok E c'" "view E c' = view E c" "same_settings c c'" "map_get (key_values c') key = view E c key"
    by (fact s)+
  have "purged \<Longrightarrow> view E c key = None" using s(4) by (auto simp: view_def)
  then show "r = (if type_of_slot (view E c key) \<in> {TNone, TString} then Inr () else Inl WrongType)"
    unfolding p(2) s(6) by (auto simp: type_of_slot_def split: option.splits key_value.splits)
qed

end
