(* ===== verification/Eviction.thy ===== *)
theory Eviction
  imports Keyspace
begin

text \<open>
  Removal of typed keys and eviction under a memory limit: \<open>remove_hash\<close> and its siblings in
  \<open>src/src/cache/hashes.rs\<close>, \<open>lists.rs\<close>, \<open>sets.rs\<close>, \<open>sorted_sets.rs\<close>, \<open>geo_sets.rs\<close> and \<open>streams.rs\<close>,
  and \<open>src/src/cache/eviction.rs\<close>: the policies, the sampling of candidates, the choice of the
  victim, the eviction loop and the expiry sweeps. With no search index defined the number of search
  documents is 0, so the sample budget goes to keys alone. The sampling cycle for strings, which runs
  against a time budget, is not modelled.
\<close>

section \<open>Policies\<close>

definition policy_from_u8 :: "nat \<Rightarrow> eviction_policy" where
  "policy_from_u8 v =
     (if v = 0 then NoEviction else if v = 1 then AllKeysLru else if v = 2 then VolatileLru
      else if v = 3 then AllKeysLfu else if v = 4 then VolatileLfu else if v = 5 then AllKeysRandom
      else if v = 6 then VolatileRandom else if v = 7 then VolatileTtl else AllKeysLru)"

fun policy_u8 :: "eviction_policy \<Rightarrow> nat" where
  "policy_u8 NoEviction = 0"
| "policy_u8 AllKeysLru = 1"
| "policy_u8 VolatileLru = 2"
| "policy_u8 AllKeysLfu = 3"
| "policy_u8 VolatileLfu = 4"
| "policy_u8 AllKeysRandom = 5"
| "policy_u8 VolatileRandom = 6"
| "policy_u8 VolatileTtl = 7"

definition volatile_only :: "eviction_policy \<Rightarrow> bool" where
  "volatile_only p \<longleftrightarrow> p \<in> {VolatileLru, VolatileLfu, VolatileRandom, VolatileTtl}"

definition set_eviction_policy :: "eviction_policy \<Rightarrow> 'c cache \<Rightarrow> 'c cache" where
  "set_eviction_policy p c = c\<lparr>policy := p, evict_enabled := (p \<noteq> NoEviction)\<rparr>"

definition eviction_allowed :: "'c cache \<Rightarrow> bool" where
  "eviction_allowed c \<longleftrightarrow> policy c \<noteq> NoEviction \<and> evict_enabled c"

definition set_evict :: "bool \<Rightarrow> 'c cache \<Rightarrow> 'c cache" where
  "set_evict enabled c =
     (if enabled then
        (if policy c = NoEviction then set_eviction_policy AllKeysLru c else c\<lparr>evict_enabled := True\<rparr>)
      else set_eviction_policy NoEviction c)"

section \<open>Removal of typed keys\<close>

text \<open>The common body: take the slot out, free it if it has the type, put it back otherwise.\<close>

definition remove_of_type :: "'c env \<Rightarrow> key_type \<Rightarrow> memory_category \<Rightarrow> bytes \<Rightarrow> 'c cache \<Rightarrow> 'c cache \<times> bool" where
  "remove_of_type E t cat key c =
     (let (m, slot) = map_remove key (key_values c)
      in case slot of
           None \<Rightarrow> (c\<lparr>key_values := m\<rparr>, False)
         | Some s \<Rightarrow>
             if value_type (slot_value s) = t then
               (c\<lparr>key_values := m,
                  tracker := deallocate (estimate_keyed_object (length key) (content_memory_size E (slot_value s)))
                               cat (tracker c)\<rparr>, True)
             else (c\<lparr>key_values := fst (map_insert key s m)\<rparr>, False))"

definition remove_hash :: "'c env \<Rightarrow> bytes \<Rightarrow> 'c cache \<Rightarrow> 'c cache \<times> bool" where
  "remove_hash E = remove_of_type E THash Hashes"

definition remove_list :: "'c env \<Rightarrow> bytes \<Rightarrow> 'c cache \<Rightarrow> 'c cache \<times> bool" where
  "remove_list E = remove_of_type E TList Lists"

definition remove_set :: "'c env \<Rightarrow> bytes \<Rightarrow> 'c cache \<Rightarrow> 'c cache \<times> bool" where
  "remove_set E = remove_of_type E TSet Sets"

definition remove_sorted_set :: "'c env \<Rightarrow> bytes \<Rightarrow> 'c cache \<Rightarrow> 'c cache \<times> bool" where
  "remove_sorted_set E = remove_of_type E TZSet SortedSets"

definition remove_geo_set :: "'c env \<Rightarrow> bytes \<Rightarrow> 'c cache \<Rightarrow> 'c cache \<times> bool" where
  "remove_geo_set E = remove_of_type E TGeo GeoSets"

definition remove_stream :: "'c env \<Rightarrow> bytes \<Rightarrow> 'c cache \<Rightarrow> 'c cache \<times> bool" where
  "remove_stream E = remove_of_type E TStream Streams"

section \<open>Candidates and victims\<close>

record evict_candidate =
  cand_key :: bytes
  cand_type :: key_type
  cand_size :: nat
  cand_access :: int
  cand_lfu :: nat
  cand_expires :: "int option"

definition cold_instant :: "'c env \<Rightarrow> int" where
  "cold_instant E = now E - 86400 * 365 * 10 * 1000000000"

definition typed_candidate :: "'c env \<Rightarrow> bytes \<Rightarrow> key_type \<Rightarrow> nat \<Rightarrow> int option \<Rightarrow> evict_candidate" where
  "typed_candidate E key t sz expi =
     \<lparr>cand_key = key, cand_type = t, cand_size = sz, cand_access = cold_instant E, cand_lfu = 0,
      cand_expires = expi\<rparr>"

definition candidate_of :: "'c env \<Rightarrow> 8 word \<Rightarrow> bytes \<Rightarrow> 'c key_slot \<Rightarrow> evict_candidate" where
  "candidate_of E decay k s =
     (case slot_value s of
        VString e \<Rightarrow>
          \<lparr>cand_key = k, cand_type = TString, cand_size = entry_size e, cand_access = last_access_time e,
           cand_lfu = lfu_freq E decay e, cand_expires = expires_at s\<rparr>
      | v \<Rightarrow>
          typed_candidate E k (value_type v) (estimate_keyed_object (length k) (content_memory_size E v))
            (expires_at s))"

definition sample_eviction_candidates :: "'c env \<Rightarrow> rng \<Rightarrow> 'c cache \<Rightarrow> evict_candidate list \<times> rng" where
  "sample_eviction_candidates E r c =
     (let volatile = volatile_only (policy c);
          n = max (sample_size c) 1;
          key_draw = (if volatile then max (wrap_usize (n * 4)) n else n);
          (drawn, r') = get_n_random key_draw (key_values c) r;
          out = map (\<lambda>(k, s). candidate_of E (lfu_decay_time c) k s)
                  (filter (\<lambda>(k, s). \<not> slot_expired E s \<and> \<not> (volatile \<and> expires_at s = None)) drawn);
          cap = max (saturating_mul n 2) n
      in (if length out > cap then take cap (map (\<lambda>i. out ! i) (shuffled E (length out))) else out, r'))"

text \<open>\<open>min_by_key\<close>: the first of the smallest.\<close>

fun first_min :: "('a \<Rightarrow> 'a \<Rightarrow> bool) \<Rightarrow> 'a list \<Rightarrow> 'a option" where
  "first_min lt [] = None"
| "first_min lt (x # xs) =
     (case first_min lt xs of None \<Rightarrow> Some x | Some y \<Rightarrow> Some (if lt y x then y else x))"

definition lru_before :: "evict_candidate \<Rightarrow> evict_candidate \<Rightarrow> bool" where
  "lru_before a b \<longleftrightarrow> cand_access a < cand_access b \<or> cand_access a = cand_access b \<and> cand_size b < cand_size a"

definition lfu_before :: "evict_candidate \<Rightarrow> evict_candidate \<Rightarrow> bool" where
  "lfu_before a b \<longleftrightarrow> cand_lfu a < cand_lfu b \<or> cand_lfu a = cand_lfu b \<and> cand_size b < cand_size a"

definition ttl_key :: "'c env \<Rightarrow> evict_candidate \<Rightarrow> int" where
  "ttl_key E a =
     (case cand_expires a of Some d \<Rightarrow> d | None \<Rightarrow> now E + int (usize_max div 4) * 1000000000)"

definition pick_victim ::
  "'c env \<Rightarrow> eviction_policy \<Rightarrow> evict_candidate list \<Rightarrow> rng \<Rightarrow> evict_candidate option \<times> rng" where
  "pick_victim E p cs r =
     (case p of
        NoEviction \<Rightarrow> (None, r)
      | AllKeysLru \<Rightarrow> (first_min lru_before cs, r)
      | VolatileLru \<Rightarrow> (first_min lru_before cs, r)
      | AllKeysLfu \<Rightarrow> (first_min lfu_before cs, r)
      | VolatileLfu \<Rightarrow> (first_min lfu_before cs, r)
      | VolatileTtl \<Rightarrow> (first_min (\<lambda>a b. ttl_key E a < ttl_key E b) cs, r)
      | _ \<Rightarrow> (if cs = [] then (None, r) else let (i, r') = gen_range (length cs) r in (Some (cs ! i), r')))"

definition evict_string :: "bytes \<Rightarrow> 'c cache \<Rightarrow> 'c cache \<times> nat option" where
  "evict_string key c =
     (let (m, slot) = map_remove key (key_values c)
      in case slot of
           None \<Rightarrow> (c\<lparr>key_values := m\<rparr>, None)
         | Some s \<Rightarrow>
             (case slot_value s of
                VString e \<Rightarrow> (free_string (entry_size e) (c\<lparr>key_values := m\<rparr>), Some (entry_size e))
              | _ \<Rightarrow> (c\<lparr>key_values := fst (map_insert key s m)\<rparr>, None)))"

definition evict_candidate_key :: "'c env \<Rightarrow> evict_candidate \<Rightarrow> 'c cache \<Rightarrow> 'c cache \<times> nat option" where
  "evict_candidate_key E v c =
     (let typed = (\<lambda>(c', removed). (c', if removed then Some (cand_size v) else None))
      in case cand_type v of
           TString \<Rightarrow> evict_string (cand_key v) c
         | TZSet \<Rightarrow> typed (remove_sorted_set E (cand_key v) c)
         | TGeo \<Rightarrow> typed (remove_geo_set E (cand_key v) c)
         | THash \<Rightarrow> typed (remove_hash E (cand_key v) c)
         | TList \<Rightarrow> typed (remove_list E (cand_key v) c)
         | TSet \<Rightarrow> typed (remove_set E (cand_key v) c)
         | TStream \<Rightarrow> typed (remove_stream E (cand_key v) c)
         | TNone \<Rightarrow> (c, None))"

text \<open>
  The eviction loop; the outer \<open>None\<close> is a loop that does not end. The result is the cache and
  whether enough was freed.
\<close>

partial_function (option) evict_loop ::
  "'c env \<Rightarrow> nat \<Rightarrow> nat \<Rightarrow> nat \<Rightarrow> rng \<Rightarrow> 'c cache \<Rightarrow> ('c cache \<times> (err + unit)) option" where
  "evict_loop E needed freed empty_rounds r c =
     (if freed \<ge> needed then Some (c, Inr ())
      else
        let (cands, r1) = sample_eviction_candidates E r c
        in if cands = [] then
             if empty_rounds + 1 \<ge> 3 then Some (c, Inl OutOfMemory)
             else evict_loop E needed freed (empty_rounds + 1) r1 c
           else
             let (victim, r2) = pick_victim E (policy c) cands r1
             in case victim of
                  None \<Rightarrow> Some (c, Inl OutOfMemory)
                | Some v \<Rightarrow>
                    let (c1, got) = evict_candidate_key E v c
                    in case got of
                         None \<Rightarrow> evict_loop E needed freed 0 r2 c1
                       | Some b \<Rightarrow>
                           evict_loop E needed (freed + b) 0 r2
                             (touch_watch_key (cand_key v)
                                (c1\<lparr>stats := (stats c1)\<lparr>evicted_lru := evicted_lru (stats c1) + 1\<rparr>\<rparr>)))"

definition evict_memory :: "'c env \<Rightarrow> nat \<Rightarrow> 'c cache \<Rightarrow> ('c cache \<times> (err + unit)) option" where
  "evict_memory E needed c =
     (if policy c = NoEviction then Some (c, Inl OutOfMemory)
      else evict_loop E needed 0 0 (random E) c)"

section \<open>Expiry sweeps\<close>

definition apply_expire_accounting :: "nat \<Rightarrow> nat \<Rightarrow> 'c cache \<Rightarrow> 'c cache" where
  "apply_expire_accounting cnt bytes_freed c =
     (let c1 = (if bytes_freed > 0 then free_string bytes_freed c else c)
      in c1\<lparr>stats := (stats c1)\<lparr>evicted_expired := evicted_expired (stats c1) + cnt\<rparr>\<rparr>)"

fun sweep_strings :: "'c env \<Rightarrow> bytes list \<Rightarrow> 'c key_slot key_map \<Rightarrow> 'c key_slot key_map \<times> nat \<times> nat" where
  "sweep_strings E [] m = (m, 0, 0)"
| "sweep_strings E (k # ks) m =
     (let (m1, slot) = map_remove k m
      in case slot of
           None \<Rightarrow> sweep_strings E ks m1
         | Some s \<Rightarrow>
             (case slot_value s of
                VString e \<Rightarrow>
                  if slot_expired E s then
                    (let (m2, cnt, freed) = sweep_strings E ks m1 in (m2, cnt + 1, freed + entry_size e))
                  else sweep_strings E ks (fst (map_insert k s m1))
              | _ \<Rightarrow> sweep_strings E ks (fst (map_insert k s m1))))"

definition string_sweep_expired :: "'c env \<Rightarrow> 'c cache \<Rightarrow> 'c cache \<times> nat \<times> nat" where
  "string_sweep_expired E c =
     (let expired = map fst (filter (\<lambda>(k, s). value_type (slot_value s) = TString \<and> slot_expired E s)
                       (entries (key_values c)));
          (m, cnt, freed) = sweep_strings E expired (key_values c)
      in (c\<lparr>key_values := m\<rparr>, cnt, freed))"

fun sweep_typed :: "'c env \<Rightarrow> bytes list \<Rightarrow> 'c cache \<Rightarrow> 'c cache \<times> nat" where
  "sweep_typed E [] c = (c, 0)"
| "sweep_typed E (k # ks) c =
     (let (c1, purged) = purge_if_expired E k c
      in if purged then
           (let (c2, cnt) = sweep_typed E ks
                  (c1\<lparr>stats := (stats c1)\<lparr>evicted_expired := evicted_expired (stats c1) + 1\<rparr>\<rparr>)
            in (c2, cnt + 1))
         else sweep_typed E ks c1)"

definition sweep_typed_expired :: "'c env \<Rightarrow> 'c cache \<Rightarrow> 'c cache \<times> nat" where
  "sweep_typed_expired E c =
     sweep_typed E
       (map fst (filter (\<lambda>(k, s). is_typed_container (slot_value s) \<and> slot_expired E s) (entries (key_values c)))) c"

definition sweep :: "'c env \<Rightarrow> 'c cache \<Rightarrow> 'c cache \<times> nat" where
  "sweep E c =
     (let (c1, cnt, freed) = string_sweep_expired E c;
          c2 = (if cnt > 0 then apply_expire_accounting cnt freed c1 else c1);
          (c3, typed) = sweep_typed_expired E c2
      in (c3, cnt + typed))"

text \<open>The sampling companion for typed keys.\<close>

fun expired_candidates :: "'c env \<Rightarrow> nat \<Rightarrow> nat \<Rightarrow> 'c cache \<Rightarrow> bytes list \<Rightarrow> rng \<Rightarrow> bytes list" where
  "expired_candidates E 0 samples c acc r = acc"
| "expired_candidates E (Suc attempts) samples c acc r =
     (if length acc \<ge> samples then acc
      else case get_random (key_values c) r of
             (None, _) \<Rightarrow> acc
           | (Some (k, s), r') \<Rightarrow>
               expired_candidates E attempts samples c
                 (if is_typed_container (slot_value s) \<and> slot_expired E s then acc @ [k] else acc) r')"

fun expire_typed_loop :: "'c env \<Rightarrow> bytes list \<Rightarrow> 'c cache \<Rightarrow> 'c cache \<times> nat" where
  "expire_typed_loop E [] c = (c, 0)"
| "expire_typed_loop E (k # ks) c =
     (let still = (case map_get (key_values c) k of
                     Some s \<Rightarrow> is_typed_container (slot_value s) \<and> slot_expired E s
                   | None \<Rightarrow> False)
      in if still then
           (let (c1, deleted) = delete_without_clearing_expire E k c
            in if deleted then
                 (let (c2, cnt) = expire_typed_loop E ks
                        (c1\<lparr>stats := (stats c1)\<lparr>evicted_expired := evicted_expired (stats c1) + 1\<rparr>\<rparr>)
                  in (c2, cnt + 1))
               else expire_typed_loop E ks c1)
         else expire_typed_loop E ks c)"

definition active_expire_typed :: "'c env \<Rightarrow> nat \<Rightarrow> 'c cache \<Rightarrow> 'c cache \<times> nat" where
  "active_expire_typed E samples c =
     (if samples = 0 then (c, 0)
      else expire_typed_loop E
             (expired_candidates E (max (saturating_mul samples 5) samples) samples c [] (random E)) c)"

section \<open>Freeing one key\<close>

text \<open>
  The effect of every removal on the cache: the slot under one key is gone, its charge is released,
  and nothing else has changed.
\<close>

definition freed_key :: "'c env \<Rightarrow> bytes \<Rightarrow> 'c key_slot \<Rightarrow> 'c cache \<Rightarrow> 'c cache \<Rightarrow> bool" where
  "freed_key E k s c c' \<longleftrightarrow> cache_ok E c' \<and> same_settings c c'
     \<and> map_get (key_values c') = (map_get (key_values c))(k := None)
     \<and> total (tracker c') + slot_charge E k (slot_value s) = total (tracker c)"

definition unchanged_keys :: "'c env \<Rightarrow> 'c cache \<Rightarrow> 'c cache \<Rightarrow> bool" where
  "unchanged_keys E c c' \<longleftrightarrow> cache_ok E c' \<and> same_settings c c' \<and> map_get (key_values c') = map_get (key_values c)
     \<and> tracker c' = tracker c"

lemma freed_key_free:
  assumes "cache_ok E c" "map_get (key_values c) k = Some s"
    and "c' = c\<lparr>key_values := fst (map_remove k (key_values c)),
           tracker := deallocate (slot_charge E k (slot_value s)) (value_category (slot_value s)) (tracker c),
           string_memory := (if value_category (slot_value s) = Cache
             then wrapping_sub (string_memory c) (slot_charge E k (slot_value s)) else string_memory c)\<rparr>"
  shows "freed_key E k s c c'"
proof -
  note d = cache_okD [OF assms(1)]
  let ?v = "slot_value s"
  have le: "slot_charge E k ?v \<le> category_memory (value_category ?v) (tracker c)" by (rule charge_le [OF assms(1,2) refl])
  moreover have "category_memory (value_category ?v) (tracker c) \<le> total (tracker c)"
    using d(2) category_le_sum [of "value_category ?v" "tracker c"] by (simp add: mem_ok_def)
  ultimately have "total (tracker c') + slot_charge E k ?v = total (tracker c)"
    by (simp add: assms(3) deallocate_ok(1) [OF d(2)] min_absorb2)
  then show ?thesis
    using cache_ok_free [OF assms] by (simp add: freed_key_def assms(3) map_remove_facts [OF d(1)] same_settings_def)
qed

lemma unchanged_keys_put_back:
  assumes "cache_ok E c" "map_get (key_values c) k = Some s"
  shows "unchanged_keys E c (c\<lparr>key_values := fst (map_insert k s (fst (map_remove k (key_values c))))\<rparr>)" (is "unchanged_keys E c ?c")
proof -
  note d = cache_okD [OF assms(1)]
  note r = map_remove_facts [OF d(1), of k]
  have m: "map_get (key_values ?c) = map_get (key_values c)"
    using assms(2) by (simp add: map_insert_facts [OF r(1)] r(2) fun_upd_idem_iff)
  have "cache_ok E ?c"
    by (rule cache_ok_update [OF assms(1), where k = k and x = "Some s"])
      (use m assms(2) d in \<open>auto simp: map_insert_facts(1) [OF r(1)] fun_upd_idem_iff\<close>)
  then show ?thesis using m by (simp add: unchanged_keys_def same_settings_def)
qed

lemma unchanged_keys_remove_absent:
  assumes "cache_ok E c" "map_get (key_values c) k = None"
  shows "unchanged_keys E c (c\<lparr>key_values := fst (map_remove k (key_values c))\<rparr>)" (is "unchanged_keys E c ?c")
proof -
  note d = cache_okD [OF assms(1)]
  note r = map_remove_facts [OF d(1), of k]
  have m: "map_get (key_values ?c) = map_get (key_values c)" using assms(2) by (simp add: r(2) fun_upd_idem_iff)
  have "cache_ok E ?c"
    by (rule cache_ok_update [OF assms(1), where k = k and x = None])
      (use m assms(2) d in \<open>auto simp: r(1) fun_upd_idem_iff\<close>)
  then show ?thesis using m by (simp add: unchanged_keys_def same_settings_def)
qed

fun type_category :: "key_type \<Rightarrow> memory_category" where
  "type_category THash = Hashes"
| "type_category TList = Lists"
| "type_category TSet = Sets"
| "type_category TZSet = SortedSets"
| "type_category TGeo = GeoSets"
| "type_category TStream = Streams"
| "type_category _ = Cache"

lemma value_category_type: "value_category v = type_category (value_type v)"
  by (cases v) simp_all

lemma remove_of_type_spec:
  assumes "cache_ok E c" "remove_of_type E t (type_category t) key c = (c', removed)" "t \<noteq> TString"
  shows "case map_get (key_values c) key of
      Some s \<Rightarrow> if value_type (slot_value s) = t then removed \<and> freed_key E key s c c' else \<not> removed \<and> unchanged_keys E c c'
    | None \<Rightarrow> \<not> removed \<and> unchanged_keys E c c'"
proof -
  note d = cache_okD [OF assms(1)]
  note r = map_remove_facts [OF d(1), of key]
  show ?thesis
  proof (cases "map_get (key_values c) key")
    case None
    then show ?thesis
      using assms(2) unchanged_keys_remove_absent [OF assms(1) None] r(3)
      by (auto simp: remove_of_type_def case_prod_beta Let_def)
  next
    case (Some s)
    show ?thesis
    proof (cases "value_type (slot_value s) = t")
      case True
      have "slot_charge E key (slot_value s) = estimate_keyed_object (length key) (content_memory_size E (slot_value s))"
        "value_category (slot_value s) = type_category t" "type_category t \<noteq> Cache"
        using True assms(3) by (cases "slot_value s"; auto simp: slot_charge_def)+
      then show ?thesis
        using assms(2) freed_key_free [OF assms(1) Some refl] r(3) True Some
        by (auto simp: remove_of_type_def case_prod_beta Let_def)
    next
      case False
      then show ?thesis
        using assms(2) unchanged_keys_put_back [OF assms(1) Some] r(3) Some
        by (auto simp: remove_of_type_def case_prod_beta Let_def)
    qed
  qed
qed

lemma evict_string_spec:
  assumes "cache_ok E c" "map_get (key_values c) key = Some s" "slot_value s = VString e"
  shows "snd (evict_string key c) = Some (slot_charge E key (slot_value s)) \<and> freed_key E key s c (fst (evict_string key c))"
proof -
  note r = map_remove_facts [OF cache_okD(1) [OF assms(1)], of key]
  have "evict_string key c = (c\<lparr>key_values := fst (map_remove key (key_values c)),
           tracker := deallocate (slot_charge E key (slot_value s)) (value_category (slot_value s)) (tracker c),
           string_memory := (if value_category (slot_value s) = Cache
             then wrapping_sub (string_memory c) (slot_charge E key (slot_value s)) else string_memory c)\<rparr>,
      Some (entry_size e))"
    using assms(2,3) r(3) by (simp add: evict_string_def case_prod_beta Let_def free_string_def slot_charge_def)
  then show ?thesis using freed_key_free [OF assms(1,2) refl] assms(3) by (simp add: slot_charge_def)
qed

text \<open>A candidate that describes a stored slot is evicted, and what is counted is its charge.\<close>

lemma candidate_fields:
  "cand_key (candidate_of E decay k s) = k" "cand_type (candidate_of E decay k s) = value_type (slot_value s)"
  "cand_size (candidate_of E decay k s) = slot_charge E k (slot_value s)"
  "cand_expires (candidate_of E decay k s) = expires_at s"
  by (cases "slot_value s"; simp add: candidate_of_def typed_candidate_def slot_charge_def)+

lemmas remove_typed_defs =
  remove_hash_def remove_list_def remove_set_def remove_sorted_set_def remove_geo_set_def remove_stream_def

lemma evict_candidate_spec:
  assumes "cache_ok E c" "map_get (key_values c) k = Some s" "v = candidate_of E decay k s"
  shows "snd (evict_candidate_key E v c) = Some (slot_charge E k (slot_value s))
    \<and> freed_key E k s c (fst (evict_candidate_key E v c))"
proof (cases "value_type (slot_value s) = TString")
  case True
  then obtain e where e: "slot_value s = VString e" by (cases "slot_value s") auto
  show ?thesis
    using evict_string_spec [OF assms(1,2) e] True by (simp add: evict_candidate_key_def assms(3) candidate_fields Let_def)
next
  case False
  define t where "t = value_type (slot_value s)"
  have "snd (remove_of_type E t (type_category t) k c) \<and> freed_key E k s c (fst (remove_of_type E t (type_category t) k c))"
    using remove_of_type_spec [OF assms(1) prod.collapse [symmetric], of t k] assms(2) False by (simp add: t_def)
  moreover have "evict_candidate_key E v c =
      (let (c', removed) = remove_of_type E t (type_category t) k c
       in (c', if removed then Some (slot_charge E k (slot_value s)) else None))"
    using False
    by (cases "slot_value s") (simp_all add: evict_candidate_key_def assms(3) candidate_fields Let_def t_def
        remove_typed_defs case_prod_beta)
  ultimately show ?thesis by (simp add: case_prod_beta Let_def)
qed

section \<open>Sampling and the choice of the victim\<close>

text \<open>What the code relies on of \<open>SliceRandom::shuffle\<close>: it permutes the slice.\<close>

definition shuffle_ok :: "'c env \<Rightarrow> bool" where
  "shuffle_ok E \<longleftrightarrow> (\<forall>n. mset (shuffled E n) = mset [0..<n])"

definition evictable :: "'c env \<Rightarrow> 'c cache \<Rightarrow> 'c key_slot \<Rightarrow> bool" where
  "evictable E c s \<longleftrightarrow> \<not> slot_expired E s \<and> (volatile_only (policy c) \<longrightarrow> expires_at s \<noteq> None)"

lemma shuffled_set: "shuffle_ok E \<Longrightarrow> set (shuffled E n) = {..<n}"
  by (metis atLeast_upt set_mset_mset shuffle_ok_def)

lemma sample_spec:
  assumes "map_wf (key_values c)" "shuffle_ok E" "sample_eviction_candidates E r c = (cands, r')" "v \<in> set cands"
  shows "\<exists>k s. map_get (key_values c) k = Some s \<and> v = candidate_of E (lfu_decay_time c) k s \<and> evictable E c s"
proof -
  define n where "n = max (sample_size c) 1"
  define key_draw where "key_draw = (if volatile_only (policy c) then max (wrap_usize (n * 4)) n else n)"
  obtain drawn r1 where d: "get_n_random key_draw (key_values c) r = (drawn, r1)" by (rule prod.exhaust)
  define out where "out = map (\<lambda>(k, s). candidate_of E (lfu_decay_time c) k s)
    (filter (\<lambda>(k, s). \<not> slot_expired E s \<and> \<not> (volatile_only (policy c) \<and> expires_at s = None)) drawn)"
  let ?cap = "max (saturating_mul n 2) n"
  have cands: "cands = (if length out > ?cap then take ?cap (map (\<lambda>i. out ! i) (shuffled E (length out))) else out)"
    using assms(3) d unfolding sample_eviction_candidates_def Let_def n_def key_draw_def out_def
    by (simp only: prod.case prod.inject)
  have "set (map (\<lambda>i. out ! i) (shuffled E (length out))) \<subseteq> set out"
    by (auto simp: shuffled_set [OF assms(2)])
  then have "set cands \<subseteq> set out"
    unfolding cands using order.trans [OF set_take_subset] by (metis subset_refl)
  then obtain k s where ks: "(k, s) \<in> set drawn" "v = candidate_of E (lfu_decay_time c) k s" "evictable E c s"
    using assms(4) unfolding out_def evictable_def by auto
  have "set drawn \<subseteq> set (entries (key_values c))"
    using sample_loop_spec [OF assms(1), of "[]" key_draw] d by (auto simp: get_n_random_def)
  then show ?thesis using ks km.items_iff [OF assms(1)] by blast
qed

lemma first_min_spec:
  assumes "xs \<noteq> []"
  shows "\<exists>x \<in> set xs. first_min lt xs = Some x"
  using assms
proof (induction xs)
  case (Cons x xs)
  then show ?case by (cases "xs = []") auto
qed simp

lemma pick_victim_spec:
  assumes "cs \<noteq> []" "p \<noteq> NoEviction" "pick_victim E p cs r = (v, r')"
  shows "\<exists>x \<in> set cs. v = Some x"
proof -
  have "r 0 mod length cs < length cs" using assms(1) by simp
  then have "cs ! (r 0 mod length cs) \<in> set cs" by simp
  then show ?thesis
    using assms first_min_spec [OF assms(1)]
    by (cases p) (auto simp: pick_victim_def gen_range_def Let_def)
qed

section \<open>The eviction loop\<close>

text \<open>
  What the loop has done when it stops: it has removed evictable keys only, released \<open>gained\<close>
  bytes, and succeeded exactly if that is enough.
\<close>

definition evicted :: "'c env \<Rightarrow> nat \<Rightarrow> nat \<Rightarrow> 'c cache \<Rightarrow> 'c cache \<Rightarrow> err + unit \<Rightarrow> bool" where
  "evicted E needed freed c c' res \<longleftrightarrow> cache_ok E c' \<and> same_settings c c'
     \<and> (\<forall>k. map_get (key_values c') k = map_get (key_values c) k
          \<or> map_get (key_values c') k = None \<and> (\<exists>s. map_get (key_values c) k = Some s \<and> evictable E c s))
     \<and> (\<exists>gained. total (tracker c') + gained = total (tracker c)
          \<and> res = (if freed + gained \<ge> needed then Inr () else Inl OutOfMemory))"

lemma evicted_refl:
  "cache_ok E c \<Longrightarrow> res = (if freed \<ge> needed then Inr () else Inl OutOfMemory) \<Longrightarrow> evicted E needed freed c c res"
  by (auto simp: evicted_def intro: exI [where x = 0])

lemma evicted_step:
  assumes "freed_key E k s c c1" "map_get (key_values c) k = Some s" "evictable E c s"
    and "evicted E needed (freed + slot_charge E k (slot_value s)) c1 c2 res"
  shows "evicted E needed freed c c2 res"
proof -
  note f = assms(1) [unfolded freed_key_def]
  have p: "policy c1 = policy c" using f by (simp add: same_settings_def)
  then have ev: "evictable E c1 = evictable E c" by (simp add: fun_eq_iff evictable_def)
  obtain gained where g: "total (tracker c2) + gained = total (tracker c1)"
    "res = (if freed + slot_charge E k (slot_value s) + gained \<ge> needed then Inr () else Inl OutOfMemory)"
    using assms(4) by (auto simp: evicted_def)
  have keys: "map_get (key_values c2) j = map_get (key_values c) j
      \<or> map_get (key_values c2) j = None \<and> (\<exists>s. map_get (key_values c) j = Some s \<and> evictable E c s)" for j
  proof -
    have "map_get (key_values c2) j = map_get (key_values c1) j
      \<or> map_get (key_values c2) j = None \<and> (\<exists>s. map_get (key_values c1) j = Some s \<and> evictable E c s)"
      using assms(4) unfolding evicted_def ev by blast
    then show ?thesis using f assms(2,3) by (cases "j = k") auto
  qed
  have "total (tracker c2) + (slot_charge E k (slot_value s) + gained) = total (tracker c)" using f g(1) by simp
  moreover have "cache_ok E c2" "same_settings c c2"
    using assms(4) f same_settings_trans by (auto simp: evicted_def)
  ultimately show ?thesis using g(2) keys by (auto simp: evicted_def add.assoc)
qed

lemma same_settings_stats [simp]: "same_settings c (c1\<lparr>stats := st\<rparr>) = same_settings c c1"
  by (simp add: same_settings_def)

lemma freed_key_touch:
  "freed_key E k s c (touch_watch_key j (c1\<lparr>stats := st\<rparr>)) = freed_key E k s c c1"
  by (simp add: freed_key_def)

lemma freed_key_len:
  assumes "cache_ok E c" "map_get (key_values c) k = Some s" "freed_key E k s c c1"
  shows "map_len (key_values c1) < map_len (key_values c)"
proof -
  note w = cache_okD(1) [OF assms(1)]
  have "k \<in> dom (map_get (key_values c))" "finite (dom (map_get (key_values c)))"
    using assms(2) km.finite_dom [OF w] by auto
  then have "card (dom (map_get (key_values c)) - {k}) < card (dom (map_get (key_values c)))"
    by (intro card_Diff1_less)
  moreover have "map_wf (key_values c1)" using assms(3) cache_okD(1) by (auto simp: freed_key_def)
  ultimately show ?thesis using assms(3) by (simp add: map_len_card w freed_key_def)
qed

lemma evict_loop_spec:
  assumes "cache_ok E c" "shuffle_ok E" "policy c \<noteq> NoEviction"
  shows "\<exists>c' res. evict_loop E needed freed er r c = Some (c', res) \<and> evicted E needed freed c c' res"
  using assms
proof (induction "map_len (key_values c) * 3 + (2 - er)" arbitrary: freed er r c rule: less_induct)
  case less
  note w = cache_okD(1) [OF less.prems(1)]
  obtain cands r1 where sm: "sample_eviction_candidates E r c = (cands, r1)" by fastforce
  consider "freed \<ge> needed" | "freed < needed" "cands = []" | "freed < needed" "cands \<noteq> []" by linarith
  then show ?case
  proof cases
    case 1
    then show ?thesis
      using evicted_refl [OF less.prems(1), of "Inr ()" needed freed] by (simp add: evict_loop.simps)
  next
    case 2
    show ?thesis
    proof (cases "er + 1 \<ge> 3")
      case True
      then show ?thesis
        using 2 sm evicted_refl [OF less.prems(1), of "Inl OutOfMemory" needed freed] by (simp add: evict_loop.simps)
    next
      case False
      then have "\<exists>c' res. evict_loop E needed freed (er + 1) r1 c = Some (c', res) \<and> evicted E needed freed c c' res"
        by (intro less.hyps less.prems) simp
      then show ?thesis using 2 sm False by (simp add: evict_loop.simps [of E needed freed er r c])
    qed
  next
    case 3
    obtain vo r2 where pv: "pick_victim E (policy c) cands r1 = (vo, r2)" by fastforce
    then obtain v where v: "v \<in> set cands" "vo = Some v" using pick_victim_spec [OF 3(2) less.prems(3)] by blast
    obtain k s where s: "map_get (key_values c) k = Some s" "v = candidate_of E (lfu_decay_time c) k s" "evictable E c s"
      using sample_spec [OF w less.prems(2) sm v(1)] by blast
    obtain c1 where c1: "evict_candidate_key E v c = (c1, Some (slot_charge E k (slot_value s)))" "freed_key E k s c c1"
      using evict_candidate_spec [OF less.prems(1) s(1,2)] by (metis prod.collapse)
    define c2 where "c2 = touch_watch_key (cand_key v) (c1\<lparr>stats := (stats c1)\<lparr>evicted_lru := evicted_lru (stats c1) + 1\<rparr>\<rparr>)"
    have f: "freed_key E k s c c2" using c1(2) by (simp add: c2_def freed_key_touch)
    have "\<exists>c' res. evict_loop E needed (freed + slot_charge E k (slot_value s)) 0 r2 c2 = Some (c', res)
        \<and> evicted E needed (freed + slot_charge E k (slot_value s)) c2 c' res"
      using f freed_key_len [OF less.prems(1) s(1) f] less.prems
      by (intro less.hyps) (auto simp: freed_key_def same_settings_def)
    then obtain c' res where e: "evict_loop E needed (freed + slot_charge E k (slot_value s)) 0 r2 c2 = Some (c', res)"
        "evicted E needed (freed + slot_charge E k (slot_value s)) c2 c' res" by blast
    have "evict_loop E needed freed er r c = Some (c', res)"
      using 3 sm pv v(2) c1(1) e(1) by (simp add: evict_loop.simps [of E needed freed er r c] c2_def)
    then show ?thesis using evicted_step [OF f s(1,3) e(2)] by blast
  qed
qed

lemma evict_memory_spec:
  assumes "cache_ok E c" "shuffle_ok E"
  obtains c' res where "evict_memory E needed c = Some (c', res)" "evicted E needed 0 c c' res \<or> c' = c \<and> res = Inl OutOfMemory"
    "policy c \<noteq> NoEviction \<Longrightarrow> evicted E needed 0 c c' res"
  using evict_loop_spec [OF assms, of needed 0 0 "random E"] that
  by (cases "policy c = NoEviction") (auto simp: evict_memory_def)

lemma sample_empty:
  assumes "map_wf (key_values c)" "shuffle_ok E"
    and "\<And>k s. map_get (key_values c) k = Some s \<Longrightarrow> \<not> evictable E c s"
  shows "fst (sample_eviction_candidates E r c) = []"
  using sample_spec [OF assms(1,2) prod.collapse [symmetric]] assms(3) by (metis list.set_sel(1))

lemma evict_loop_nothing:
  assumes "map_wf (key_values c)" "shuffle_ok E" "freed < needed"
    and "\<And>k s. map_get (key_values c) k = Some s \<Longrightarrow> \<not> evictable E c s"
  shows "evict_loop E needed freed er r c = Some (c, Inl OutOfMemory)"
proof (induction "2 - er" arbitrary: er r)
  case 0
  then show ?case
    using sample_empty [OF assms(1,2,4), where r = r] assms(3) by (simp add: evict_loop.simps case_prod_beta)
next
  case (Suc n)
  have "evict_loop E needed freed (er + 1) (snd (sample_eviction_candidates E r c)) c = Some (c, Inl OutOfMemory)"
    by (rule Suc.hyps(1)) (use Suc.hyps(2) in simp)
  then show ?case
    using sample_empty [OF assms(1,2,4), where r = r] assms(3) Suc.hyps(2)
    by (simp add: evict_loop.simps [of E needed freed er r c] case_prod_beta)
qed

section \<open>Sweeps\<close>

definition string_slot :: "'c key_slot \<Rightarrow> bool" where
  "string_slot s \<longleftrightarrow> value_type (slot_value s) = TString"

lemma string_slot_cases: "string_slot s \<Longrightarrow> (\<And>e. slot_value s = VString e \<Longrightarrow> thesis) \<Longrightarrow> thesis"
  by (cases "slot_value s") (auto simp: string_slot_def)

lemma sweep_strings_step:
  assumes "map_wf m" "distinct (k # ks)" "\<forall>j \<in> set (k # ks). \<exists>s. map_get m j = Some s \<and> string_slot s \<and> slot_expired E s"
  obtains s e where "map_get m k = Some s" "slot_value s = VString e" "map_wf (fst (map_remove k m))"
    "map_get (fst (map_remove k m)) = (map_get m)(k := None)"
    "\<forall>j \<in> set ks. \<exists>s. map_get (fst (map_remove k m)) j = Some s \<and> string_slot s \<and> slot_expired E s"
    "sweep_strings E (k # ks) m =
       (let (m2, cnt, freed) = sweep_strings E ks (fst (map_remove k m)) in (m2, cnt + 1, freed + entry_size e))"
proof -
  note r = map_remove_facts [OF assms(1), of k]
  from assms(3) obtain s where s: "map_get m k = Some s" "string_slot s" "slot_expired E s" by auto
  then obtain e where e: "slot_value s = VString e" by (auto elim: string_slot_cases)
  have "sweep_strings E (k # ks) m =
      (let (m2, cnt, freed) = sweep_strings E ks (fst (map_remove k m)) in (m2, cnt + 1, freed + entry_size e))"
    using s e r(3) by (simp add: case_prod_beta Let_def)
  moreover have "\<forall>j \<in> set ks. \<exists>s. map_get (fst (map_remove k m)) j = Some s \<and> string_slot s \<and> slot_expired E s"
    using assms(2,3) r(2) by auto
  ultimately show thesis using that s(1) e r(1,2) by blast
qed

lemma sweep_strings_spec:
  assumes "map_wf m" "distinct ks" "\<forall>j \<in> set ks. \<exists>s. map_get m j = Some s \<and> string_slot s \<and> slot_expired E s"
    and "sweep_strings E ks m = (m', cnt, freed)"
  shows "map_wf m' \<and> map_get m' = (map_get m) |` (- set ks) \<and> cnt = length ks
    \<and> charge_sum E Cache m' + freed = charge_sum E Cache m
    \<and> (\<forall>cat. cat \<noteq> Cache \<longrightarrow> charge_sum E cat m' = charge_sum E cat m)"
  using assms
proof (induction ks arbitrary: m cnt freed)
  case (Cons k ks)
  obtain s e
    where s: "map_get m k = Some s" "slot_value s = VString e" "map_wf (fst (map_remove k m))"
      "map_get (fst (map_remove k m)) = (map_get m)(k := None)"
      "\<forall>j \<in> set ks. \<exists>s. map_get (fst (map_remove k m)) j = Some s \<and> string_slot s \<and> slot_expired E s"
      "sweep_strings E (k # ks) m =
         (let (m2, cnt, freed) = sweep_strings E ks (fst (map_remove k m)) in (m2, cnt + 1, freed + entry_size e))"
    by (rule sweep_strings_step [OF Cons.prems(1-3)])
  obtain cnt1 freed1 where r: "sweep_strings E ks (fst (map_remove k m)) = (m', cnt1, freed1)"
    "cnt = cnt1 + 1" "freed = freed1 + entry_size e"
    using Cons.prems(4) s(6) by (auto simp: Let_def split: prod.splits)
  have IH: "map_wf m' \<and> map_get m' = (map_get (fst (map_remove k m))) |` (- set ks) \<and> cnt1 = length ks
    \<and> charge_sum E Cache m' + freed1 = charge_sum E Cache (fst (map_remove k m))
    \<and> (\<forall>cat. cat \<noteq> Cache \<longrightarrow> charge_sum E cat m' = charge_sum E cat (fst (map_remove k m)))"
    by (rule Cons.IH [OF s(3) _ s(5) r(1)]) (use Cons.prems(2) in simp)
  have sum: "charge_sum E cat (fst (map_remove k m)) + (if cat = Cache then entry_size e else 0) = charge_sum E cat m" for cat
    using charge_sum_upd [OF Cons.prems(1) s(3,4), of E cat] s(1,2) by (auto simp: charge_at_def slot_charge_def)
  have "map_get m' = (map_get m) |` (- set (k # ks))" using IH s(4) by (auto simp: fun_eq_iff restrict_map_def)
  moreover have "charge_sum E Cache m' + freed = charge_sum E Cache m" using IH r(3) sum [of Cache] by simp
  moreover have "charge_sum E cat m' = charge_sum E cat m" if "cat \<noteq> Cache" for cat using IH sum [of cat] that by simp
  ultimately show ?case using IH r(2) by simp
qed (simp add: restrict_map_def)

lemma cache_ok_free_strings:
  assumes "cache_ok E c" "map_wf m" "map_get m = (map_get (key_values c)) |` K"
    and "charge_sum E Cache m + freed = charge_sum E Cache (key_values c)"
    and "\<And>cat. cat \<noteq> Cache \<Longrightarrow> charge_sum E cat m = charge_sum E cat (key_values c)"
  shows "cache_ok E (free_string freed (c\<lparr>key_values := m\<rparr>))" "freed = 0 \<Longrightarrow> cache_ok E (c\<lparr>key_values := m\<rparr>)"
proof -
  note d = cache_okD [OF assms(1)]
  have own: "own_key k s" if "map_get m k = Some s" for k s
    using that d(5) unfolding assms(3) by (auto simp: restrict_map_def split: if_splits)
  have le: "freed \<le> string_memory c" "string_memory c \<le> usize_max"
    using assms(4) d(3) string_memory_le [OF assms(1)] by simp_all
  have cat: "category_memory cat (tracker c) = charge_sum E cat m + (if cat = Cache then freed else 0)"
    if "keyspace_category cat" for cat
    using d(4) [OF that] assms(4) assms(5) [of cat] by auto
  show "cache_ok E (free_string freed (c\<lparr>key_values := m\<rparr>))"
    using cat [of Cache] cat own le d(2,3) assms(2,4)
    by (auto simp: cache_ok_def free_string_def deallocate_ok(2) wrapping_sub_small)
  show "cache_ok E (c\<lparr>key_values := m\<rparr>)" if "freed = 0"
    using cat own d(2,3) assms(2,4) that by (simp add: cache_ok_def)
qed

lemma cache_ok_expire_accounting:
  "cache_ok E (apply_expire_accounting cnt freed c) = cache_ok E (if freed > 0 then free_string freed c else c)"
  by (simp add: apply_expire_accounting_def)

lemma string_sweep_spec:
  assumes "cache_ok E c" "string_sweep_expired E c = (c1, cnt, freed)"
    and "c2 = (if cnt > 0 then apply_expire_accounting cnt freed c1 else c1)"
  shows "cache_ok E c2" "same_settings c c2" "map_len (key_values c2) + cnt = map_len (key_values c)"
    "map_get (key_values c2) k = (case map_get (key_values c) k of
       Some s \<Rightarrow> if string_slot s \<and> slot_expired E s then None else Some s | None \<Rightarrow> None)"
proof -
  note d = cache_okD [OF assms(1)]
  define ks where "ks = map fst (filter (\<lambda>(k, s). value_type (slot_value s) = TString \<and> slot_expired E s) (entries (key_values c)))"
  obtain m where m: "sweep_strings E ks (key_values c) = (m, cnt, freed)" "c1 = c\<lparr>key_values := m\<rparr>"
    using assms(2) by (auto simp: string_sweep_expired_def ks_def Let_def split: prod.splits)
  have ks: "k \<in> set ks \<longleftrightarrow> (\<exists>s. map_get (key_values c) k = Some s \<and> string_slot s \<and> slot_expired E s)" for k
    using km.items_iff [OF d(1)] by (force simp: ks_def string_slot_def)
  have dis: "distinct ks" using km.distinct_items [OF d(1)] unfolding ks_def by (simp add: distinct_map_filter)
  have sp: "map_wf m \<and> map_get m = (map_get (key_values c)) |` (- set ks) \<and> cnt = length ks
    \<and> charge_sum E Cache m + freed = charge_sum E Cache (key_values c)
    \<and> (\<forall>cat. cat \<noteq> Cache \<longrightarrow> charge_sum E cat m = charge_sum E cat (key_values c))"
    by (rule sweep_strings_spec [OF d(1) dis _ m(1)]) (use ks in blast)
  have kv: "key_values c2 = m" by (simp add: assms(3) m(2) apply_expire_accounting_def)
  show get: "map_get (key_values c2) k = (case map_get (key_values c) k of
       Some s \<Rightarrow> if string_slot s \<and> slot_expired E s then None else Some s | None \<Rightarrow> None)" for k
    using sp ks [of k] by (auto simp: kv restrict_map_def split: option.splits)
  show "same_settings c c2" by (simp add: assms(3) m(2) apply_expire_accounting_def free_string_def same_settings_def)
  have "dom (map_get m) = dom (map_get (key_values c)) - set ks" "set ks \<subseteq> dom (map_get (key_values c))"
    using sp ks by auto
  then show "map_len (key_values c2) + cnt = map_len (key_values c)"
    using sp dis km.finite_dom [OF d(1)]
    by (simp add: kv map_len_card d(1) card_Diff_subset distinct_card card_mono
        le_add_diff_inverse2 [OF card_mono, OF _ \<open>set ks \<subseteq> _\<close>, unfolded distinct_card [OF dis]])
  have "freed = 0" if "cnt = 0"
    using sp that charge_sum_cong [OF _ d(1), of m E Cache] by (simp add: restrict_map_def)
  then show "cache_ok E c2"
    using cache_ok_free_strings [OF assms(1), of m "- set ks" freed] sp
    by (auto simp: assms(3) m(2) cache_ok_expire_accounting)
qed

lemma purge_len:
  assumes "cache_ok E c" "purge_if_expired E k c = (c', purged)"
  shows "map_len (key_values c') + (if purged then 1 else 0) = map_len (key_values c)"
proof -
  note p = purge_spec [OF assms]
  note w = cache_okD(1) [OF assms(1)] cache_okD(1) [OF p(1)]
  show ?thesis
  proof (cases purged)
    case True
    then have "k \<in> dom (map_get (key_values c))" "dom (map_get (key_values c')) = dom (map_get (key_values c)) - {k}"
      using p(4,5) by auto
    then show ?thesis using True card.remove [OF km.finite_dom [OF w(1)]] by (simp add: map_len_card w)
  next
    case False
    then show ?thesis using p(7) by simp
  qed
qed

lemma sweep_typed_spec:
  assumes "cache_ok E c" "sweep_typed E ks c = (c', cnt)"
  shows "cache_ok E c' \<and> same_settings c c' \<and> map_len (key_values c') + cnt = map_len (key_values c)
    \<and> (\<forall>k. map_get (key_values c') k = (if k \<in> set ks then view E c k else map_get (key_values c) k))"
  using assms
proof (induction ks arbitrary: c cnt)
  case (Cons k ks)
  obtain c1 purged where p: "purge_if_expired E k c = (c1, purged)" by (rule prod.exhaust)
  note ps = purge_spec [OF Cons.prems(1) p]
  define c2 where "c2 = (if purged then c1\<lparr>stats := (stats c1)\<lparr>evicted_expired := evicted_expired (stats c1) + 1\<rparr>\<rparr> else c1)"
  obtain n where n: "sweep_typed E ks c2 = (c', n)" "cnt = n + (if purged then 1 else 0)"
    using Cons.prems(2) by (auto simp: p c2_def split: if_splits prod.splits)
  have c2: "cache_ok E c2" "same_settings c c2" "view E c2 = view E c" "key_values c2 = key_values c1"
    using ps(1,2,3) by (simp_all add: c2_def)
  note IH = Cons.IH [OF c2(1) n(1)]
  have "map_get (key_values c2) j = (if j = k then view E c k else map_get (key_values c) j)" for j
    using ps(5,6) by (auto simp: c2(4))
  then have "map_get (key_values c') j = (if j \<in> set (k # ks) then view E c j else map_get (key_values c) j)" for j
    using IH by (simp add: c2(3))
  then show ?case
    using IH purge_len [OF Cons.prems(1) p] n(2) same_settings_trans [OF c2(2)] by (auto simp: c2(4))
qed simp

lemma sweep_spec:
  assumes "cache_ok E c" "sweep E c = (c', n)"
  shows "cache_ok E c'" "same_settings c c'" "map_get (key_values c') = view E c"
    "map_len (key_values c') + n = map_len (key_values c)"
proof -
  obtain c1 cnt freed where s: "string_sweep_expired E c = (c1, cnt, freed)" by (metis prod_cases3)
  define c2 where "c2 = (if cnt > 0 then apply_expire_accounting cnt freed c1 else c1)"
  note ss = string_sweep_spec [OF assms(1) s c2_def]
  define ks where "ks = map fst (filter (\<lambda>(k, s). is_typed_container (slot_value s) \<and> slot_expired E s) (entries (key_values c2)))"
  obtain tc where t: "sweep_typed E ks c2 = (c', tc)" "n = cnt + tc"
    using assms(2) by (auto simp: sweep_def s c2_def [symmetric] sweep_typed_expired_def ks_def [symmetric] split: prod.splits)
  note ts = sweep_typed_spec [OF ss(1) t(1)]
  have ks: "k \<in> set ks \<longleftrightarrow> (\<exists>s. map_get (key_values c2) k = Some s \<and> is_typed_container (slot_value s) \<and> slot_expired E s)" for k
    using km.items_iff [OF cache_okD(1) [OF ss(1)]] by (force simp: ks_def)
  have typed: "is_typed_container (slot_value s) \<longleftrightarrow> \<not> string_slot s" for s :: "'a key_slot"
    by (cases "slot_value s") (simp_all add: is_typed_container_def string_slot_def)
  show "cache_ok E c'" "same_settings c c'" "map_len (key_values c') + n = map_len (key_values c)"
    using ts ss(3) t(2) same_settings_trans [OF ss(2)] by auto
  show "map_get (key_values c') = view E c"
  proof (rule ext)
    fix k
    show "map_get (key_values c') k = view E c k"
      using ts ks [of k] ss(4) [of k] unfolding typed view_def by (auto split: option.splits if_splits)
  qed
qed

section \<open>The order of victims\<close>

text \<open>\<open>min_by_key\<close> returns a candidate no other comes before, for comparisons that order by a key.\<close>

lemma first_min_least:
  assumes "\<And>a b c. lt a c \<Longrightarrow> lt a b \<or> lt b c" "\<And>a b. lt a b \<Longrightarrow> \<not> lt b a" "first_min lt xs = Some x"
  shows "x \<in> set xs \<and> (\<forall>y \<in> set xs. \<not> lt y x)"
  using assms(3)
proof (induction xs arbitrary: x)
  case (Cons z xs)
  show ?case
  proof (cases "first_min lt xs")
    case None
    then have "xs = []" using first_min_spec [of xs lt] by fastforce
    then show ?thesis using Cons.prems assms(2) [of x x] by auto
  next
    case (Some y)
    note IH = Cons.IH [OF Some]
    show ?thesis
    proof (cases "lt y z")
      case True
      then show ?thesis using Cons.prems Some IH assms(2) by auto
    next
      case False
      then show ?thesis using Cons.prems Some IH assms(1) [where c = z and b = y] assms(2) by auto
    qed
  qed
qed simp

lemma lru_before_order: "lru_before a c \<Longrightarrow> lru_before a b \<or> lru_before b c" "lru_before a b \<Longrightarrow> \<not> lru_before b a"
  by (auto simp: lru_before_def)

lemma lfu_before_order: "lfu_before a c \<Longrightarrow> lfu_before a b \<or> lfu_before b c" "lfu_before a b \<Longrightarrow> \<not> lfu_before b a"
  by (auto simp: lfu_before_def)

section \<open>Properties\<close>

text \<open>
  A server with one string, for the concrete instances: one shard, no limit, a clock at second 1.
\<close>

definition demo_env :: "unit env" where
  "demo_env = \<lparr>now = 1000000000, unix_ms = 5000, minute = 3, lfu_draw = (\<lambda>_. False), random = (\<lambda>_. 0),
     shuffled = (\<lambda>n. [0..<n]), csize = (\<lambda>_. 64)\<rparr>"

definition demo_slot :: "int option \<Rightarrow> unit key_slot" where
  "demo_slot d = with_expire (VString (new_entry demo_env ''k'' ''v'')) d"

definition demo_cache :: "int option \<Rightarrow> unit cache" where
  "demo_cache d =
     (let c = new_cache demo_hash 1 0 1000; sz = slot_charge demo_env ''k'' (slot_value (demo_slot d))
      in c\<lparr>key_values := fst (map_insert ''k'' (demo_slot d) (key_values c)), tracker := account sz Cache (tracker c),
           string_memory := sz\<rparr>)"

lemma map_get_new: "map_get (new_map h n) = Map.empty"
  by (simp add: fun_eq_iff map_get_def shard_def shard_index_def new_map_def Let_def)

lemma cache_ok_new: "cache_ok E (new_cache h n mx mes)"
proof -
  have "category_memory cat (new_tracker mx msg) = 0" for cat msg by (cases cat) (simp_all add: new_tracker_def)
  then show ?thesis
    by (simp add: cache_ok_def new_cache_def mem_ok_def charge_sum_def km.total_of_dom map_get_new category_sum_def)
      (simp add: new_tracker_def)
qed

lemma demo_shuffle: "shuffle_ok demo_env"
  by (simp add: shuffle_ok_def demo_env_def)

lemma demo_charge: "slot_charge demo_env ''k'' (slot_value (demo_slot d)) = 224"
  by (simp add: demo_slot_def with_expire_def slot_charge_def entry_size_def new_entry_def estimate_string_entry_def
      ENTRY_STRUCT_def BYTES_OVERHEAD_def DICT_ENTRY_OVERHEAD_def wrap_usize_def with_alloc_overhead_def align_up_8_def
      saturating_add_def wrapping_add_def usize_max_def)

lemma demo_get: "map_get (key_values (demo_cache d)) = [''k'' \<mapsto> demo_slot d]"
  by (simp add: demo_cache_def new_cache_def Let_def map_insert_facts map_get_new)

lemma demo_cache_ok: "cache_ok demo_env (demo_cache d)"
proof (rule cache_ok_update [OF cache_ok_new [of demo_env demo_hash 1 0 1000], where k = "''k''" and x = "Some (demo_slot d)"])
  let ?c = "new_cache demo_hash 1 0 1000 :: unit cache"
  have t: "mem_ok (tracker ?c)" "total (tracker ?c) + 224 \<le> usize_max"
    using cache_okD(2) [OF cache_ok_new [of demo_env demo_hash 1 0 1000]]
    by (simp_all add: new_cache_def new_tracker_def usize_max_def)
  have v: "value_category (slot_value (demo_slot d)) = Cache" by (simp add: demo_slot_def with_expire_def)
  have e: "map_get (key_values ?c) = Map.empty" by (simp add: new_cache_def map_get_new)
  show "map_wf (key_values (demo_cache d))" by (simp add: demo_cache_def Let_def new_cache_def map_insert_facts)
  show "mem_ok (tracker (demo_cache d))"
    using account_ok(2) [OF t] by (simp add: demo_cache_def Let_def demo_charge)
  show "map_get (key_values (demo_cache d)) = (map_get (key_values ?c))(''k'' \<mapsto> demo_slot d)" unfolding demo_get e ..
  show "category_memory cat (tracker (demo_cache d)) + charge_at demo_env cat ''k'' (map_get (key_values ?c) ''k'') =
      category_memory cat (tracker ?c) + charge_at demo_env cat ''k'' (Some (demo_slot d))" for cat
    using account_category_memory [OF t, of cat Cache]
    unfolding e by (auto simp: demo_cache_def Let_def demo_charge charge_at_def v)
  show "string_memory (demo_cache d) + charge_at demo_env Cache ''k'' (map_get (key_values ?c) ''k'') =
      string_memory ?c + charge_at demo_env Cache ''k'' (Some (demo_slot d))"
    unfolding e by (simp add: demo_cache_def Let_def charge_at_def v new_cache_def)
  show "own_key ''k'' s" if "Some (demo_slot d) = Some s" for s
    using that by (auto simp: own_key_def demo_slot_def with_expire_def new_entry_def)
qed

lemma demo_policy: "policy (demo_cache d) = AllKeysLru"
  by (simp add: demo_cache_def Let_def new_cache_def)

text \<open>
  C6. Eviction always comes to an end. It removes stored keys that have not expired and, under the
  volatile policies, only keys with a deadline; every other key keeps its slot; the tracked total
  falls by exactly what was counted as freed; the call succeeds exactly if that reaches what was
  asked for; and the memory counters still agree with the keyspace. The hypothesis on \<open>shuffled\<close> is
  that the shuffle of the candidates is a permutation.
\<close>

theorem eviction_contract:
  assumes "cache_ok E c" and "shuffle_ok E" and "policy c \<noteq> NoEviction"
  shows "\<exists>c' res gained. evict_memory E needed c = Some (c', res) \<and> cache_ok E c'
    \<and> total_memory (tracker c') + gained = total_memory (tracker c)
    \<and> res = (if gained \<ge> needed then Inr () else Inl OutOfMemory)
    \<and> (\<forall>k. map_get (key_values c') k = map_get (key_values c) k
          \<or> map_get (key_values c') k = None
             \<and> (\<exists>s. map_get (key_values c) k = Some s \<and> \<not> slot_expired E s
                   \<and> (volatile_only (policy c) \<longrightarrow> expires_at s \<noteq> None)))"
proof -
  obtain c' res where e: "evict_memory E needed c = Some (c', res)" "evicted E needed 0 c c' res"
    using evict_memory_spec [OF assms(1,2)] assms(3) by metis
  then show ?thesis by (auto simp: evicted_def evictable_def total_memory_def)
qed

theorem eviction_contract_witness:
  "\<exists>c' res. evict_memory demo_env 100 (demo_cache None) = Some (c', res) \<and> cache_ok demo_env c'"
  using eviction_contract [OF demo_cache_ok demo_shuffle, of None 100] by (auto simp: demo_policy)

text \<open>
  Eviction passes over keys whose deadline has passed, so a keyspace that holds nothing but
  expired keys is reported as out of memory and left as it is, although all of it could be freed.
\<close>

theorem eviction_ignores_expired:
  assumes "cache_ok E c" and "shuffle_ok E" and "0 < needed"
    and "\<And>k s. map_get (key_values c) k = Some s \<Longrightarrow> slot_expired E s"
  shows "evict_memory E needed c = Some (c, Inl OutOfMemory)"
  using evict_loop_nothing [OF cache_okD(1) [OF assms(1)] assms(2,3)] assms(4)
  by (simp add: evict_memory_def evictable_def)

theorem eviction_ignores_expired_witness:
  "evict_memory demo_env 1 (demo_cache (Some 5)) = Some (demo_cache (Some 5), Inl OutOfMemory)
   \<and> total_memory (tracker (demo_cache (Some 5))) = 224"
proof -
  have ex: "slot_expired demo_env s" if "map_get (key_values (demo_cache (Some 5))) k = Some s" for k s
    using that by (auto simp: demo_get demo_slot_def with_expire_def slot_expired_def demo_env_def split: if_splits)
  have "total_memory (tracker (demo_cache (Some 5))) = 224"
    by (simp add: demo_cache_def Let_def demo_charge new_cache_def new_tracker_def account_def account_category_def
        account_total_def total_memory_def wrapping_add_def usize_max_def)
  moreover have "evict_memory demo_env 1 (demo_cache (Some 5)) = Some (demo_cache (Some 5), Inl OutOfMemory)"
    by (rule eviction_ignores_expired [OF demo_cache_ok demo_shuffle zero_less_one ex])
  ultimately show ?thesis by simp
qed

text \<open>
  The victim is one of the candidates and no candidate comes before it: under LRU none was used
  less recently, or equally long ago and larger; under LFU none has a lower frequency, or the same
  and a larger size; under volatile-ttl none has an earlier deadline.
\<close>

theorem victim_order:
  assumes "pick_victim E p cands r = (Some v, r')"
  shows "v \<in> set cands
    \<and> (p = AllKeysLru \<or> p = VolatileLru \<longrightarrow> (\<forall>w \<in> set cands. \<not> lru_before w v))
    \<and> (p = AllKeysLfu \<or> p = VolatileLfu \<longrightarrow> (\<forall>w \<in> set cands. \<not> lfu_before w v))
    \<and> (p = VolatileTtl \<longrightarrow> (\<forall>w \<in> set cands. ttl_key E v \<le> ttl_key E w))"
proof -
  have "cands \<noteq> []" "p \<noteq> NoEviction" using assms by (auto simp: pick_victim_def split: eviction_policy.splits)
  then have "v \<in> set cands" using pick_victim_spec [OF _ _ assms] by auto
  moreover have "\<forall>w \<in> set cands. \<not> lru_before w v" if "p = AllKeysLru \<or> p = VolatileLru"
    using first_min_least [of lru_before cands v, OF lru_before_order] assms that by (auto simp: pick_victim_def)
  moreover have "\<forall>w \<in> set cands. \<not> lfu_before w v" if "p = AllKeysLfu \<or> p = VolatileLfu"
    using first_min_least [of lfu_before cands v, OF lfu_before_order] assms that by (auto simp: pick_victim_def)
  moreover have "\<forall>w \<in> set cands. ttl_key E v \<le> ttl_key E w" if "p = VolatileTtl"
  proof -
    have "v \<in> set cands \<and> (\<forall>w \<in> set cands. \<not> ttl_key E w < ttl_key E v)"
      by (rule first_min_least) (use assms that in \<open>auto simp: pick_victim_def\<close>)
    then show ?thesis by (simp add: not_less)
  qed
  ultimately show ?thesis by blast
qed

theorem victim_order_witness:
  "let cold = typed_candidate demo_env ''a'' TSet 10 None; hot = candidate_of demo_env 1 ''k'' (demo_slot None)
   in pick_victim demo_env AllKeysLru [hot, cold] (\<lambda>_. 0) = (Some cold, \<lambda>_. 0) \<and> \<not> lru_before hot cold"
proof -
  let ?cold = "typed_candidate demo_env ''a'' TSet 10 None" and ?hot = "candidate_of demo_env 1 ''k'' (demo_slot None)"
  have "pick_victim demo_env AllKeysLru [?hot, ?cold] (\<lambda>_. 0) = (Some ?cold, \<lambda>_. 0)"
    by (simp add: pick_victim_def lru_before_def candidate_of_def typed_candidate_def demo_slot_def with_expire_def
        cold_instant_def last_access_time_def new_entry_def)
  then show ?thesis using victim_order [of demo_env AllKeysLru "[?hot, ?cold]" "\<lambda>_. 0" ?cold "\<lambda>_. 0"] by (simp add: Let_def)
qed

text \<open>
  C31. A full sweep leaves exactly the keys a client can see, returns the number of keys it dropped,
  and releases their memory: the counters agree with what is left.
\<close>

theorem sweep_exact:
  assumes "cache_ok E c" and "sweep E c = (c', n)"
  shows "map_get (key_values c') = view E c \<and> map_len (key_values c') + n = map_len (key_values c) \<and> cache_ok E c'"
  using sweep_spec [OF assms] by simp

theorem sweep_exact_witness:
  "map_get (key_values (fst (sweep demo_env (demo_cache (Some 5))))) ''k'' = None
   \<and> map_get (key_values (fst (sweep demo_env (demo_cache (Some 2000000000))))) ''k'' \<noteq> None"
proof -
  have "map_get (key_values (fst (sweep demo_env (demo_cache d)))) = view demo_env (demo_cache d)" for d
    using sweep_exact [OF demo_cache_ok prod.collapse [symmetric], of d] by simp
  then show ?thesis by (simp add: view_def demo_get demo_slot_def with_expire_def slot_expired_def demo_env_def)
qed

end
