(* ===== verification/Storage.thy ===== *)
theory Storage
  imports Eviction "HOL-Library.Monad_Syntax"
begin

text \<open>
  String storage and the operations on whole keys: \<open>src/src/cache/storage.rs\<close>, \<open>operations.rs\<close>,
  \<open>expiration.rs\<close> and the creation of typed keys in \<open>hashes.rs\<close> and its siblings. An operation that
  may have to evict returns an option, whose \<open>None\<close> is an eviction loop that does not end; every
  other result is the new cache and an \<open>err\<close> or the value. \<open>incr_by_float\<close> is not modelled.
\<close>

section \<open>Capacity\<close>

definition note_no_memory :: "'c cache \<Rightarrow> 'c cache" where
  "note_no_memory c = c\<lparr>stats := (stats c)\<lparr>store_no_memory := store_no_memory (stats c) + 1\<rparr>\<rparr>"

definition ensure_capacity :: "'c env \<Rightarrow> nat \<Rightarrow> 'c cache \<Rightarrow> ('c cache \<times> (err + unit)) option" where
  "ensure_capacity E needed c =
     (if needed = 0 then Some (c, Inr ())
      else if limit c = 0 then Some (c, Inr ())
      else if can_allocate needed Cache (tracker c) then Some (c, Inr ())
      else if eviction_allowed c then do {
        (c1, res) \<leftarrow> evict_memory E needed c;
        Some (case res of Inr u \<Rightarrow> (c1, Inr u) | Inl e \<Rightarrow> (note_no_memory c1, Inl e)) }
      else Some (note_no_memory c, Inl OutOfMemory))"

definition ensure_non_string_capacity :: "'c env \<Rightarrow> nat \<Rightarrow> 'c cache \<Rightarrow> ('c cache \<times> (err + unit)) option" where
  "ensure_non_string_capacity E needed c =
     (if needed = 0 then Some (c, Inr ())
      else if can_allocate needed SortedSets (tracker c) then Some (c, Inr ())
      else if eviction_allowed c then do {
        (c1, res) \<leftarrow> evict_memory E needed c;
        Some (if res = Inr () \<and> can_allocate needed SortedSets (tracker c1) then (c1, Inr ())
              else (note_no_memory c1, Inl OutOfMemory)) }
      else Some (note_no_memory c, Inl OutOfMemory))"

section \<open>Strings\<close>

definition string_map_action :: "entry map_action \<Rightarrow> int option \<Rightarrow> 'c key_slot map_action" where
  "string_map_action action new_expires =
     (case action of
        Keep \<Rightarrow> Keep
      | Set e \<Rightarrow> Set (with_expire (VString e) new_expires)
      | Remove \<Rightarrow> Remove)"

definition mutate_string ::
  "bytes \<Rightarrow> (entry option \<Rightarrow> int option \<Rightarrow> nat \<Rightarrow> entry map_action \<times> int option \<times> 'r) \<Rightarrow> 'c cache
     \<Rightarrow> 'c cache \<times> (err + 'r)" where
  "mutate_string key f c =
     (let (m, res) = mutate key
            (\<lambda>current cas_id.
               case current of
                 Some s \<Rightarrow>
                   (case slot_value s of
                      VString e \<Rightarrow>
                        (let (action, new_exp, r) = f (Some e) (expires_at s) cas_id
                         in (string_map_action action new_exp, Inr r))
                    | _ \<Rightarrow> (Keep, Inl WrongType))
               | None \<Rightarrow>
                   (let (action, new_exp, r) = f None None cas_id
                    in (string_map_action action new_exp, Inr r)))
            (key_values c)
      in (c\<lparr>key_values := m\<rparr>, res))"

definition account_replace :: "nat \<Rightarrow> nat \<Rightarrow> 'c cache \<Rightarrow> 'c cache" where
  "account_replace old_size new_size c =
     (let c1 = (if old_size > 0 then free_string old_size c else c)
      in if new_size > 0 then
           c1\<lparr>string_memory := wrapping_add (string_memory c1) new_size, tracker := account new_size Cache (tracker c1)\<rparr>
         else c1)"

record store_options =
  opt_nx :: bool
  opt_xx :: bool
  opt_get :: bool
  opt_ttl_ms :: "nat option"
  opt_exat_ms :: "nat option"
  opt_flags :: nat
  opt_keepttl :: bool
  opt_cas :: "nat option"

definition default_options :: store_options where
  "default_options =
     \<lparr>opt_nx = False, opt_xx = False, opt_get = False, opt_ttl_ms = None, opt_exat_ms = None, opt_flags = 0,
      opt_keepttl = False, opt_cas = None\<rparr>"

definition resolve_expiration :: "'c env \<Rightarrow> store_options \<Rightarrow> int option" where
  "resolve_expiration E opts =
     (case opt_ttl_ms opts of
        Some ttl \<Rightarrow> Some (now E + int ttl * 1000000)
      | None \<Rightarrow>
          (case opt_exat_ms opts of
             Some exat \<Rightarrow>
               if exat \<le> unix_ms E then Some (now E) else Some (now E + int (exat - unix_ms E) * 1000000)
           | None \<Rightarrow> None))"

datatype store_outcome =
    Exists entry
  | NotExists
  | CasMismatched
  | CasMiss
  | Stored "entry option" nat nat

text \<open>The decision under the shard lock.\<close>

definition store_decide ::
  "'c env \<Rightarrow> bytes \<Rightarrow> bytes \<Rightarrow> nat \<Rightarrow> store_options \<Rightarrow> entry option \<Rightarrow> int option \<Rightarrow> nat
     \<Rightarrow> entry map_action \<times> int option \<times> store_outcome" where
  "store_decide E key v entry_sz opts current slot_exp cas_id =
     (let expires = resolve_expiration E opts;
          keepttl = (opt_keepttl opts \<and> expires = None);
          live = slot_ttl_live E slot_exp
      in if opt_nx opts \<and> current \<noteq> None \<and> live then (Keep, None, Exists (the current))
         else if opt_xx opts \<and> \<not> (current \<noteq> None \<and> live) then (Keep, None, NotExists)
         else if opt_cas opts \<noteq> None \<and> current \<noteq> None \<and> live \<and> ecas (the current) \<noteq> the (opt_cas opts) then
           (Keep, None, CasMismatched)
         else if opt_cas opts \<noteq> None \<and> \<not> (current \<noteq> None \<and> live) then (Keep, None, CasMiss)
         else
           let old_for_get = (if opt_get opts \<and> live then current else None);
               old_size = (case current of Some e \<Rightarrow> entry_size e | None \<Rightarrow> 0);
               e = (new_entry E key v)\<lparr>eflags := opt_flags opts, ecas := cas_id\<rparr>;
               new_exp = (if expires \<noteq> None then expires else if keepttl \<and> live then slot_exp else None)
           in (Set e, new_exp, Stored old_for_get old_size entry_sz))"

definition store_finish :: "store_options \<Rightarrow> store_outcome \<Rightarrow> 'c cache \<Rightarrow> 'c cache \<times> (err + entry option)" where
  "store_finish opts outcome c =
     (case outcome of
        Exists e \<Rightarrow> (c, Inr (Some e))
      | NotExists \<Rightarrow> (c, Inr None)
      | CasMismatched \<Rightarrow> (c\<lparr>stats := (stats c)\<lparr>cas_badval := cas_badval (stats c) + 1\<rparr>\<rparr>, Inl CasMismatch)
      | CasMiss \<Rightarrow> (c\<lparr>stats := (stats c)\<lparr>cas_misses := cas_misses (stats c) + 1\<rparr>\<rparr>, Inl KeyNotFound)
      | Stored old_for_get old_size new_size \<Rightarrow>
          (let c1 = account_replace old_size new_size c;
               st = (if opt_cas opts \<noteq> None then (stats c1)\<lparr>cas_hits := cas_hits (stats c1) + 1\<rparr> else stats c1)
           in (c1\<lparr>stats := st\<lparr>cmd_set := cmd_set st + 1\<rparr>\<rparr>, Inr old_for_get)))"

definition store_headroom :: "'c env \<Rightarrow> bytes \<Rightarrow> nat \<Rightarrow> 'c cache \<Rightarrow> ('c cache \<times> (err + unit)) option" where
  "store_headroom E key entry_sz c =
     (if limit c \<noteq> 0 \<and> saturating_add (total_memory (tracker c)) entry_sz > limit c then
        let existing = (case get_string_entry E key c of Some e \<Rightarrow> entry_size e | None \<Rightarrow> 0)
        in ensure_capacity E (entry_sz - existing) c
      else Some (c, Inr ()))"

definition store ::
  "'c env \<Rightarrow> bytes \<Rightarrow> bytes \<Rightarrow> store_options \<Rightarrow> 'c cache \<Rightarrow> ('c cache \<times> (err + entry option)) option" where
  "store E key v opts c =
     (if logical_string_entry (length key) (length v) ENTRY_STRUCT > max_entry_size c then
        Some (c\<lparr>stats := (stats c)\<lparr>store_too_large := store_too_large (stats c) + 1\<rparr>\<rparr>, Inl EntryTooLarge)
      else do {
        let entry_sz = estimate_string_entry (length key) (length v) ENTRY_STRUCT;
        (c1, room) \<leftarrow> store_headroom E key entry_sz c;
        case room of
          Inl e \<Rightarrow> Some (c1, Inl e)
        | Inr _ \<Rightarrow>
            (case mutate_string key (store_decide E key v entry_sz opts) c1 of
               (c2, Inl e) \<Rightarrow> Some (c2, Inl e)
             | (c2, Inr outcome) \<Rightarrow> Some (store_finish opts outcome c2)) })"

text \<open>A read; \<open>touching\<close> is the option to update the access metadata, which the entry shares.\<close>

definition load :: "'c env \<Rightarrow> bytes \<Rightarrow> bool \<Rightarrow> 'c cache \<Rightarrow> 'c cache \<times> entry option" where
  "load E key touching c =
     (let c0 = c\<lparr>stats := (stats c)\<lparr>cmd_get := cmd_get (stats c) + 1\<rparr>\<rparr>;
          miss = (\<lambda>c. c\<lparr>stats := (stats c)\<lparr>misses := misses (stats c) + 1\<rparr>\<rparr>)
      in case map_get (key_values c0) key of
           None \<Rightarrow> (miss c0, None)
         | Some s \<Rightarrow>
             (case slot_value s of
                VString e \<Rightarrow>
                  if slot_expired E s then
                    (let c1 = free_string (entry_size e) (c0\<lparr>key_values := fst (map_remove key (key_values c0))\<rparr>)
                     in (miss (c1\<lparr>stats := (stats c1)\<lparr>evicted_expired := evicted_expired (stats c1) + 1\<rparr>\<rparr>), None))
                  else
                    (let e' = (if touching then touch E (lfu_log_factor c0) (lfu_decay_time c0) e else e)
                     in (c0\<lparr>key_values := fst (map_insert key (s\<lparr>slot_value := VString e'\<rparr>) (key_values c0)),
                            stats := (stats c0)\<lparr>hits := hits (stats c0) + 1\<rparr>\<rparr>, Some e'))
              | _ \<Rightarrow> (miss c0, None)))"

section \<open>Whole keys\<close>

definition delete :: "'c env \<Rightarrow> bytes \<Rightarrow> 'c cache \<Rightarrow> 'c cache \<times> bool" where
  "delete E key c = remove_key_value_raw E key (c\<lparr>stats := (stats c)\<lparr>cmd_del := cmd_del (stats c) + 1\<rparr>\<rparr>)"

fun delete_many :: "'c env \<Rightarrow> bytes list \<Rightarrow> 'c cache \<Rightarrow> 'c cache \<times> nat" where
  "delete_many E [] c = (c, 0)"
| "delete_many E (k # ks) c =
     (let (c1, deleted) = delete E k c; (c2, n) = delete_many E ks c1
      in (c2, if deleted then n + 1 else n))"

definition dbsize :: "'c cache \<Rightarrow> nat" where
  "dbsize c = map_len (key_values c)"

definition flush :: "'c cache \<Rightarrow> 'c cache" where
  "flush c = c\<lparr>key_values := clear_map (key_values c), string_memory := 0, tracker := reset (tracker c)\<rparr>"

definition release_pubsub_memory :: "nat \<Rightarrow> 'c cache \<Rightarrow> 'c cache" where
  "release_pubsub_memory sz c = (if sz > 0 then c\<lparr>tracker := deallocate sz PubSub (tracker c)\<rparr> else c)"

fun keys_loop :: "'c env \<Rightarrow> bytes list \<Rightarrow> 'c cache \<Rightarrow> 'c cache \<times> bytes list" where
  "keys_loop E [] c = (c, [])"
| "keys_loop E (k # ks) c =
     (let (c1, purged) = purge_if_expired E k c; (c2, rest) = keys_loop E ks c1
      in (c2, if purged \<or> map_get (key_values c1) k = None then rest else k # rest))"

definition keys :: "'c env \<Rightarrow> nat list option \<Rightarrow> 'c cache \<Rightarrow> 'c cache \<times> bytes list" where
  "keys E pattern c = keys_loop E (map_keys pattern (key_values c)) c"

text \<open>The slice \<open>keys[start..end]\<close> panics, here \<open>None\<close>, when the end wraps to before the start.\<close>

definition scan :: "'c env \<Rightarrow> nat \<Rightarrow> nat list option \<Rightarrow> nat \<Rightarrow> 'c cache \<Rightarrow> ('c cache \<times> nat \<times> bytes list) option" where
  "scan E cursor pattern cnt c =
     (let (c1, ks) = keys E pattern c; sorted_keys = sort ks; start = cursor
      in if start \<ge> length sorted_keys then Some (c1, 0, [])
         else
           let stop = min (wrapping_add start cnt) (length sorted_keys)
           in if stop < start then None
              else Some (c1, if stop \<ge> length sorted_keys then 0 else stop,
                         take (stop - start) (drop start sorted_keys)))"

definition map_keys_all :: "'c env \<Rightarrow> 'c cache \<Rightarrow> bytes list" where
  "map_keys_all E c =
     map fst (filter (\<lambda>(k, s). value_type (slot_value s) = TString \<and> \<not> slot_expired E s) (entries (key_values c)))"

text \<open>The non-expired strings with value, flags and absolute deadline in milliseconds, -1 for none.\<close>

definition export_strings :: "'c env \<Rightarrow> 'c cache \<Rightarrow> (bytes \<times> bytes \<times> nat \<times> int) list" where
  "export_strings E c =
     List.map_filter (\<lambda>(k, s).
         case slot_value s of
           VString e \<Rightarrow>
             if slot_expired E s then None
             else (case expires_at s of
                     Some d \<Rightarrow>
                       Some (ekey e, evalue e, eflags e, wrap_i64 (int (unix_ms E) + wrap_i64 ((d - now E) div 1000000)))
                   | None \<Rightarrow> Some (ekey e, evalue e, eflags e, -1))
         | _ \<Rightarrow> None)
       (entries (key_values c))"

section \<open>Deadlines\<close>

definition expire :: "'c env \<Rightarrow> bytes \<Rightarrow> nat \<Rightarrow> 'c cache \<Rightarrow> 'c cache \<times> bool" where
  "expire E key ttl_ms c =
     (let (c1, kt) = key_type E key c
      in if kt = TNone then (c1, False)
         else if ttl_ms = 0 then (fst (delete E key c1), True)
         else
           let (m, was_set) = mutate key
                 (\<lambda>cur _. case cur of
                            Some s \<Rightarrow> (Set (s\<lparr>expires_at := Some (now E + int ttl_ms * 1000000)\<rparr>), True)
                          | None \<Rightarrow> (Keep, False))
                 (key_values c1)
           in (c1\<lparr>key_values := m\<rparr>, was_set))"

definition expire_at_unix_ms :: "'c env \<Rightarrow> bytes \<Rightarrow> int \<Rightarrow> 'c cache \<Rightarrow> 'c cache \<times> bool" where
  "expire_at_unix_ms E key at c =
     (let (c1, kt) = key_type E key c
      in if kt = TNone then (c1, False)
         else if at \<le> int (unix_ms E) then (fst (delete E key c1), True)
         else expire E key (nat (at - int (unix_ms E))) c1)"

definition ttl :: "'c env \<Rightarrow> bytes \<Rightarrow> 'c cache \<Rightarrow> 'c cache \<times> int" where
  "ttl E key c =
     (let (c1, purged) = purge_if_expired E key c
      in (c1, if purged then -2
              else case map_get (key_values c1) key of
                     Some s \<Rightarrow>
                       (case expires_at s of
                          Some d \<Rightarrow> if d \<le> now E then 0 else wrap_i64 ((d - now E) div 1000000)
                        | None \<Rightarrow> -1)
                   | None \<Rightarrow> -2))"

definition expire_time_unix_ms :: "'c env \<Rightarrow> bytes \<Rightarrow> 'c cache \<Rightarrow> 'c cache \<times> int" where
  "expire_time_unix_ms E key c =
     (let (c1, t) = ttl E key c in (c1, if t < 0 then t else wrap_i64 (int (unix_ms E) + t)))"

definition persist :: "bytes \<Rightarrow> 'c cache \<Rightarrow> 'c cache \<times> bool" where
  "persist key c =
     (let (m, removed) = mutate key
            (\<lambda>cur _. case cur of
                       Some s \<Rightarrow> if expires_at s \<noteq> None then (Set (s\<lparr>expires_at := None\<rparr>), True) else (Keep, False)
                     | None \<Rightarrow> (Keep, False))
            (key_values c)
      in (c\<lparr>key_values := m\<rparr>, removed))"

definition typed_key_exportable :: "'c env \<Rightarrow> bytes \<Rightarrow> 'c cache \<Rightarrow> bool" where
  "typed_key_exportable E key c =
     (case map_get (key_values c) key of
        Some s \<Rightarrow> if is_typed_container (slot_value s) then \<not> slot_expired E s else True
      | None \<Rightarrow> True)"

definition export_typed_expires_unix_ms :: "'c env \<Rightarrow> 'c cache \<Rightarrow> (bytes \<times> int) list" where
  "export_typed_expires_unix_ms E c =
     List.map_filter (\<lambda>(k, s).
         if \<not> is_typed_container (slot_value s) then None
         else case expires_at s of
                None \<Rightarrow> None
              | Some d \<Rightarrow>
                  if d \<le> now E then None
                  else Some (k, wrap_i64 (int (unix_ms E) + wrap_i64 ((d - now E) div 1000000))))
       (entries (key_values c))"

definition set_typed_expire_unix_ms :: "'c env \<Rightarrow> bytes \<Rightarrow> int \<Rightarrow> 'c cache \<Rightarrow> 'c cache" where
  "set_typed_expire_unix_ms E key at c =
     (if at < 0 then c
      else if at \<le> int (unix_ms E) then fst (delete E key c)
      else
        c\<lparr>key_values := fst (mutate key
             (\<lambda>cur _. case cur of
                        Some s \<Rightarrow>
                          if is_typed_container (slot_value s) then
                            (Set (s\<lparr>expires_at := Some (now E + (at - int (unix_ms E)) * 1000000)\<rparr>), ())
                          else (Keep, ())
                      | None \<Rightarrow> (Keep, ()))
             (key_values c))\<rparr>)"

section \<open>Read-modify-write of strings\<close>

datatype 'v rmw_outcome = RmwOk 'v nat nat | RmwRefused

definition rmw_finish :: "err \<Rightarrow> 'c cache \<times> (err + 'v rmw_outcome) \<Rightarrow> 'c cache \<times> (err + 'v)" where
  "rmw_finish refusal cr =
     (case cr of
        (c, Inl e) \<Rightarrow> (c, Inl e)
      | (c, Inr RmwRefused) \<Rightarrow> (c, Inl refusal)
      | (c, Inr (RmwOk v old_size new_size)) \<Rightarrow> (account_replace old_size new_size c, Inr v))"

text \<open>\<open>current_val + delta\<close> is unchecked: a release build wraps.\<close>

definition incr_decide ::
  "'c env \<Rightarrow> bytes \<Rightarrow> int \<Rightarrow> entry option \<Rightarrow> int option \<Rightarrow> nat \<Rightarrow> entry map_action \<times> int option \<times> int rmw_outcome" where
  "incr_decide E key delta current slot_exp cas_id =
     (let old_size = (case current of Some e \<Rightarrow> entry_size e | None \<Rightarrow> 0);
          finish = (\<lambda>v keep_exp flags.
            let new_value = wrap_i64 (v + delta);
                e = (new_entry E key (show_int new_value))\<lparr>eflags := flags, ecas := cas_id\<rparr>
            in (Set e, keep_exp, RmwOk new_value old_size (entry_size e)))
      in case current of
           Some e \<Rightarrow>
             if slot_ttl_live E slot_exp then
               (case utf8_decode (evalue e) of
                  None \<Rightarrow> (Keep, None, RmwRefused)
                | Some _ \<Rightarrow>
                    (case parse_i64 (evalue e) of
                       Some v \<Rightarrow> finish v slot_exp (eflags e)
                     | None \<Rightarrow> (Keep, None, RmwRefused)))
             else finish 0 None 0
         | None \<Rightarrow> finish 0 None 0)"

definition incr_decr :: "'c env \<Rightarrow> bytes \<Rightarrow> int \<Rightarrow> 'c cache \<Rightarrow> 'c cache \<times> (err + int)" where
  "incr_decr E key delta c =
     rmw_finish (InvalidArgument ''value is not a valid integer'') (mutate_string key (incr_decide E key delta) c)"

definition incr :: "'c env \<Rightarrow> bytes \<Rightarrow> int \<Rightarrow> 'c cache \<Rightarrow> 'c cache \<times> (err + int)" where
  "incr E key delta c =
     incr_decr E key delta (c\<lparr>stats := (stats c)\<lparr>cmd_incr := cmd_incr (stats c) + 1\<rparr>\<rparr>)"

definition decr :: "'c env \<Rightarrow> bytes \<Rightarrow> int \<Rightarrow> 'c cache \<Rightarrow> 'c cache \<times> (err + int)" where
  "decr E key delta c =
     incr_decr E key (wrap_i64 (- delta)) (c\<lparr>stats := (stats c)\<lparr>cmd_decr := cmd_decr (stats c) + 1\<rparr>\<rparr>)"

text \<open>The old string of APPEND and SETRANGE: value, deadline, flags and the size to free.\<close>

definition old_string :: "'c env \<Rightarrow> entry option \<Rightarrow> int option \<Rightarrow> bytes \<times> int option \<times> nat \<times> nat" where
  "old_string E current slot_exp =
     (case current of
        Some e \<Rightarrow>
          if slot_ttl_live E slot_exp then (evalue e, slot_exp, eflags e, entry_size e)
          else ([], None, 0, entry_size e)
      | None \<Rightarrow> ([], None, 0, 0))"

definition rewrite_decide ::
  "'c env \<Rightarrow> bytes \<Rightarrow> nat \<Rightarrow> (bytes \<Rightarrow> bytes) \<Rightarrow> entry option \<Rightarrow> int option \<Rightarrow> nat
     \<Rightarrow> entry map_action \<times> int option \<times> nat rmw_outcome" where
  "rewrite_decide E key max_size f current slot_exp cas_id =
     (let (old_val, keep_exp, flags, old_size) = old_string E current slot_exp; new_val = f old_val
      in if logical_string_entry (length key) (length new_val) ENTRY_STRUCT > max_size then
           (Keep, None, RmwRefused)
         else
           let e = (new_entry E key new_val)\<lparr>eflags := flags, ecas := cas_id\<rparr>
           in (Set e, keep_exp, RmwOk (length new_val) old_size (entry_size e)))"

text \<open>The frame APPEND and SETRANGE share: type check, size and capacity checks, the rewrite.\<close>

definition rewrite_string ::
  "'c env \<Rightarrow> bytes \<Rightarrow> (nat \<Rightarrow> nat) \<Rightarrow> (bytes \<Rightarrow> bytes) \<Rightarrow> 'c cache \<Rightarrow> ('c cache \<times> (err + nat)) option" where
  "rewrite_string E key new_len f c =
     (case ensure_string_or_absent E key c of
        (c1, Inl e) \<Rightarrow> Some (c1, Inl e)
      | (c1, Inr _) \<Rightarrow>
          let existing = get_string_entry E key c1;
              existing_size = (case existing of Some e \<Rightarrow> entry_size e | None \<Rightarrow> 0);
              existing_len = (case existing of Some e \<Rightarrow> length (evalue e) | None \<Rightarrow> 0);
              max_size = max_entry_size c1
          in if logical_string_entry (length key) (new_len existing_len) ENTRY_STRUCT > max_size then
               Some (c1, Inl EntryTooLarge)
             else do {
               (c2, room) \<leftarrow> ensure_capacity E
                  (estimate_string_entry (length key) (new_len existing_len) ENTRY_STRUCT - existing_size) c1;
               case room of
                 Inl e \<Rightarrow> Some (c2, Inl e)
               | Inr _ \<Rightarrow> Some (rmw_finish EntryTooLarge (mutate_string key (rewrite_decide E key max_size f) c2)) })"

definition append :: "'c env \<Rightarrow> bytes \<Rightarrow> bytes \<Rightarrow> 'c cache \<Rightarrow> ('c cache \<times> (err + nat)) option" where
  "append E key suffix c =
     rewrite_string E key (\<lambda>n. wrapping_add n (length suffix)) (\<lambda>old. old @ suffix) c"

text \<open>
  The bytes SETRANGE writes: the old value padded with zero bytes, then overwritten in place. The
  sum of offset and length is taken to fit a \<open>usize\<close>; the command passes an \<open>i64\<close> offset.
\<close>

definition overwrite :: "nat \<Rightarrow> bytes \<Rightarrow> bytes \<Rightarrow> bytes" where
  "overwrite offset v old =
     (let buf = old @ replicate (offset + length v - length old) (CHR 0x00)
      in if v = [] then buf else take offset buf @ v @ drop (offset + length v) buf)"

definition setrange :: "'c env \<Rightarrow> bytes \<Rightarrow> nat \<Rightarrow> bytes \<Rightarrow> 'c cache \<Rightarrow> ('c cache \<times> (err + nat)) option" where
  "setrange E key offset v c =
     rewrite_string E key (\<lambda>n. max (offset + length v) n) (overwrite offset v) c"

section \<open>Renaming\<close>

definition rename_slot :: "'c env \<Rightarrow> bytes \<Rightarrow> bytes \<Rightarrow> key_type \<Rightarrow> 'c cache \<Rightarrow> 'c cache \<times> (err + bool)" where
  "rename_slot E src dst src_type c =
     (let no_key = InvalidArgument ''no such key''; (m, slot) = map_remove src (key_values c)
      in case slot of
           None \<Rightarrow> (c\<lparr>key_values := m\<rparr>, Inl no_key)
         | Some s \<Rightarrow>
             (case (src_type, slot_value s) of
                (TString, VString e) \<Rightarrow>
                  (let e' = e\<lparr>ekey := dst\<rparr>; old_size = entry_size e; new_size = entry_size e';
                       c1 = c\<lparr>key_values := fst (map_insert dst (s\<lparr>slot_value := VString e'\<rparr>) m)\<rparr>
                   in (if new_size > old_size then
                         c1\<lparr>string_memory := wrapping_add (string_memory c1) (new_size - old_size),
                            tracker := account (new_size - old_size) Cache (tracker c1)\<rparr>
                       else if old_size > new_size then free_string (old_size - new_size) c1
                       else c1, Inr True))
              | _ \<Rightarrow>
                  if src_type = TString \<or> value_type (slot_value s) \<noteq> src_type then
                    (c\<lparr>key_values := fst (map_insert src s m)\<rparr>, Inl no_key)
                  else
                    (let c1 = account_typed_key_rename src dst (content_memory_size E (slot_value s))
                                (value_category (slot_value s)) (c\<lparr>key_values := m\<rparr>)
                     in (c1\<lparr>key_values := fst (map_insert dst s (key_values c1))\<rparr>, Inr True))))"

definition rename :: "'c env \<Rightarrow> bytes \<Rightarrow> bytes \<Rightarrow> bool \<Rightarrow> 'c cache \<Rightarrow> 'c cache \<times> (err + bool)" where
  "rename E src dst nx c =
     (let (c1, src_type) = key_type E src c
      in if src_type = TNone then (c1, Inl (InvalidArgument ''no such key''))
         else if src = dst then (c1, Inr True)
         else
           let (c2, there) = (if nx then exists_key E dst c1 else (c1, False))
           in if there then (c2, Inr False)
              else
                let (c3, there2) = exists_key E dst c2;
                    c4 = (if there2 then fst (delete E dst c3) else c3)
                in rename_slot E src dst src_type c4)"

section \<open>Typed keys\<close>

text \<open>The common body of the \<open>get_or_create\<close> operations; \<open>fresh\<close> is the new empty container.\<close>

definition get_or_create_of_type ::
  "'c env \<Rightarrow> key_type \<Rightarrow> memory_category \<Rightarrow> 'c key_value \<Rightarrow> bytes \<Rightarrow> 'c cache \<Rightarrow> ('c cache \<times> (err + 'c key_value)) option" where
  "get_or_create_of_type E t cat fresh key c =
     (case ensure_type E key t c of
        (c1, Inl e) \<Rightarrow> Some (c1, Inl e)
      | (c1, Inr _) \<Rightarrow>
          if (case map_get (key_values c1) key of Some s \<Rightarrow> value_type (slot_value s) = t | None \<Rightarrow> False) then
            Some (c1, Inr (slot_value (the (map_get (key_values c1) key))))
          else do {
            let base = estimate_keyed_object (length key) (content_memory_size E fresh);
            (c2, room) \<leftarrow> ensure_non_string_capacity E base c1;
            case room of
              Inl e \<Rightarrow> Some (c2, Inl e)
            | Inr _ \<Rightarrow>
                let (m, s, created) = get_or_insert_with key (\<lambda>_. new_slot fresh) (key_values c2);
                    c3 = c2\<lparr>key_values := m, tracker := (if created then account base cat (tracker c2) else tracker c2)\<rparr>
                in Some (c3, if value_type (slot_value s) = t then Inr (slot_value s) else Inl WrongType) })"

definition get_or_create_hash :: "'c env \<Rightarrow> 'c \<Rightarrow> bytes \<Rightarrow> 'c cache \<Rightarrow> ('c cache \<times> (err + 'c key_value)) option" where
  "get_or_create_hash E fresh = get_or_create_of_type E THash Hashes (VHash fresh)"

definition get_or_create_list :: "'c env \<Rightarrow> 'c \<Rightarrow> bytes \<Rightarrow> 'c cache \<Rightarrow> ('c cache \<times> (err + 'c key_value)) option" where
  "get_or_create_list E fresh = get_or_create_of_type E TList Lists (VList fresh)"

definition get_or_create_set :: "'c env \<Rightarrow> 'c \<Rightarrow> bytes \<Rightarrow> 'c cache \<Rightarrow> ('c cache \<times> (err + 'c key_value)) option" where
  "get_or_create_set E fresh = get_or_create_of_type E TSet Sets (VSet fresh)"

definition get_or_create_sorted_set :: "'c env \<Rightarrow> 'c \<Rightarrow> bytes \<Rightarrow> 'c cache \<Rightarrow> ('c cache \<times> (err + 'c key_value)) option" where
  "get_or_create_sorted_set E fresh = get_or_create_of_type E TZSet SortedSets (VZSet fresh)"

definition get_or_create_geo_set :: "'c env \<Rightarrow> 'c \<Rightarrow> bytes \<Rightarrow> 'c cache \<Rightarrow> ('c cache \<times> (err + 'c key_value)) option" where
  "get_or_create_geo_set E fresh = get_or_create_of_type E TGeo GeoSets (VGeo fresh)"

definition get_or_create_stream :: "'c env \<Rightarrow> 'c \<Rightarrow> bytes \<Rightarrow> 'c cache \<Rightarrow> ('c cache \<times> (err + 'c key_value)) option" where
  "get_or_create_stream E fresh = get_or_create_of_type E TStream Streams (VStream fresh)"

text \<open>The size change of a container, after its content was changed through the shared handle.\<close>

definition account_delta :: "memory_category \<Rightarrow> nat \<Rightarrow> nat \<Rightarrow> 'c cache \<Rightarrow> 'c cache" where
  "account_delta cat old_size new_size c =
     (let t1 = (if old_size > 0 then deallocate old_size cat (tracker c) else tracker c)
      in c\<lparr>tracker := (if new_size > 0 then account new_size cat t1 else t1)\<rparr>)"

definition account_hash_delta :: "'c env \<Rightarrow> nat \<Rightarrow> nat \<Rightarrow> 'c cache \<Rightarrow> ('c cache \<times> (err + unit)) option" where
  "account_hash_delta E old_size new_size c = do {
     (c1, room) \<leftarrow> (if new_size > old_size then ensure_non_string_capacity E (new_size - old_size) c
                   else Some (c, Inr ()));
     case room of
       Inl e \<Rightarrow> Some (c1, Inl e)
     | Inr _ \<Rightarrow> Some (account_delta Hashes old_size new_size c1, Inr ()) }"

definition account_list_delta :: "nat \<Rightarrow> nat \<Rightarrow> 'c cache \<Rightarrow> 'c cache" where
  "account_list_delta = account_delta Lists"

definition account_set_delta :: "nat \<Rightarrow> nat \<Rightarrow> 'c cache \<Rightarrow> 'c cache" where
  "account_set_delta = account_delta Sets"

definition account_sorted_set_delta :: "nat \<Rightarrow> nat \<Rightarrow> 'c cache \<Rightarrow> 'c cache" where
  "account_sorted_set_delta = account_delta SortedSets"

definition account_geo_set_delta :: "nat \<Rightarrow> nat \<Rightarrow> 'c cache \<Rightarrow> 'c cache" where
  "account_geo_set_delta = account_delta GeoSets"

definition account_stream_delta :: "nat \<Rightarrow> nat \<Rightarrow> 'c cache \<Rightarrow> 'c cache" where
  "account_stream_delta = account_delta Streams"

text \<open>Lookups that neither create nor purge, and the removal of an emptied container.\<close>

definition container_of_type :: "key_type \<Rightarrow> bytes \<Rightarrow> 'c cache \<Rightarrow> 'c key_value option" where
  "container_of_type t key c =
     (case map_get (key_values c) key of
        Some s \<Rightarrow> if value_type (slot_value s) = t then Some (slot_value s) else None
      | None \<Rightarrow> None)"

definition get_hash :: "bytes \<Rightarrow> 'c cache \<Rightarrow> 'c key_value option" where
  "get_hash = container_of_type THash"

definition get_list :: "bytes \<Rightarrow> 'c cache \<Rightarrow> 'c key_value option" where
  "get_list = container_of_type TList"

definition get_set :: "bytes \<Rightarrow> 'c cache \<Rightarrow> 'c key_value option" where
  "get_set = container_of_type TSet"

definition get_sorted_set :: "bytes \<Rightarrow> 'c cache \<Rightarrow> 'c key_value option" where
  "get_sorted_set = container_of_type TZSet"

definition get_geo_set :: "bytes \<Rightarrow> 'c cache \<Rightarrow> 'c key_value option" where
  "get_geo_set = container_of_type TGeo"

definition get_stream :: "bytes \<Rightarrow> 'c cache \<Rightarrow> 'c key_value option" where
  "get_stream = container_of_type TStream"

definition hash_exists :: "bytes \<Rightarrow> 'c cache \<Rightarrow> bool" where
  "hash_exists key c \<longleftrightarrow> container_of_type THash key c \<noteq> None"

definition list_exists :: "bytes \<Rightarrow> 'c cache \<Rightarrow> bool" where
  "list_exists key c \<longleftrightarrow> container_of_type TList key c \<noteq> None"

definition set_exists :: "bytes \<Rightarrow> 'c cache \<Rightarrow> bool" where
  "set_exists key c \<longleftrightarrow> container_of_type TSet key c \<noteq> None"

definition sorted_set_exists :: "bytes \<Rightarrow> 'c cache \<Rightarrow> bool" where
  "sorted_set_exists key c \<longleftrightarrow> container_of_type TZSet key c \<noteq> None"

definition stream_exists :: "bytes \<Rightarrow> 'c cache \<Rightarrow> bool" where
  "stream_exists key c \<longleftrightarrow> container_of_type TStream key c \<noteq> None"

definition remove_hash_if_empty :: "'c env \<Rightarrow> ('c key_value \<Rightarrow> bool) \<Rightarrow> bytes \<Rightarrow> 'c cache \<Rightarrow> 'c cache" where
  "remove_hash_if_empty E is_empty key c =
     (if (case get_hash key c of Some h \<Rightarrow> is_empty h | None \<Rightarrow> False) then fst (remove_hash E key c) else c)"

definition remove_list_if_empty :: "'c env \<Rightarrow> ('c key_value \<Rightarrow> bool) \<Rightarrow> bytes \<Rightarrow> 'c cache \<Rightarrow> 'c cache" where
  "remove_list_if_empty E is_empty key c =
     (if (case get_list key c of Some l \<Rightarrow> is_empty l | None \<Rightarrow> False) then fst (remove_list E key c) else c)"

definition remove_set_if_empty :: "'c env \<Rightarrow> ('c key_value \<Rightarrow> bool) \<Rightarrow> bytes \<Rightarrow> 'c cache \<Rightarrow> 'c cache" where
  "remove_set_if_empty E is_empty key c =
     (if (case get_set key c of Some s \<Rightarrow> is_empty s | None \<Rightarrow> False) then fst (remove_set E key c) else c)"

definition geo_set_count :: "'c cache \<Rightarrow> nat" where
  "geo_set_count c = length (filter (\<lambda>(k, s). value_type (slot_value s) = TGeo) (entries (key_values c)))"

definition geo_sets_memory :: "'c env \<Rightarrow> 'c cache \<Rightarrow> nat" where
  "geo_sets_memory E c =
     foldl wrapping_add 0
       (map (\<lambda>(k, s). estimate_keyed_object (length k) (content_memory_size E (slot_value s)))
         (filter (\<lambda>(k, s). value_type (slot_value s) = TGeo) (entries (key_values c))))"

definition clear_geo_sets :: "'c env \<Rightarrow> 'c cache \<Rightarrow> 'c cache" where
  "clear_geo_sets E c =
     fold (\<lambda>k c. fst (remove_geo_set E k c))
       (map fst (filter (\<lambda>(k, s). value_type (slot_value s) = TGeo) (entries (key_values c)))) c"

section \<open>Settings\<close>

definition set_max_entry_size :: "nat \<Rightarrow> 'c cache \<Rightarrow> 'c cache \<times> (err + unit)" where
  "set_max_entry_size sz c =
     (if sz < 1024 then (c, Inl (InvalidArgument ''max entry size too small (minimum 1KB)''))
      else if sz > limit c then (c, Inl (InvalidArgument ''max entry size cannot exceed max memory''))
      else (c\<lparr>max_entry_size := sz\<rparr>, Inr ()))"

definition set_cache_max_memory :: "'c env \<Rightarrow> nat \<Rightarrow> 'c cache \<Rightarrow> ('c cache \<times> (err + unit)) option" where
  "set_cache_max_memory E sz c =
     (if sz > 0 \<and> sz < 1024 * 1024 then
        Some (c, Inl (InvalidArgument ''max memory must be at least 1MB (or 0 for unlimited)''))
      else
        let c1 = c\<lparr>limit := sz, tracker := set_max_memory sz (tracker c)\<rparr>;
            c2 = (if sz > 0 \<and> max_entry_size c1 > sz then c1\<lparr>max_entry_size := sz\<rparr> else c1);
            over = total_memory (tracker c2) - sz
        in if sz > 0 \<and> over > 0 \<and> eviction_allowed c2
           then map_option (\<lambda>(c3, _). (c3, Inr ())) (evict_memory E over c2)
           else Some (c2, Inr ()))"

definition set_eviction_sample_size :: "nat \<Rightarrow> 'c cache \<Rightarrow> 'c cache \<times> (err + unit)" where
  "set_eviction_sample_size n c =
     (if n < 1 then (c, Inl (InvalidArgument ''eviction sample size too small (minimum 1)''))
      else if n > 100 then (c, Inl (InvalidArgument ''eviction sample size too large (maximum 100)''))
      else (c\<lparr>sample_size := n\<rparr>, Inr ()))"

definition set_lfu_log_factor :: "8 word \<Rightarrow> 'c cache \<Rightarrow> 'c cache" where
  "set_lfu_log_factor factor c = c\<lparr>lfu_log_factor := factor\<rparr>"

definition set_lfu_decay_time :: "8 word \<Rightarrow> 'c cache \<Rightarrow> 'c cache" where
  "set_lfu_decay_time minutes c = c\<lparr>lfu_decay_time := minutes\<rparr>"

section \<open>Moving a keyspace\<close>

record 'c keyspace_payload =
  pay_values :: "(bytes \<times> 'c key_slot) list"
  pay_watch :: "(bytes \<times> nat) list"
  pay_counts :: "(memory_category \<times> nat) list"
  pay_mem :: nat

definition take_keyspace_payload :: "'c cache \<Rightarrow> 'c cache \<times> 'c keyspace_payload" where
  "take_keyspace_payload c =
     (let (m, kvs) = drain_all (key_values c); (t, counts) = take_keyspace_counts (tracker c)
      in (c\<lparr>key_values := m, watch_gens := [], tracker := t, string_memory := 0\<rparr>,
          \<lparr>pay_values = kvs, pay_watch = watch_gens c, pay_counts = counts, pay_mem = string_memory c\<rparr>))"

text \<open>Every key watched before the swap is tracked again and bumped.\<close>

fun bump_all :: "bytes list \<Rightarrow> (bytes \<times> nat) list \<Rightarrow> (bytes \<times> nat) list" where
  "bump_all [] gens = gens"
| "bump_all (k # ks) gens =
     bump_all ks (AList.update k (wrapping_add (case map_of gens k of Some g \<Rightarrow> g | None \<Rightarrow> 0) 1) gens)"

definition install_keyspace_payload :: "'c keyspace_payload \<Rightarrow> 'c cache \<Rightarrow> 'c cache \<times> 'c keyspace_payload" where
  "install_keyspace_payload p c =
     (let (m, kvs) = drain_all (key_values c); (t, counts) = take_keyspace_counts (tracker c)
      in (c\<lparr>key_values := fill_all (pay_values p) m,
            watch_gens := bump_all (map fst (watch_gens c)) (pay_watch p),
            tracker := install_keyspace_counts (pay_counts p) t,
            string_memory := pay_mem p\<rparr>,
          \<lparr>pay_values = kvs, pay_watch = watch_gens c, pay_counts = counts, pay_mem = string_memory c\<rparr>))"

definition replace_keyspace_from :: "'c cache \<Rightarrow> 'c cache \<Rightarrow> 'c cache \<times> 'c cache" where
  "replace_keyspace_from c other =
     (let (other', p) = take_keyspace_payload other in (fst (install_keyspace_payload p c), other'))"

end
