(* ===== verification/Cache_Invariant.thy ===== *)
theory Cache_Invariant
  imports Storage
begin

text \<open>
  What the operations of the cache do to the visible keyspace and to the memory counters. Every
  operation of \<open>Storage\<close> keeps the invariant \<open>cache_ok\<close>: the tracked memory of each category is the sum
  of the charges of the slots of that category, the string counter agrees with it, and each string
  knows its own key. The operations that may evict come to an end. On top of that the properties
  state what the operations return and what they change.
\<close>

section \<open>Updating one slot\<close>

declare category_memory.simps [simp del]

lemma cache_ok_same_map:
  assumes "cache_ok E c" "map_wf m" "map_get m = map_get (key_values c)"
  shows "cache_ok E (c\<lparr>key_values := m\<rparr>)"
  using assms charge_sum_cong [OF assms(2) cache_okD(1) [OF assms(1)] assms(3)] by (simp add: cache_ok_def)

lemma unchanged_same_map:
  "cache_ok E c \<Longrightarrow> map_wf m \<Longrightarrow> map_get m = map_get (key_values c) \<Longrightarrow> unchanged_keys E c (c\<lparr>key_values := m\<rparr>)"
  by (simp add: unchanged_keys_def cache_ok_same_map same_settings_def)

lemma unchanged_view: "unchanged_keys E c c' \<Longrightarrow> view E c' = view E c"
  by (simp add: unchanged_keys_def fun_eq_iff view_def)

lemma unchanged_stats [simp]: "unchanged_keys E c (c'\<lparr>stats := st\<rparr>) = unchanged_keys E c c'"
  by (simp add: unchanged_keys_def)

lemma unchanged_refl: "cache_ok E c \<Longrightarrow> unchanged_keys E c c"
  by (simp add: unchanged_keys_def)

text \<open>A new deadline under a key changes no charge.\<close>

lemma cache_ok_deadline:
  assumes "cache_ok E c" "map_wf m" "map_get (key_values c) k = Some s"
    and "map_get m = (map_get (key_values c))(k \<mapsto> s\<lparr>expires_at := d\<rparr>)"
  shows "cache_ok E (c\<lparr>key_values := m\<rparr>)"
proof (rule cache_ok_update [OF assms(1), where k = k and x = "Some (s\<lparr>expires_at := d\<rparr>)"])
  show "own_key k s'" if "Some (s\<lparr>expires_at := d\<rparr>) = Some s'" for s'
    using that cache_okD(5) [OF assms(1,3)] by (auto simp: own_key_def)
qed (use assms cache_okD(2) [OF assms(1)] in \<open>simp_all add: charge_at_def\<close>)

lemma account_replace_fields:
  assumes "mem_ok (tracker c)" "old \<le> category_memory Cache (tracker c)" "string_memory c = category_memory Cache (tracker c)"
    and "total (tracker c) + new \<le> usize_max + old" "c' = account_replace old new c"
  shows "mem_ok (tracker c')"
    "category_memory cat (tracker c') = (if cat = Cache then category_memory cat (tracker c) - old + new else category_memory cat (tracker c))"
    "string_memory c' = string_memory c - old + new" "total (tracker c') + old = total (tracker c) + new"
    "key_values c' = key_values c" "same_settings c c'" "stats c' = stats c" "watch_gens c' = watch_gens c"
proof -
  define c1 where "c1 = (if old > 0 then free_string old c else c)"
  have le: "category_memory Cache (tracker c) \<le> total (tracker c)" "total (tracker c) \<le> usize_max"
    using assms(1) category_le_sum [of Cache "tracker c"] by (simp_all add: mem_ok_def)
  have d: "total (deallocate old Cache (tracker c)) = total (tracker c) - old"
    using deallocate_ok(1) [OF assms(1), of old Cache] assms(2) by (simp add: min_absorb2)
  have c1: "mem_ok (tracker c1)" "total (tracker c1) = total (tracker c) - old"
    "category_memory cat (tracker c1) = (if cat = Cache then category_memory cat (tracker c) - old else category_memory cat (tracker c))"
    "string_memory c1 = string_memory c - old" "key_values c1 = key_values c" "same_settings c c1"
    "stats c1 = stats c" "watch_gens c1 = watch_gens c" for cat
    using assms(1-3) le d deallocate_ok(2) [OF assms(1)]
    by (simp_all add: c1_def free_string_def wrapping_sub_small same_settings_def)
  have sum: "total (tracker c1) + new \<le> usize_max" "string_memory c1 + new \<le> usize_max"
    using assms(2,3,4) le c1(2,4) by simp_all
  have c': "c' = (if new > 0 then c1\<lparr>string_memory := wrapping_add (string_memory c1) new, tracker := account new Cache (tracker c1)\<rparr> else c1)"
    by (simp add: assms(5) account_replace_def c1_def Let_def)
  show "mem_ok (tracker c')" "key_values c' = key_values c" "same_settings c c'" "stats c' = stats c" "watch_gens c' = watch_gens c"
    using c1 account_ok(2) [OF c1(1) sum(1)] by (simp_all add: c' same_settings_def)
  show "category_memory cat (tracker c') = (if cat = Cache then category_memory cat (tracker c) - old + new else category_memory cat (tracker c))"
    using c1(3) account_category_memory [OF c1(1) sum(1)] by (simp add: c')
  show "string_memory c' = string_memory c - old + new" using c1(4) sum(2) by (simp add: c' wrapping_add_small)
  show "total (tracker c') + old = total (tracker c) + new"
    using c1(2) account_ok(1) [OF c1(1) sum(1), of Cache] assms(2) le by (simp add: c')
qed

definition string_size :: "'c key_slot option \<Rightarrow> nat" where
  "string_size x = (case x of Some s \<Rightarrow> (case slot_value s of VString e \<Rightarrow> entry_size e | _ \<Rightarrow> 0) | None \<Rightarrow> 0)"

definition string_or_none :: "'c key_slot option \<Rightarrow> bool" where
  "string_or_none x \<longleftrightarrow> (case x of Some s \<Rightarrow> string_slot s | None \<Rightarrow> True)"

text \<open>
  The effect of storing a string: the slot is replaced and the counters move from the old size to the
  new one.
\<close>

definition stored_string :: "'c env \<Rightarrow> bytes \<Rightarrow> entry \<Rightarrow> int option \<Rightarrow> 'c cache \<Rightarrow> 'c cache \<Rightarrow> bool" where
  "stored_string E key e d c c' \<longleftrightarrow> cache_ok E c' \<and> same_settings c c'
     \<and> map_get (key_values c') = (map_get (key_values c))(key \<mapsto> with_expire (VString e) d)
     \<and> total (tracker c') + string_size (map_get (key_values c) key) = total (tracker c) + entry_size e"

lemma stored_string_replace:
  assumes "cache_ok E c" "map_wf m" "map_get m = (map_get (key_values c))(key \<mapsto> with_expire (VString e) d)"
    and "ekey e = key" "string_or_none (map_get (key_values c) key)" "total (tracker c) + entry_size e \<le> usize_max"
  shows "stored_string E key e d c (account_replace (string_size (map_get (key_values c) key)) (entry_size e) (c\<lparr>key_values := m\<rparr>))"
proof -
  let ?x = "map_get (key_values c) key" and ?c1 = "c\<lparr>key_values := m\<rparr>"
  let ?c' = "account_replace (string_size ?x) (entry_size e) ?c1"
  note k = cache_okD [OF assms(1)]
  have ch: "charge_at E cat key ?x = (if cat = Cache then string_size ?x else 0)" for cat
    using assms(5) by (cases ?x) (auto simp: charge_at_def string_size_def string_or_none_def slot_charge_def elim!: string_slot_cases)
  have ch': "charge_at E cat key (Some (with_expire (VString e) d)) = (if cat = Cache then entry_size e else 0)" for cat
    by (auto simp: charge_at_def with_expire_def slot_charge_def)
  have "string_size ?x \<le> category_memory Cache (tracker c)"
    using assms(5) charge_le [OF assms(1), of key _ Cache]
    by (cases ?x) (auto simp: string_size_def string_or_none_def slot_charge_def elim!: string_slot_cases)
  then have le: "string_size ?x \<le> category_memory Cache (tracker ?c1)" "string_memory ?c1 = category_memory Cache (tracker ?c1)"
    using string_memory_le(1) [OF assms(1)] by simp_all
  have "total (tracker ?c1) + entry_size e \<le> usize_max + string_size ?x" using assms(6) by simp
  note f = account_replace_fields [OF _ le this refl, simplified, OF k(2)]
  have "cache_ok E ?c'"
  proof (rule cache_ok_update [OF assms(1), where k = key and x = "Some (with_expire (VString e) d)"])
    show "own_key key s" if "Some (with_expire (VString e) d) = Some s" for s
      using that assms(4) by (auto simp: own_key_def with_expire_def)
  qed (use f assms le in \<open>simp_all add: ch ch'\<close>)
  then show ?thesis using f assms(3,6) by (simp add: stored_string_def same_settings_def)
qed

section \<open>Read-modify-write of a string\<close>

definition entry_of :: "'c key_slot option \<Rightarrow> entry option" where
  "entry_of x = (case x of Some s \<Rightarrow> (case slot_value s of VString e \<Rightarrow> Some e | _ \<Rightarrow> None) | None \<Rightarrow> None)"

definition deadline_of :: "'c key_slot option \<Rightarrow> int option" where
  "deadline_of x = (case x of Some s \<Rightarrow> expires_at s | None \<Rightarrow> None)"

lemma entry_of_Some: "entry_of x = Some e \<longleftrightarrow> (\<exists>s. x = Some s \<and> slot_value s = VString e)"
  by (auto simp: entry_of_def split: option.splits key_value.splits)

lemma entry_of_size: "string_size x = (case entry_of x of Some e \<Rightarrow> entry_size e | None \<Rightarrow> 0)"
  by (simp add: string_size_def entry_of_def split: option.splits key_value.splits)

lemma mutate_string_spec:
  fixes c :: "'c cache"
  assumes "cache_ok E c" "mutate_string key f c = (c1, res)"
  obtains (wrong) "\<not> string_or_none (map_get (key_values c) key)" "res = Inl WrongType" "unchanged_keys E c c1"
  | (decided) action d r cas where "string_or_none (map_get (key_values c) key)"
      "f (entry_of (map_get (key_values c) key)) (deadline_of (map_get (key_values c) key)) cas = (action, d, r)"
      "res = Inr r" "map_wf (key_values c1)" "c1 = c\<lparr>key_values := key_values c1\<rparr>"
      "map_get (key_values c1) = (case action of Keep \<Rightarrow> map_get (key_values c)
         | Set e \<Rightarrow> (map_get (key_values c))(key \<mapsto> with_expire (VString e) d) | Remove \<Rightarrow> (map_get (key_values c))(key := None))"
proof -
  let ?x = "map_get (key_values c) key"
  define g where "g = (\<lambda>(current :: 'c key_slot option) cas_id. case current of
      Some s \<Rightarrow> (case slot_value s of
          VString e \<Rightarrow> (let (action, new_exp, r) = f (Some e) (expires_at s) cas_id in (string_map_action action new_exp :: 'c key_slot map_action, Inr r))
        | _ \<Rightarrow> (Keep, Inl WrongType))
    | None \<Rightarrow> (let (action, new_exp, r) = f None None cas_id in (string_map_action action new_exp, Inr r)))"
  obtain m where m: "mutate key g (key_values c) = (m, res)" "c1 = c\<lparr>key_values := m\<rparr>"
    using assms(2) by (auto simp: mutate_string_def g_def split: prod.splits)
  obtain action cas where a: "g ?x cas = (action, res)" "map_wf m"
    "map_get m = (case action of Keep \<Rightarrow> map_get (key_values c) | Set v \<Rightarrow> (map_get (key_values c))(key \<mapsto> v)
       | Remove \<Rightarrow> (map_get (key_values c))(key := None))"
    by (rule mutate_facts [OF cache_okD(1) [OF assms(1)] m(1)])
  show thesis
  proof (cases "string_or_none ?x")
    case False
    then have "action = Keep" "res = Inl WrongType"
      using a(1) by (auto simp: g_def string_or_none_def string_slot_def split: option.splits key_value.splits)
    then show thesis using wrong False unchanged_same_map [OF assms(1) a(2)] a(3) m(2) by simp
  next
    case True
    obtain act d r where f: "f (entry_of ?x) (deadline_of ?x) cas = (act, d, r)" by (rule prod_cases3)
    have "action = string_map_action act d" "res = Inr r"
      using a(1) True f
      by (auto simp: g_def string_or_none_def string_slot_def entry_of_def deadline_of_def split: option.splits key_value.splits)
    then show thesis
      using decided [OF True f] a(2,3) m(2) by (auto simp: string_map_action_def split: map_action.splits)
  qed
qed

text \<open>With a decision that keeps the slot or sets a string of the same key, the three possible results.\<close>

lemma string_rmw:
  assumes "cache_ok E c" "mutate_string key f c = (c1, res)"
    and "\<And>cas action d r. f (entry_of (map_get (key_values c) key)) (deadline_of (map_get (key_values c) key)) cas = (action, d, r)
      \<Longrightarrow> action = Keep \<or> (\<exists>e. action = Set e \<and> ekey e = key \<and> total (tracker c) + entry_size e \<le> usize_max)"
  obtains (wrong) "\<not> string_or_none (map_get (key_values c) key)" "res = Inl WrongType" "unchanged_keys E c c1"
  | (keep) d r cas where "string_or_none (map_get (key_values c) key)"
      "f (entry_of (map_get (key_values c) key)) (deadline_of (map_get (key_values c) key)) cas = (Keep, d, r)"
      "res = Inr r" "unchanged_keys E c c1"
  | (set) e d r cas where "string_or_none (map_get (key_values c) key)"
      "f (entry_of (map_get (key_values c) key)) (deadline_of (map_get (key_values c) key)) cas = (Set e, d, r)"
      "res = Inr r"
      "stored_string E key e d c (account_replace (string_size (map_get (key_values c) key)) (entry_size e) c1)"
  using assms(1,2)
proof (cases rule: mutate_string_spec)
  case wrong
  then show ?thesis using that(1) by blast
next
  case (decided action d r cas)
  show ?thesis
  proof (cases action)
    case Keep
    then show ?thesis using that(2) decided unchanged_same_map [OF assms(1) decided(4)] by (metis map_action.simps(8))
  next
    case (Set e)
    then have "ekey e = key" "total (tracker c) + entry_size e \<le> usize_max" using assms(3) [OF decided(2)] by auto
    then show ?thesis
      using that(3) decided Set stored_string_replace [OF assms(1) decided(4), of key e d] by (metis map_action.simps(9))
  next
    case Remove
    then show ?thesis using assms(3) [OF decided(2)] by simp
  qed
qed

section \<open>Making room\<close>

text \<open>
  The effect of making room: keys may have been evicted, and the total has not grown.
\<close>

definition room_made :: "'c env \<Rightarrow> 'c cache \<Rightarrow> 'c cache \<Rightarrow> bool" where
  "room_made E c c' \<longleftrightarrow> cache_ok E c' \<and> same_settings c c' \<and> total (tracker c') \<le> total (tracker c)
     \<and> (\<forall>k. map_get (key_values c') k = map_get (key_values c) k
          \<or> map_get (key_values c') k = None \<and> (\<exists>s. map_get (key_values c) k = Some s \<and> evictable E c s))"

lemma room_made_refl: "cache_ok E c \<Longrightarrow> room_made E c c"
  by (simp add: room_made_def)

lemma room_made_stats [simp]: "room_made E c (c'\<lparr>stats := st\<rparr>) = room_made E c c'"
  by (simp add: room_made_def)

lemma evicted_room: "evicted E needed freed c c' res \<Longrightarrow> room_made E c c'"
  by (auto simp: evicted_def room_made_def)

lemma evicted_result:
  "evicted E needed 0 c c' res \<Longrightarrow>
     (res = Inr () \<or> res = Inl OutOfMemory) \<and> (res = Inr () \<longrightarrow> total (tracker c') + needed \<le> total (tracker c))"
  unfolding evicted_def by (elim conjE exE) (simp split: if_splits)

lemma evict_memory_room:
  assumes "cache_ok E c" "shuffle_ok E"
  obtains c' res where "evict_memory E needed c = Some (c', res)" "room_made E c c'" "res = Inr () \<or> res = Inl OutOfMemory"
    "res = Inr () \<Longrightarrow> total (tracker c') + needed \<le> total (tracker c)"
proof (rule evict_memory_spec [OF assms, of needed])
  fix c' res
  assume e: "evict_memory E needed c = Some (c', res)" "evicted E needed 0 c c' res \<or> c' = c \<and> res = Inl OutOfMemory"
  then show thesis
    using that [OF e(1)] evicted_room [of E needed 0 c c' res] evicted_result [of E needed c c' res] room_made_refl [OF assms(1)]
    by blast
qed

lemma ensure_capacity_spec:
  assumes "cache_ok E c" "shuffle_ok E"
  obtains c' res where "ensure_capacity E needed c = Some (c', res)" "room_made E c c'" "res = Inr () \<or> res = Inl OutOfMemory"
proof -
  obtain c1 r where e: "evict_memory E needed c = Some (c1, r)" "room_made E c c1" "r = Inr () \<or> r = Inl OutOfMemory"
    by (rule evict_memory_room [OF assms])
  have "\<exists>c' res. ensure_capacity E needed c = Some (c', res) \<and> room_made E c c' \<and> (res = Inr () \<or> res = Inl OutOfMemory)"
    using e room_made_refl [OF assms(1)] by (auto simp: ensure_capacity_def note_no_memory_def)
  then show thesis using that by blast
qed

lemma ensure_non_string_capacity_spec:
  assumes "cache_ok E c" "shuffle_ok E"
  obtains c' res where "ensure_non_string_capacity E needed c = Some (c', res)" "room_made E c c'"
    "res = Inr () \<and> (needed = 0 \<or> can_allocate needed SortedSets (tracker c')) \<or> res = Inl OutOfMemory"
proof -
  obtain c1 r where e: "evict_memory E needed c = Some (c1, r)" "room_made E c c1" "r = Inr () \<or> r = Inl OutOfMemory"
    by (rule evict_memory_room [OF assms])
  have "\<exists>c' res. ensure_non_string_capacity E needed c = Some (c', res) \<and> room_made E c c'
      \<and> (res = Inr () \<and> (needed = 0 \<or> can_allocate needed SortedSets (tracker c')) \<or> res = Inl OutOfMemory)"
    using e room_made_refl [OF assms(1)] by (auto simp: ensure_non_string_capacity_def note_no_memory_def)
  then show thesis using that by blast
qed

lemma store_headroom_spec:
  assumes "cache_ok E c" "shuffle_ok E"
  obtains c' res where "store_headroom E key sz c = Some (c', res)" "room_made E c c'" "res = Inr () \<or> res = Inl OutOfMemory"
    "limit c = 0 \<or> total (tracker c) + sz \<le> limit c \<longrightarrow> c' = c \<and> res = Inr ()"
proof -
  obtain c1 r where e: "ensure_capacity E (sz - (case get_string_entry E key c of Some e \<Rightarrow> entry_size e | None \<Rightarrow> 0)) c = Some (c1, r)"
    "room_made E c c1" "r = Inr () \<or> r = Inl OutOfMemory"
    by (rule ensure_capacity_spec [OF assms])
  show thesis
  proof (cases "limit c \<noteq> 0 \<and> saturating_add (total_memory (tracker c)) sz > limit c")
    case True
    then have "\<not> (limit c = 0 \<or> total (tracker c) + sz \<le> limit c)"
      by (auto simp: saturating_add_def total_memory_def split: if_splits)
    then show thesis using that [of c1 r] True e by (auto simp: store_headroom_def Let_def)
  next
    case False
    then show thesis using that [of c "Inr ()"] room_made_refl [OF assms(1)] by (auto simp: store_headroom_def)
  qed
qed

section \<open>Storing a string\<close>

lemma live_string: "string_or_none (map_get (key_values c) key) \<Longrightarrow>
    get_string_entry E key c = (if slot_ttl_live E (deadline_of (map_get (key_values c) key))
      then entry_of (map_get (key_values c) key) else None)"
  by (auto simp: get_string_entry_def slot_ttl_live_def deadline_of_def entry_of_def slot_expired_def string_or_none_def
      string_slot_def split: option.splits key_value.splits)

lemma view_string:
  "get_string_entry E key c = entry_of (view E c key)"
  by (auto simp: get_string_entry_def view_def entry_of_def split: option.splits key_value.splits)

text \<open>When and how SET refuses, given the string a client can see under the key.\<close>

definition set_refusal :: "store_options \<Rightarrow> entry option \<Rightarrow> (err + entry option) option" where
  "set_refusal opts live =
     (if opt_nx opts \<and> live \<noteq> None then Some (Inr live)
      else if opt_xx opts \<and> live = None then Some (Inr None)
      else case opt_cas opts of
             None \<Rightarrow> None
           | Some cas \<Rightarrow>
               (case live of
                  None \<Rightarrow> Some (Inl KeyNotFound)
                | Some e \<Rightarrow> if ecas e = cas then None else Some (Inl CasMismatch)))"

text \<open>The deadline SET leaves: an explicit one, else with KEEPTTL that of the visible string.\<close>

definition set_deadline :: "'c env \<Rightarrow> store_options \<Rightarrow> int option \<Rightarrow> int option" where
  "set_deadline E opts d =
     (if resolve_expiration E opts \<noteq> None then resolve_expiration E opts else if opt_keepttl opts then d else None)"

definition store_mutate ::
  "'c env \<Rightarrow> bytes \<Rightarrow> bytes \<Rightarrow> nat \<Rightarrow> store_options \<Rightarrow> 'c cache \<Rightarrow> 'c cache \<times> (err + entry option)" where
  "store_mutate E key v sz opts c =
     (case mutate_string key (store_decide E key v sz opts) c of
        (c2, Inl e) \<Rightarrow> (c2, Inl e)
      | (c2, Inr outcome) \<Rightarrow> store_finish opts outcome c2)"

definition set_entry :: "'c env \<Rightarrow> bytes \<Rightarrow> bytes \<Rightarrow> store_options \<Rightarrow> nat \<Rightarrow> entry" where
  "set_entry E key v opts cas = (new_entry E key v)\<lparr>eflags := opt_flags opts, ecas := cas\<rparr>"

lemma set_entry_fields [simp]:
  "ekey (set_entry E key v opts cas) = key" "evalue (set_entry E key v opts cas) = v"
  "eflags (set_entry E key v opts cas) = opt_flags opts"
  "entry_size (set_entry E key v opts cas) = estimate_string_entry (length key) (length v) ENTRY_STRUCT"
  by (simp_all add: set_entry_def new_entry_def entry_size_def)

lemma store_decide_spec:
  "store_decide E key v sz opts x d cas =
     (let live = (if slot_ttl_live E d then x else None)
      in case set_refusal opts live of
           None \<Rightarrow> (Set (set_entry E key v opts cas), set_deadline E opts (if slot_ttl_live E d then d else None),
                    Stored (if opt_get opts then live else None) (case x of Some e \<Rightarrow> entry_size e | None \<Rightarrow> 0) sz)
         | Some (Inr (Some e)) \<Rightarrow> (Keep, None, Exists e)
         | Some (Inr None) \<Rightarrow> (Keep, None, NotExists)
         | Some (Inl CasMismatch) \<Rightarrow> (Keep, None, CasMismatched)
         | Some (Inl _) \<Rightarrow> (Keep, None, CasMiss))"
  by (cases x; cases "opt_cas opts")
    (simp_all add: store_decide_def set_refusal_def set_deadline_def set_entry_def Let_def)

lemma store_mutate_spec:
  assumes "cache_ok E c" "sz = estimate_string_entry (length key) (length v) ENTRY_STRUCT" "total (tracker c) + sz \<le> usize_max"
    and "store_mutate E key v sz opts c = (c', res)"
  shows "if \<not> string_or_none (map_get (key_values c) key) then res = Inl WrongType \<and> unchanged_keys E c c'
    else case set_refusal opts (get_string_entry E key c) of
           Some r \<Rightarrow> res = r \<and> unchanged_keys E c c'
         | None \<Rightarrow> res = Inr (if opt_get opts then get_string_entry E key c else None)
             \<and> (\<exists>cas. stored_string E key (set_entry E key v opts cas) (set_deadline E opts (deadline_of (view E c key))) c c')"
proof -
  let ?x = "map_get (key_values c) key"
  obtain c1 r where m: "mutate_string key (store_decide E key v sz opts) c = (c1, r)" by (rule prod.exhaust)
  have ok: "action = Keep \<or> (\<exists>e. action = Set e \<and> ekey e = key \<and> total (tracker c) + entry_size e \<le> usize_max)"
    if "store_decide E key v sz opts (entry_of ?x) (deadline_of ?x) cas = (action, d, r)" for cas action d r
    using that assms(2,3)
    by (auto simp: store_decide_spec Let_def split: option.splits sum.splits err.splits)
  show ?thesis
  proof (cases rule: string_rmw [OF assms(1) m ok, case_names _ wrong keep set])
    case wrong
    then show ?thesis using assms(4) m by (simp add: store_mutate_def)
  next
    case (keep d out cas)
    then show ?thesis
      using assms(4) m
      by (auto simp: store_mutate_def store_decide_spec live_string Let_def store_finish_def set_refusal_def
          split: option.splits sum.splits err.splits if_splits)
  next
    case (set e d out cas)
    have dl: "deadline_of (view E c key) = (if slot_ttl_live E (deadline_of ?x) then deadline_of ?x else None)"
      by (auto simp: view_def deadline_of_def slot_ttl_live_def slot_expired_def split: option.splits)
    note dec = set(2) [unfolded store_decide_spec live_string [OF set(1), of E, symmetric] Let_def]
    have n: "set_refusal opts (get_string_entry E key c) = None"
      using dec by (auto split: option.splits sum.splits err.splits)
    then have e: "e = set_entry E key v opts cas" "d = set_deadline E opts (deadline_of (view E c key))"
      "out = Stored (if opt_get opts then get_string_entry E key c else None) (string_size ?x) (entry_size e)"
      using dec assms(2) unfolding dl by (auto simp: entry_of_size)
    show ?thesis
      using set(1,3,4) assms(4) m n
      by (auto simp: store_mutate_def store_finish_def e Let_def stored_string_def)
  qed
qed

lemma store_unfold:
  assumes "logical_string_entry (length key) (length v) ENTRY_STRUCT \<le> max_entry_size c"
    and "store_headroom E key (estimate_string_entry (length key) (length v) ENTRY_STRUCT) c = Some (c1, room)"
  shows "store E key v opts c = Some (case room of Inl e \<Rightarrow> (c1, Inl e)
    | Inr _ \<Rightarrow> store_mutate E key v (estimate_string_entry (length key) (length v) ENTRY_STRUCT) opts c1)"
  using assms by (auto simp: store_def store_mutate_def Let_def not_less split: sum.splits prod.splits)

lemma store_cases:
  assumes "cache_ok E c" "shuffle_ok E" "sz = estimate_string_entry (length key) (length v) ENTRY_STRUCT"
  obtains (large) c' where "logical_string_entry (length key) (length v) ENTRY_STRUCT > max_entry_size c"
      "store E key v opts c = Some (c', Inl EntryTooLarge)" "unchanged_keys E c c'"
  | (oom) c' where "limit c \<noteq> 0 \<and> total (tracker c) + sz > limit c" "store E key v opts c = Some (c', Inl OutOfMemory)"
      "room_made E c c'"
  | (mutated) c1 where "logical_string_entry (length key) (length v) ENTRY_STRUCT \<le> max_entry_size c" "room_made E c c1"
      "store E key v opts c = Some (store_mutate E key v sz opts c1)"
      "limit c = 0 \<or> total (tracker c) + sz \<le> limit c \<Longrightarrow> c1 = c"
proof (cases "logical_string_entry (length key) (length v) ENTRY_STRUCT > max_entry_size c")
  case True
  then show thesis using large unchanged_refl [OF assms(1)] by (simp add: store_def)
next
  case False
  obtain c1 room where h: "store_headroom E key sz c = Some (c1, room)" "room_made E c c1"
    "room = Inr () \<or> room = Inl OutOfMemory" "limit c = 0 \<or> total (tracker c) + sz \<le> limit c \<longrightarrow> c1 = c \<and> room = Inr ()"
    by (rule store_headroom_spec [OF assms(1,2), where key = key and sz = sz])
  note u = store_unfold [OF _ h(1) [unfolded assms(3)], of opts, folded assms(3)]
  show thesis using u h(2-4) oom mutated False by (auto simp: not_less)
qed

lemma unchanged_keysD: "unchanged_keys E c c' \<Longrightarrow> cache_ok E c'" "unchanged_keys E c c' \<Longrightarrow> same_settings c c'"
  by (simp_all add: unchanged_keys_def)

lemma stored_stringD: "stored_string E k e d c c' \<Longrightarrow> cache_ok E c'" "stored_string E k e d c c' \<Longrightarrow> same_settings c c'"
  by (simp_all add: stored_string_def)

lemma room_madeD: "room_made E c c' \<Longrightarrow> cache_ok E c'" "room_made E c c' \<Longrightarrow> same_settings c c'"
  "room_made E c c' \<Longrightarrow> total (tracker c') \<le> total (tracker c)"
  by (simp_all add: room_made_def)

lemma store_mutate_ok:
  assumes "cache_ok E c" "sz = estimate_string_entry (length key) (length v) ENTRY_STRUCT" "total (tracker c) + sz \<le> usize_max"
    and "store_mutate E key v sz opts c = (c', res)"
  shows "cache_ok E c' \<and> same_settings c c'"
  using store_mutate_spec [OF assms] unchanged_keysD stored_stringD
  by (auto split: if_splits option.splits)

lemma store_ok:
  assumes "cache_ok E c" "shuffle_ok E" "total (tracker c) + estimate_string_entry (length key) (length v) ENTRY_STRUCT \<le> usize_max"
  obtains c' res where "store E key v opts c = Some (c', res)" "cache_ok E c'" "same_settings c c'"
proof -
  let ?sz = "estimate_string_entry (length key) (length v) ENTRY_STRUCT"
  show thesis
  proof (cases rule: store_cases [OF assms(1,2) refl, of key v opts, case_names large oom mutated])
    case (mutated c1)
    obtain c' res where m: "store_mutate E key v ?sz opts c1 = (c', res)" by (rule prod.exhaust)
    have "cache_ok E c' \<and> same_settings c1 c'"
      by (rule store_mutate_ok [OF room_madeD(1) [OF mutated(2)] refl _ m]) (use room_madeD(3) [OF mutated(2)] assms(3) in simp)
    then show thesis using that mutated(3) m room_madeD(2) [OF mutated(2)] same_settings_trans by auto
  qed (use that unchanged_keysD room_madeD in blast)+
qed

section \<open>Reads, deletions and deadlines\<close>

lemma touch_fields [simp]: "ekey (touch E f t e) = ekey e" "evalue (touch E f t e) = evalue e" "eflags (touch E f t e) = eflags e"
  "ecas (touch E f t e) = ecas e" "entry_size (touch E f t e) = entry_size e"
  by (simp_all add: touch_def entry_size_def)

lemma cache_ok_same_size:
  assumes "cache_ok E c" "map_get (key_values c) k = Some s" "slot_value s = VString e" "ekey e' = ekey e" "entry_size e' = entry_size e"
  shows "cache_ok E (c\<lparr>key_values := fst (map_insert k (s\<lparr>slot_value := VString e'\<rparr>) (key_values c))\<rparr>)"
proof (rule cache_ok_update [OF assms(1), where k = k and x = "Some (s\<lparr>slot_value := VString e'\<rparr>)"])
  show "own_key k s'" if "Some (s\<lparr>slot_value := VString e'\<rparr>) = Some s'" for s'
    using that cache_okD(5) [OF assms(1,2)] assms(3,4) by (auto simp: own_key_def)
qed (use assms cache_okD [OF assms(1)] in \<open>simp_all add: map_insert_facts charge_at_def slot_charge_def\<close>)

lemma load_spec:
  assumes "cache_ok E c" "load E key touching c = (c', r)"
  shows "cache_ok E c'" "same_settings c c'"
    "r = map_option (\<lambda>e. if touching then touch E (lfu_log_factor c) (lfu_decay_time c) e else e) (get_string_entry E key c)"
    "view E c' = (case r of Some e \<Rightarrow> (view E c)(key \<mapsto> (the (view E c key))\<lparr>slot_value := VString e\<rparr>) | None \<Rightarrow> view E c)"
proof -
  note d = cache_okD [OF assms(1)]
  let ?t = "\<lambda>e. if touching then touch E (lfu_log_factor c) (lfu_decay_time c) e else e"
  consider (miss) "entry_of (map_get (key_values c) key) = None"
    | (gone) s e where "map_get (key_values c) key = Some s" "slot_value s = VString e" "slot_expired E s"
    | (hit) s e where "map_get (key_values c) key = Some s" "slot_value s = VString e" "\<not> slot_expired E s"
    using entry_of_Some by (metis not_None_eq)
  then have "cache_ok E c' \<and> same_settings c c' \<and> r = map_option ?t (get_string_entry E key c)
    \<and> view E c' = (case r of Some e \<Rightarrow> (view E c)(key \<mapsto> (the (view E c key))\<lparr>slot_value := VString e\<rparr>) | None \<Rightarrow> view E c)"
  proof cases
    case miss
    then have "\<exists>st. c' = c\<lparr>stats := st\<rparr>" "r = None" "get_string_entry E key c = None"
      using assms(2) by (auto simp: load_def entry_of_def get_string_entry_def Let_def split: option.splits key_value.splits)
    then show ?thesis using assms(1) by auto
  next
    case gone
    define c1 where "c1 = free_string (entry_size e) (c\<lparr>key_values := fst (map_remove key (key_values c))\<rparr>)"
    have "c1 = c\<lparr>key_values := fst (map_remove key (key_values c)),
           tracker := deallocate (slot_charge E key (slot_value s)) (value_category (slot_value s)) (tracker c),
           string_memory := (if value_category (slot_value s) = Cache
             then wrapping_sub (string_memory c) (slot_charge E key (slot_value s)) else string_memory c)\<rparr>"
      by (simp add: c1_def free_string_def gone(2) slot_charge_def)
    note f = freed_key_free [OF assms(1) gone(1) this]
    have c': "\<exists>st. c' = c1\<lparr>stats := st\<rparr>" "r = None" "get_string_entry E key c = None"
      using assms(2) gone by (auto simp: load_def Let_def c1_def free_string_def get_string_entry_def)
    have "view E c1 = view E c" using f gone by (auto simp: fun_eq_iff view_def freed_key_def)
    then show ?thesis using c' f by (auto simp: freed_key_def)
  next
    case hit
    define c1 where "c1 = c\<lparr>key_values := fst (map_insert key (s\<lparr>slot_value := VString (?t e)\<rparr>) (key_values c))\<rparr>"
    have c': "\<exists>st. c' = c1\<lparr>stats := st\<rparr>" "r = Some (?t e)" "get_string_entry E key c = Some e" "view E c key = Some s"
      using assms(2) hit by (auto simp: load_def Let_def c1_def get_string_entry_def view_def)
    have "cache_ok E c1" unfolding c1_def by (rule cache_ok_same_size [OF assms(1) hit(1,2)]) simp_all
    moreover have "view E c1 = (view E c)(key \<mapsto> s\<lparr>slot_value := VString (?t e)\<rparr>)"
      using hit(3) by (auto simp: fun_eq_iff view_def c1_def map_insert_facts [OF d(1)] slot_expired_def)
    moreover have "same_settings c c1" by (simp add: c1_def same_settings_def)
    ultimately show ?thesis using c' by auto
  qed
  then show "cache_ok E c'" "same_settings c c'" "r = map_option ?t (get_string_entry E key c)"
    "view E c' = (case r of Some e \<Rightarrow> (view E c)(key \<mapsto> (the (view E c key))\<lparr>slot_value := VString e\<rparr>) | None \<Rightarrow> view E c)"
    by simp_all
qed

lemma delete_spec:
  assumes "cache_ok E c" "delete E key c = (c', deleted)"
  shows "cache_ok E c'" "same_settings c c'" "map_get (key_values c') = (map_get (key_values c))(key := None)"
    "deleted \<longleftrightarrow> map_get (key_values c) key \<noteq> None" "view E c' = (view E c)(key := None)"
proof -
  let ?c = "c\<lparr>stats := (stats c)\<lparr>cmd_del := cmd_del (stats c) + 1\<rparr>\<rparr>"
  have "cache_ok E ?c" "remove_key_value_raw E key ?c = (c', deleted)" using assms by (simp_all add: delete_def)
  note r = remove_raw_spec [OF this]
  show "cache_ok E c'" "map_get (key_values c') = (map_get (key_values c))(key := None)"
    "deleted \<longleftrightarrow> map_get (key_values c) key \<noteq> None" "same_settings c c'"
    using r by (simp_all add: same_settings_def)
  then show "view E c' = (view E c)(key := None)" by (auto simp: fun_eq_iff view_def)
qed

lemma delete_many_spec:
  assumes "cache_ok E c" "delete_many E ks c = (c', n)"
  shows "cache_ok E c' \<and> same_settings c c' \<and> map_get (key_values c') = (map_get (key_values c)) |` (- set ks)
    \<and> n = card (set ks \<inter> dom (map_get (key_values c)))"
  using assms
proof (induction ks arbitrary: c n)
  case (Cons k ks)
  obtain c1 del where d: "delete E k c = (c1, del)" by (rule prod.exhaust)
  obtain n1 where n1: "delete_many E ks c1 = (c', n1)" "n = (if del then n1 + 1 else n1)"
    using Cons.prems(2) by (auto simp: d split: prod.splits)
  note ds = delete_spec [OF Cons.prems(1) d]
  note IH = Cons.IH [OF ds(1) n1(1)]
  let ?D = "dom (map_get (key_values c))"
  have "set (k # ks) \<inter> ?D = (if k \<in> ?D then insert k (set ks \<inter> (?D - {k})) else set ks \<inter> (?D - {k}))" by auto
  moreover have "dom (map_get (key_values c1)) = ?D - {k}" by (simp add: ds(3))
  ultimately have "n = card (set (k # ks) \<inter> ?D)" using IH n1(2) ds(4) by (auto simp: dom_def)
  moreover have "map_get (key_values c') = (map_get (key_values c)) |` (- set (k # ks))"
    using IH by (auto simp: fun_eq_iff restrict_map_def ds(3))
  ultimately show ?case using IH same_settings_trans [OF ds(2)] by blast
qed (simp add: restrict_map_def)

text \<open>A new deadline for a key that is there.\<close>

lemma set_deadline_mutate:
  assumes "cache_ok E c"
    and "mutate key (\<lambda>cur _. case cur of Some s \<Rightarrow> if P s then (Set (s\<lparr>expires_at := d\<rparr>), True) else (Keep, False)
                                 | None \<Rightarrow> (Keep, False)) (key_values c) = (m, r)"
  shows "cache_ok E (c\<lparr>key_values := m\<rparr>)" "r \<longleftrightarrow> (\<exists>s. map_get (key_values c) key = Some s \<and> P s)"
    "map_get m = (if r then (map_get (key_values c))(key \<mapsto> (the (map_get (key_values c) key))\<lparr>expires_at := d\<rparr>)
       else map_get (key_values c))"
proof -
  obtain action cas where a: "(case map_get (key_values c) key of
        Some s \<Rightarrow> if P s then (Set (s\<lparr>expires_at := d\<rparr>), True) else (Keep, False) | None \<Rightarrow> (Keep, False)) = (action, r)"
    "map_wf m" "map_get m = (case action of Keep \<Rightarrow> map_get (key_values c) | Set v \<Rightarrow> (map_get (key_values c))(key \<mapsto> v)
       | Remove \<Rightarrow> (map_get (key_values c))(key := None))"
    by (rule mutate_facts [OF cache_okD(1) [OF assms(1)] assms(2)]) blast
  show r: "r \<longleftrightarrow> (\<exists>s. map_get (key_values c) key = Some s \<and> P s)" using a(1) by (auto split: option.splits if_splits)
  show m: "map_get m = (if r then (map_get (key_values c))(key \<mapsto> (the (map_get (key_values c) key))\<lparr>expires_at := d\<rparr>)
       else map_get (key_values c))"
    using a(1,3) by (auto split: option.splits if_splits)
  show "cache_ok E (c\<lparr>key_values := m\<rparr>)"
  proof (cases r)
    case True
    then obtain s where s: "map_get (key_values c) key = Some s" using r by auto
    show ?thesis by (rule cache_ok_deadline [OF assms(1) a(2) s, of d]) (use m True s in simp)
  next
    case False
    then show ?thesis using cache_ok_same_map [OF assms(1) a(2)] m by simp
  qed
qed

lemma expire_spec:
  assumes "cache_ok E c" "expire E key ms c = (c', r)"
  shows "cache_ok E c'" "same_settings c c'" "r \<longleftrightarrow> view E c key \<noteq> None"
    "view E c' = (if \<not> r then view E c else if ms = 0 then (view E c)(key := None)
       else (view E c)(key \<mapsto> (the (view E c key))\<lparr>expires_at := Some (now E + int ms * 1000000)\<rparr>))"
proof -
  obtain c1 kt where k: "key_type E key c = (c1, kt)" by (rule prod.exhaust)
  note ks = key_type_spec [OF assms(1) k]
  have none: "kt = TNone \<longleftrightarrow> view E c key = None" by (cases "view E c key") (simp_all add: ks(4) type_of_slot_def)
  have "cache_ok E c' \<and> same_settings c c' \<and> r = (view E c key \<noteq> None)
    \<and> view E c' = (if \<not> r then view E c else if ms = 0 then (view E c)(key := None)
       else (view E c)(key \<mapsto> (the (view E c key))\<lparr>expires_at := Some (now E + int ms * 1000000)\<rparr>))"
  proof (cases "view E c key")
    case None
    then show ?thesis using assms(2) ks none by (simp add: expire_def k)
  next
    case (Some s)
    show ?thesis
    proof (cases "ms = 0")
      case True
      then have "c' = fst (delete E key c1)" "r" using assms(2) none Some by (auto simp: expire_def k)
      then show ?thesis
        using delete_spec [OF ks(1) prod.collapse [symmetric], of key] True Some ks(2) same_settings_trans [OF ks(3)] by simp
    next
      case False
      let ?d = "Some (now E + int ms * 1000000)"
      obtain m where m: "mutate key (\<lambda>cur _. case cur of Some s \<Rightarrow> (Set (s\<lparr>expires_at := ?d\<rparr>), True)
                                 | None \<Rightarrow> (Keep, False)) (key_values c1) = (m, r)" "c' = c1\<lparr>key_values := m\<rparr>"
        using assms(2) none Some False by (auto simp: expire_def k split: prod.splits)
      note sd = set_deadline_mutate [where P = "\<lambda>_. True", OF ks(1), unfolded if_True, OF m(1)]
      have "view E c' = (view E c1)(key \<mapsto> s\<lparr>expires_at := ?d\<rparr>)"
        using sd(2,3) ks(5) Some False by (auto simp: fun_eq_iff view_def m(2) slot_expired_def)
      then show ?thesis using sd ks m(2) Some False by (simp add: same_settings_def)
    qed
  qed
  then show "cache_ok E c'" "same_settings c c'" "r \<longleftrightarrow> view E c key \<noteq> None"
    "view E c' = (if \<not> r then view E c else if ms = 0 then (view E c)(key := None)
       else (view E c)(key \<mapsto> (the (view E c key))\<lparr>expires_at := Some (now E + int ms * 1000000)\<rparr>))"
    by simp_all
qed

lemma persist_spec:
  assumes "cache_ok E c" "persist key c = (c', r)"
  shows "cache_ok E c'" "same_settings c c'" "r \<longleftrightarrow> deadline_of (map_get (key_values c) key) \<noteq> None"
    "map_get (key_values c') = (if r then (map_get (key_values c))(key \<mapsto> (the (map_get (key_values c) key))\<lparr>expires_at := None\<rparr>)
       else map_get (key_values c))"
proof -
  obtain m where m: "mutate key (\<lambda>cur _. case cur of Some s \<Rightarrow> if expires_at s \<noteq> None then (Set (s\<lparr>expires_at := None\<rparr>), True) else (Keep, False)
                               | None \<Rightarrow> (Keep, False)) (key_values c) = (m, r)" "c' = c\<lparr>key_values := m\<rparr>"
    using assms(2) by (auto simp: persist_def split: prod.splits)
  note sd = set_deadline_mutate [OF assms(1) m(1)]
  show "cache_ok E c'" "same_settings c c'" using sd(1) by (simp_all add: m(2) same_settings_def)
  show "r \<longleftrightarrow> deadline_of (map_get (key_values c) key) \<noteq> None" using sd(2) by (auto simp: deadline_of_def split: option.splits)
  show "map_get (key_values c') = (if r then (map_get (key_values c))(key \<mapsto> (the (map_get (key_values c) key))\<lparr>expires_at := None\<rparr>)
       else map_get (key_values c))"
    using sd(3) by (simp add: m(2))
qed

lemma ttl_spec:
  assumes "cache_ok E c" "ttl E key c = (c', t)"
  shows "cache_ok E c'" "view E c' = view E c" "same_settings c c'"
    "t = (case view E c key of None \<Rightarrow> -2
          | Some s \<Rightarrow> (case expires_at s of None \<Rightarrow> -1 | Some d \<Rightarrow> wrap_i64 ((d - now E) div 1000000)))"
proof -
  obtain purged where p: "purge_if_expired E key c = (c', purged)" using assms(2) by (auto simp: ttl_def split: prod.splits)
  note ps = purge_spec [OF assms(1) p]
  show "cache_ok E c'" "view E c' = view E c" "same_settings c c'" by (fact ps)+
  show "t = (case view E c key of None \<Rightarrow> -2
          | Some s \<Rightarrow> (case expires_at s of None \<Rightarrow> -1 | Some d \<Rightarrow> wrap_i64 ((d - now E) div 1000000)))"
  proof (cases "view E c key")
    case None
    then show ?thesis using assms(2) p ps(6) by (auto simp: ttl_def split: if_splits)
  next
    case (Some s)
    then have "\<not> purged" "expires_at s = Some d \<Longrightarrow> now E < d" for d
      using ps(4) by (auto simp: view_def slot_expired_def split: option.splits if_splits)
    then show ?thesis
      using assms(2) p ps(6) Some by (cases "expires_at s") (auto simp: ttl_def not_le split: if_splits)
  qed
qed

lemma keys_loop_spec:
  assumes "cache_ok E c" "keys_loop E ks c = (c', out)" "\<forall>k \<in> set ks. map_get (key_values c) k \<noteq> None" "distinct ks"
  shows "cache_ok E c' \<and> view E c' = view E c \<and> same_settings c c' \<and> out = filter (\<lambda>k. view E c k \<noteq> None) ks"
  using assms
proof (induction ks arbitrary: c out)
  case (Cons k ks)
  obtain c1 purged where p: "purge_if_expired E k c = (c1, purged)" by (rule prod.exhaust)
  note ps = purge_spec [OF Cons.prems(1) p]
  obtain rest where r: "keys_loop E ks c1 = (c', rest)"
    "out = (if purged \<or> map_get (key_values c1) k = None then rest else k # rest)"
    using Cons.prems(2) by (auto simp: p split: prod.splits)
  have "\<forall>j \<in> set ks. map_get (key_values c1) j \<noteq> None" using Cons.prems(3,4) ps(5) by auto
  then have IH: "cache_ok E c' \<and> view E c' = view E c1 \<and> same_settings c1 c' \<and> rest = filter (\<lambda>k. view E c1 k \<noteq> None) ks"
    using Cons.IH [OF ps(1) r(1)] Cons.prems(4) by simp
  have "purged \<or> map_get (key_values c1) k = None \<longleftrightarrow> view E c k = None" using ps(4,6) by (auto simp: view_def)
  then show ?case using IH r(2) ps(2) same_settings_trans [OF ps(3)] by auto
qed simp

lemma keys_spec:
  assumes "cache_ok E c" "keys E pattern c = (c', out)"
  shows "cache_ok E c'" "view E c' = view E c" "same_settings c c'" "distinct out"
    "k \<in> set out \<longleftrightarrow> view E c k \<noteq> None \<and> (case pattern of None \<Rightarrow> True | Some pat \<Rightarrow> glob pat (key_text k))"
proof -
  note w = cache_okD(1) [OF assms(1)]
  note mk = map_keys_spec [OF w, where pattern = pattern]
  have l: "cache_ok E c' \<and> view E c' = view E c \<and> same_settings c c'
      \<and> out = filter (\<lambda>k. view E c k \<noteq> None) (map_keys pattern (key_values c))"
    by (rule keys_loop_spec) (use assms mk in \<open>auto simp: keys_def\<close>)
  then show "cache_ok E c'" "view E c' = view E c" "same_settings c c'" "distinct out" using mk by auto
  have "view E c k \<noteq> None \<Longrightarrow> map_get (key_values c) k \<noteq> None" by (auto simp: view_def split: option.splits)
  then show "k \<in> set out \<longleftrightarrow> view E c k \<noteq> None \<and> (case pattern of None \<Rightarrow> True | Some pat \<Rightarrow> glob pat (key_text k))"
    using l mk(2) by auto
qed

section \<open>Counters, APPEND and SETRANGE\<close>

abbreviation fits :: "'c cache \<Rightarrow> nat \<Rightarrow> bool" where
  "fits c n \<equiv> total (tracker c) + n \<le> usize_max"

text \<open>What INCR reads: 0 for an absent key, the integer of the visible string, or nothing.\<close>

definition incr_base :: "entry option \<Rightarrow> int option" where
  "incr_base live =
     (case live of None \<Rightarrow> Some 0 | Some e \<Rightarrow> if utf8_decode (evalue e) = None then None else parse_i64 (evalue e))"

definition rmw_entry :: "'c env \<Rightarrow> bytes \<Rightarrow> bytes \<Rightarrow> entry option \<Rightarrow> nat \<Rightarrow> entry" where
  "rmw_entry E key v live cas =
     (new_entry E key v)\<lparr>eflags := (case live of Some e \<Rightarrow> eflags e | None \<Rightarrow> 0), ecas := cas\<rparr>"

lemma rmw_entry_fields [simp]:
  "ekey (rmw_entry E key v live cas) = key" "evalue (rmw_entry E key v live cas) = v"
  "entry_size (rmw_entry E key v live cas) = estimate_string_entry (length key) (length v) ENTRY_STRUCT"
  by (simp_all add: rmw_entry_def new_entry_def entry_size_def)

lemma incr_decide_spec:
  "incr_decide E key delta x d cas =
     (let live = (if slot_ttl_live E d then x else None)
      in case incr_base live of
           None \<Rightarrow> (Keep, None, RmwRefused)
         | Some v \<Rightarrow>
             (let e = rmw_entry E key (show_int (wrap_i64 (v + delta))) live cas
              in (Set e, if live = None then None else d,
                  RmwOk (wrap_i64 (v + delta)) (case x of Some e \<Rightarrow> entry_size e | None \<Rightarrow> 0) (entry_size e))))"
  by (cases x) (auto simp: incr_decide_def incr_base_def rmw_entry_def Let_def new_entry_def entry_size_def split: option.splits)

lemma view_deadline:
  "deadline_of (view E c key) = (if slot_ttl_live E (deadline_of (map_get (key_values c) key)) then deadline_of (map_get (key_values c) key) else None)"
  by (auto simp: view_def deadline_of_def slot_ttl_live_def slot_expired_def split: option.splits)

lemma live_deadline:
  assumes "string_or_none (map_get (key_values c) key)"
  shows "(if get_string_entry E key c = None then None else deadline_of (map_get (key_values c) key)) = deadline_of (view E c key)"
  using assms
  by (auto simp: view_def deadline_of_def get_string_entry_def slot_expired_def string_or_none_def string_slot_def
      split: option.splits key_value.splits)

lemma incr_decr_spec:
  assumes "cache_ok E c" "incr_decr E key delta c = (c', res)"
    and "\<And>v. incr_base (get_string_entry E key c) = Some v \<Longrightarrow>
      fits c (estimate_string_entry (length key) (length (show_int (wrap_i64 (v + delta)))) ENTRY_STRUCT)"
  shows "if \<not> string_or_none (map_get (key_values c) key) then res = Inl WrongType \<and> unchanged_keys E c c'
    else case incr_base (get_string_entry E key c) of
           None \<Rightarrow> res = Inl (InvalidArgument ''value is not a valid integer'') \<and> unchanged_keys E c c'
         | Some v \<Rightarrow> res = Inr (wrap_i64 (v + delta))
             \<and> (\<exists>cas. stored_string E key (rmw_entry E key (show_int (wrap_i64 (v + delta))) (get_string_entry E key c) cas)
                  (deadline_of (view E c key)) c c')"
proof -
  let ?x = "map_get (key_values c) key" and ?live = "get_string_entry E key c"
  obtain c1 r where m: "mutate_string key (incr_decide E key delta) c = (c1, r)" by (rule prod.exhaust)
  have c': "(c', res) = rmw_finish (InvalidArgument ''value is not a valid integer'') (c1, r)"
    using assms(2) m by (simp add: incr_decr_def)
  have ok: "action = Keep \<or> (\<exists>e. action = Set e \<and> ekey e = key \<and> fits c (entry_size e))"
    if "incr_decide E key delta (entry_of ?x) (deadline_of ?x) cas = (action, d, r)" for cas action d r
  proof (cases "string_or_none ?x")
    case True
    note u = that [unfolded incr_decide_spec live_string [OF True, of E, symmetric] Let_def]
    then show ?thesis using assms(3) by (auto split: option.splits)
  next
    case False
    then have "entry_of ?x = None" by (auto simp: string_or_none_def string_slot_def entry_of_def split: option.splits key_value.splits)
    moreover have "?live = None" using False by (auto simp: string_or_none_def string_slot_def get_string_entry_def split: option.splits key_value.splits)
    ultimately show ?thesis using that assms(3) by (auto simp: incr_decide_spec incr_base_def Let_def)
  qed
  show ?thesis
  proof (cases rule: string_rmw [OF assms(1) m ok, case_names _ wrong keep set])
    case wrong
    then show ?thesis using c' by (simp add: rmw_finish_def)
  next
    case (keep d out cas)
    note u = keep(2) [unfolded incr_decide_spec live_string [OF keep(1), of E, symmetric] Let_def]
    then show ?thesis using c' keep(1,3,4) by (auto simp: rmw_finish_def split: option.splits)
  next
    case (set e d out cas)
    note u = set(2) [unfolded incr_decide_spec live_string [OF set(1), of E, symmetric] live_deadline [OF set(1)] Let_def]
    then obtain v where v: "incr_base ?live = Some v"
      "e = rmw_entry E key (show_int (wrap_i64 (v + delta))) ?live cas" "d = deadline_of (view E c key)"
      "out = RmwOk (wrap_i64 (v + delta)) (string_size ?x) (entry_size e)"
      by (auto simp: entry_of_size split: option.splits)
    then show ?thesis using c' set(1,3,4) by (auto simp: rmw_finish_def)
  qed
qed

lemma rewrite_decide_spec:
  "rewrite_decide E key mx f x d cas =
     (let live = (if slot_ttl_live E d then x else None);
          v = f (case live of Some e \<Rightarrow> evalue e | None \<Rightarrow> [])
      in if logical_string_entry (length key) (length v) ENTRY_STRUCT > mx then (Keep, None, RmwRefused)
         else
           (let e = rmw_entry E key v live cas
            in (Set e, if live = None then None else d,
                RmwOk (length v) (case x of Some e \<Rightarrow> entry_size e | None \<Rightarrow> 0) (entry_size e))))"
  by (cases x) (simp_all add: rewrite_decide_def old_string_def rmw_entry_def Let_def new_entry_def entry_size_def)

lemma rewrite_mutate_spec:
  assumes "cache_ok E c" "rmw_finish EntryTooLarge (mutate_string key (rewrite_decide E key mx f) c) = (c', res)"
    and "v = f (case get_string_entry E key c of Some e \<Rightarrow> evalue e | None \<Rightarrow> [])" "string_or_none (map_get (key_values c) key)"
    and "fits c (estimate_string_entry (length key) (length v) ENTRY_STRUCT)"
  shows "if logical_string_entry (length key) (length v) ENTRY_STRUCT > mx then res = Inl EntryTooLarge \<and> unchanged_keys E c c'
    else res = Inr (length v)
      \<and> (\<exists>cas. stored_string E key (rmw_entry E key v (get_string_entry E key c) cas) (deadline_of (view E c key)) c c')"
proof -
  let ?x = "map_get (key_values c) key" and ?live = "get_string_entry E key c"
  obtain c1 r where m: "mutate_string key (rewrite_decide E key mx f) c = (c1, r)" by (rule prod.exhaust)
  have c': "(c', res) = rmw_finish EntryTooLarge (c1, r)" using assms(2) m by simp
  note dec = rewrite_decide_spec [of E key mx f "entry_of ?x" "deadline_of ?x", unfolded live_string [OF assms(4), of E, symmetric]
      live_deadline [OF assms(4)] Let_def, folded assms(3)]
  have ok: "action = Keep \<or> (\<exists>e. action = Set e \<and> ekey e = key \<and> fits c (entry_size e))"
    if "rewrite_decide E key mx f (entry_of ?x) (deadline_of ?x) cas = (action, d, r)" for cas action d r
    using that assms(5) unfolding dec by (auto split: if_splits)
  show ?thesis
  proof (cases rule: string_rmw [OF assms(1) m ok, case_names _ wrong keep set])
    case wrong
    then show ?thesis using assms(4) by simp
  next
    case (keep d out cas)
    then show ?thesis using c' unfolding dec by (auto simp: rmw_finish_def split: if_splits)
  next
    case (set e d out cas)
    then show ?thesis using c' unfolding dec by (auto simp: rmw_finish_def entry_of_size split: if_splits)
  qed
qed

lemma deallocate_total_le: "mem_ok t \<Longrightarrow> total (deallocate sz cat t) \<le> total t"
  by (simp add: deallocate_ok(1))

lemma purge_total:
  assumes "cache_ok E c"
  shows "total (tracker (fst (purge_if_expired E key c))) \<le> total (tracker c)"
  using deallocate_total_le [OF cache_okD(2) [OF assms]]
  by (auto simp: purge_if_expired_def delete_without_clearing_expire_def remove_key_value_raw_def free_string_def Let_def
      case_prod_beta split: option.splits key_value.splits)

text \<open>
  The frame of APPEND and SETRANGE. Eviction may take the string itself, so the new value is computed
  from what is left of it; \<open>fits_rewrite\<close> says that the sizes stay in range in both cases.
\<close>

definition fits_rewrite :: "'c env \<Rightarrow> bytes \<Rightarrow> (bytes \<Rightarrow> bytes) \<Rightarrow> 'c cache \<Rightarrow> bool" where
  "fits_rewrite E key f c \<longleftrightarrow> fits c (estimate_string_entry (length key) (length (f [])) ENTRY_STRUCT)
     \<and> (\<forall>e. get_string_entry E key c = Some e \<longrightarrow>
          fits c (estimate_string_entry (length key) (length (f (evalue e))) ENTRY_STRUCT))"

lemma room_made_slot:
  "room_made E c c' \<Longrightarrow> map_get (key_values c') k = map_get (key_values c) k \<or> map_get (key_values c') k = None"
  by (auto simp: room_made_def)

lemma rewrite_after_room:
  assumes "room_made E c c2" "fits_rewrite E key f c" "string_or_none (map_get (key_values c) key)"
    and "rmw_finish EntryTooLarge (mutate_string key (rewrite_decide E key mx f) c2) = (c', res)"
  shows "cache_ok E c' \<and> same_settings c2 c'"
proof -
  define v where "v = f (case get_string_entry E key c2 of Some e \<Rightarrow> evalue e | None \<Rightarrow> [])"
  note slot = room_made_slot [OF assms(1), of key]
  have "string_or_none (map_get (key_values c2) key)" using slot assms(3) by (auto simp: string_or_none_def)
  moreover have "fits c2 (estimate_string_entry (length key) (length v) ENTRY_STRUCT)"
    using slot assms(2) room_madeD(3) [OF assms(1)]
    by (auto simp: v_def fits_rewrite_def get_string_entry_def split: option.splits key_value.splits if_splits)
  ultimately show ?thesis
    using rewrite_mutate_spec [OF room_madeD(1) [OF assms(1)] assms(4) v_def] unchanged_keysD stored_stringD
    by (auto split: if_splits)
qed

lemma rewrite_string_ok:
  assumes "cache_ok E c" "shuffle_ok E" "fits_rewrite E key f c"
  obtains c' res where "rewrite_string E key new_len f c = Some (c', res)" "cache_ok E c'" "same_settings c c'"
proof -
  obtain c1 r where e: "ensure_string_or_absent E key c = (c1, r)" by (rule prod.exhaust)
  note es = ensure_string_spec [OF assms(1) e]
  show thesis
  proof (cases r)
    case (Inl err)
    then show thesis using that es(1,3) by (simp add: rewrite_string_def e)
  next
    case (Inr u)
    have st: "string_or_none (map_get (key_values c1) key)"
      using es(4,5) Inr by (auto simp: string_or_none_def type_of_slot_def string_slot_def split: option.splits if_splits)
    have tot: "total (tracker c1) \<le> total (tracker c)"
      using purge_total [OF assms(1), of key] e by (auto simp: ensure_string_or_absent_def Let_def case_prod_beta)
    have fr: "fits_rewrite E key f c1" using assms(3) tot es(2) by (auto simp: fits_rewrite_def view_string)
    define needed where "needed = estimate_string_entry (length key)
      (new_len (case get_string_entry E key c1 of Some e \<Rightarrow> length (evalue e) | None \<Rightarrow> 0)) ENTRY_STRUCT
      - (case get_string_entry E key c1 of Some e \<Rightarrow> entry_size e | None \<Rightarrow> 0)"
    obtain c2 room where cap: "ensure_capacity E needed c1 = Some (c2, room)" "room_made E c1 c2"
      by (rule ensure_capacity_spec [OF es(1) assms(2)])
    obtain c3 res where fin: "rmw_finish EntryTooLarge (mutate_string key (rewrite_decide E key (max_entry_size c1) f) c2) = (c3, res)"
      by (rule prod.exhaust)
    note rw = rewrite_after_room [OF cap(2) fr st fin]
    have "rewrite_string E key new_len f c = Some (c1, Inl EntryTooLarge) \<or> (\<exists>er. rewrite_string E key new_len f c = Some (c2, Inl er))
        \<or> rewrite_string E key new_len f c = Some (c3, res)"
      using cap(1) fin Inr by (auto simp: rewrite_string_def e Let_def needed_def split: sum.splits)
    then show thesis
      using that es(1,3) room_madeD(1,2) [OF cap(2)] rw same_settings_trans by blast
  qed
qed

section \<open>Renaming\<close>

definition rename_value :: "bytes \<Rightarrow> 'c key_value \<Rightarrow> 'c key_value" where
  "rename_value dst v = (case v of VString e \<Rightarrow> VString (e\<lparr>ekey := dst\<rparr>) | _ \<Rightarrow> v)"

lemma rename_value_facts [simp]:
  "value_category (rename_value dst v) = value_category v" "value_type (rename_value dst v) = value_type v"
  "own_key dst (s\<lparr>slot_value := rename_value dst v\<rparr>)"
  by (cases v; simp add: rename_value_def own_key_def)+

text \<open>Moving the charge of a slot from one key to another.\<close>

lemma cache_ok_rename:
  assumes "cache_ok E c" "map_get (key_values c) src = Some s" "map_get (key_values c) dst = None"
    and "v' = rename_value dst (slot_value s)" "old = slot_charge E src (slot_value s)" "new = slot_charge E dst v'"
    and "cat = value_category (slot_value s)" "map_wf (key_values c')" "mem_ok (tracker c')"
    and "map_get (key_values c') = (map_get (key_values c))(src := None, dst \<mapsto> s\<lparr>slot_value := v'\<rparr>)"
    and "\<And>k. category_memory k (tracker c') = (if k = cat then category_memory k (tracker c) - old + new else category_memory k (tracker c))"
    and "string_memory c' = (if cat = Cache then string_memory c - old + new else string_memory c)"
  shows "cache_ok E c'"
proof -
  define mid where "mid = c\<lparr>key_values := fst (map_remove src (key_values c)), tracker := deallocate old cat (tracker c),
      string_memory := (if cat = Cache then wrapping_sub (string_memory c) old else string_memory c)\<rparr>"
  note d = cache_okD [OF assms(1)]
  have mid: "cache_ok E mid" by (rule cache_ok_free [OF assms(1,2)]) (simp add: mid_def assms(5,7))
  have le: "old \<le> category_memory cat (tracker c)" using charge_le [OF assms(1,2) refl] by (simp add: assms(5,7))
  have get: "map_get (key_values mid) = (map_get (key_values c))(src := None)" by (simp add: mid_def map_remove_facts [OF d(1)])
  have dst: "map_get (key_values mid) dst = None" using assms(3) get by simp
  have ch: "charge_at E k dst (Some (s\<lparr>slot_value := v'\<rparr>)) = (if k = cat then new else 0)" for k
    by (simp add: charge_at_def assms(4,6,7))
  have none: "charge_at E k dst None = 0" for k by (simp add: charge_at_def)
  show ?thesis
  proof (rule cache_ok_update [OF mid assms(8,9), where k = dst and x = "Some (s\<lparr>slot_value := v'\<rparr>)"])
    show "map_get (key_values c') = (map_get (key_values mid))(dst \<mapsto> s\<lparr>slot_value := v'\<rparr>)" by (simp add: assms(10) get)
    show "category_memory k (tracker c') + charge_at E k dst (map_get (key_values mid) dst) =
        category_memory k (tracker mid) + charge_at E k dst (Some (s\<lparr>slot_value := v'\<rparr>))" for k
      unfolding dst none ch by (simp add: assms(11) mid_def)
    show "string_memory c' + charge_at E Cache dst (map_get (key_values mid) dst) =
        string_memory mid + charge_at E Cache dst (Some (s\<lparr>slot_value := v'\<rparr>))"
      using le string_memory_le [OF assms(1)] unfolding dst none ch by (auto simp: assms(12) mid_def wrapping_sub_small)
    show "own_key dst t" if "Some (s\<lparr>slot_value := v'\<rparr>) = Some t" for t using that by (auto simp: assms(4))
  qed
qed

text \<open>The result of a rename of the slot.\<close>

definition renamed :: "'c env \<Rightarrow> bytes \<Rightarrow> bytes \<Rightarrow> 'c key_slot \<Rightarrow> 'c cache \<Rightarrow> 'c cache \<Rightarrow> bool" where
  "renamed E src dst s c c' \<longleftrightarrow> cache_ok E c' \<and> same_settings c c' \<and> map_get (key_values c') =
     (map_get (key_values c))(src := None, dst \<mapsto> s\<lparr>slot_value := rename_value dst (slot_value s)\<rparr>)"

lemma rename_slot_string:
  assumes "cache_ok E c" "map_get (key_values c) src = Some s" "map_get (key_values c) dst = None"
    and "fits c (slot_charge E dst (rename_value dst (slot_value s)))" "slot_value s = VString e"
    and "rename_slot E src dst TString c = (c', r)"
  shows "r = Inr True \<and> renamed E src dst s c c'"
proof -
  note d = cache_okD [OF assms(1)]
  note rm = map_remove_facts [OF d(1), of src]
  note ins = map_insert_facts [OF rm(1)]
  let ?old = "entry_size e" and ?new = "entry_size (e\<lparr>ekey := dst\<rparr>)"
  have v: "rename_value dst (slot_value s) = VString (e\<lparr>ekey := dst\<rparr>)" by (simp add: rename_value_def assms(5))
  have sl: "slot_charge E src (slot_value s) = ?old" "slot_charge E dst (rename_value dst (slot_value s)) = ?new"
    unfolding v by (simp_all add: slot_charge_def assms(5))
  define c1 where "c1 = c\<lparr>key_values := fst (map_insert dst (s\<lparr>slot_value := VString (e\<lparr>ekey := dst\<rparr>)\<rparr>) (fst (map_remove src (key_values c))))\<rparr>"
  have c': "r = Inr True" "c' = (if ?new > ?old then
        c1\<lparr>string_memory := wrapping_add (string_memory c1) (?new - ?old), tracker := account (?new - ?old) Cache (tracker c1)\<rparr>
      else if ?old > ?new then free_string (?old - ?new) c1 else c1)"
    using assms(6) rm(3) assms(2) by (auto simp: rename_slot_def assms(5) c1_def Let_def case_prod_beta)
  have le: "?old \<le> category_memory Cache (tracker c)" "category_memory Cache (tracker c) \<le> total (tracker c)"
    using charge_le [OF assms(1,2) refl, unfolded sl] d(2) category_le_sum [of Cache "tracker c"]
    by (simp_all add: mem_ok_def assms(5))
  have f: "fits c (?new - ?old)" "string_memory c + (?new - ?old) \<le> usize_max" "string_memory c \<le> usize_max"
      "string_memory c = category_memory Cache (tracker c)"
    using assms(4) [unfolded sl] le string_memory_le [OF assms(1)] by simp_all
  have get: "map_get (key_values c') =
      (map_get (key_values c))(src := None, dst \<mapsto> s\<lparr>slot_value := rename_value dst (slot_value s)\<rparr>)" "map_wf (key_values c')"
    by (simp_all add: c'(2) c1_def ins rm(2) v)
  have "cache_ok E c'"
  proof (rule cache_ok_rename [OF assms(1,2,3) refl refl refl refl get(2) _ get(1)])
    show "mem_ok (tracker c')"
      using account_ok(2) [OF d(2) f(1)] deallocate_ok(2) [OF d(2)] d(2) by (simp add: c'(2) c1_def free_string_def)
    show "category_memory k (tracker c') = (if k = value_category (slot_value s)
        then category_memory k (tracker c) - slot_charge E src (slot_value s) + slot_charge E dst (rename_value dst (slot_value s))
        else category_memory k (tracker c))" for k
      using le unfolding sl by (auto simp: c'(2) c1_def free_string_def account_category_memory [OF d(2) f(1)] assms(5))
    show "string_memory c' = (if value_category (slot_value s) = Cache
        then string_memory c - slot_charge E src (slot_value s) + slot_charge E dst (rename_value dst (slot_value s))
        else string_memory c)"
      using f le unfolding sl by (auto simp: c'(2) c1_def free_string_def assms(5) wrapping_add_small wrapping_sub_small)
  qed
  moreover have "same_settings c c'" by (simp add: c'(2) c1_def same_settings_def free_string_def)
  ultimately show ?thesis using c'(1) get(1) by (simp add: renamed_def)
qed

lemma rename_slot_typed:
  assumes "cache_ok E c" "map_get (key_values c) src = Some s" "map_get (key_values c) dst = None"
    and "fits c (slot_charge E dst (rename_value dst (slot_value s)))" "value_type (slot_value s) \<noteq> TString"
    and "rename_slot E src dst (value_type (slot_value s)) c = (c', r)"
  shows "r = Inr True \<and> renamed E src dst s c c'"
proof -
  note d = cache_okD [OF assms(1)]
  note rm = map_remove_facts [OF d(1), of src]
  note ins = map_insert_facts [OF rm(1)]
  let ?cs = "content_memory_size E (slot_value s)" and ?cat = "value_category (slot_value s)"
  have v: "rename_value dst (slot_value s) = slot_value s" "s\<lparr>slot_value := slot_value s\<rparr> = s"
    using assms(5) by (cases "slot_value s"; simp add: rename_value_def)+
  have sl: "slot_charge E k (slot_value s) = estimate_keyed_object (length k) ?cs" for k
    using assms(5) by (cases "slot_value s") (simp_all add: slot_charge_def)
  let ?old = "estimate_keyed_object (length src) ?cs" and ?new = "estimate_keyed_object (length dst) ?cs"
  have c': "r = Inr True" "c' = c\<lparr>key_values := fst (map_insert dst s (fst (map_remove src (key_values c)))),
      tracker := (if length src = length dst then tracker c else account ?new ?cat (deallocate ?old ?cat (tracker c)))\<rparr>"
    using assms(2,5,6) rm(3)
    by (cases "slot_value s"; auto simp: rename_slot_def account_typed_key_rename_def Let_def case_prod_beta)+
  have ok: "mem_ok (deallocate ?old ?cat (tracker c))" "total (deallocate ?old ?cat (tracker c)) + ?new \<le> usize_max"
    using deallocate_ok(2) [OF d(2)] deallocate_total_le [OF d(2), of ?old ?cat] assms(4) by (simp_all add: v sl)
  have le: "?old \<le> category_memory ?cat (tracker c)" using charge_le [OF assms(1,2) refl] by (simp add: sl)
  have nc: "?cat \<noteq> Cache" using assms(5) by (cases "slot_value s") simp_all
  have get: "map_get (key_values c') =
      (map_get (key_values c))(src := None, dst \<mapsto> s\<lparr>slot_value := rename_value dst (slot_value s)\<rparr>)" "map_wf (key_values c')"
    by (simp_all add: c'(2) ins rm(2) v)
  have "cache_ok E c'"
  proof (rule cache_ok_rename [OF assms(1,2,3) refl refl refl refl get(2) _ get(1)])
    show "mem_ok (tracker c')" using account_ok(2) [OF ok] d(2) by (simp add: c'(2))
    show "category_memory k (tracker c') = (if k = ?cat
        then category_memory k (tracker c) - slot_charge E src (slot_value s) + slot_charge E dst (rename_value dst (slot_value s))
        else category_memory k (tracker c))" for k
      using le by (auto simp: c'(2) v sl account_category_memory [OF ok])
    show "string_memory c' = (if ?cat = Cache
        then string_memory c - slot_charge E src (slot_value s) + slot_charge E dst (rename_value dst (slot_value s))
        else string_memory c)"
      using nc by (simp add: c'(2))
  qed
  moreover have "same_settings c c'" by (simp add: c'(2) same_settings_def)
  ultimately show ?thesis using c'(1) get(1) by (simp add: renamed_def)
qed

lemma rename_slot_spec:
  assumes "cache_ok E c" "map_get (key_values c) src = Some s" "map_get (key_values c) dst = None"
    and "fits c (slot_charge E dst (rename_value dst (slot_value s)))"
    and "rename_slot E src dst (value_type (slot_value s)) c = (c', r)"
  shows "r = Inr True \<and> renamed E src dst s c c'"
proof (cases "value_type (slot_value s) = TString")
  case True
  then obtain e where "slot_value s = VString e" by (cases "slot_value s") auto
  then show ?thesis using rename_slot_string [OF assms(1-4)] assms(5) by simp
next
  case False
  then show ?thesis using rename_slot_typed [OF assms(1-4)] assms(5) by simp
qed

end
