(* ===== verification/Cache_Properties.thy ===== *)
theory Cache_Properties
  imports Cache_Invariant
begin

text \<open>
  The remaining operations on whole keys, the caches that sequences of operations reach, and the
  properties of the keyspace: the accounting invariant, the behaviour of SET, of deadlines and of
  RENAME on the keys a client can see, and the places where the code departs from it.
\<close>

section \<open>Renaming of keys\<close>

lemma view_SomeD: "view E c k = Some s \<Longrightarrow> map_get (key_values c) k = Some s \<and> \<not> slot_expired E s"
  by (auto simp: view_def split: option.splits if_splits)

lemma key_type_total:
  "cache_ok E c \<Longrightarrow> key_type E k c = (c', t) \<Longrightarrow> total (tracker c') \<le> total (tracker c)"
  "cache_ok E c \<Longrightarrow> exists_key E k c = (c', b) \<Longrightarrow> total (tracker c') \<le> total (tracker c)"
  using purge_total [of E c k]
  by (auto simp: key_type_def exists_key_def get_key_value_def Let_def case_prod_beta)

lemma delete_total:
  assumes "cache_ok E c"
  shows "total (tracker (fst (delete E k c))) \<le> total (tracker c)"
  using deallocate_total_le [OF cache_okD(2) [OF assms]]
  by (auto simp: delete_def remove_key_value_raw_def free_string_def Let_def case_prod_beta split: option.splits key_value.splits)

text \<open>The destination is cleared before the slot is moved.\<close>

lemma rename_clear:
  assumes "cache_ok E c" "exists_key E dst c = (c3, there)" "c4 = (if there then fst (delete E dst c3) else c3)"
  shows "cache_ok E c4" "same_settings c c4" "view E c4 = (view E c)(dst := None)" "map_get (key_values c4) dst = None"
    "total (tracker c4) \<le> total (tracker c)"
proof -
  note x = exists_key_spec [OF assms(1,2)]
  note d = delete_spec [OF x(1) prod.collapse [symmetric], of dst]
  show "cache_ok E c4" using x(1) d(1) by (simp add: assms(3))
  show "same_settings c c4" using x(3) d(2) same_settings_trans by (auto simp: assms(3))
  show "map_get (key_values c4) dst = None" using x(4,5) d(3) by (simp add: assms(3))
  show "view E c4 = (view E c)(dst := None)" using x(2,4) d(5) by (auto simp: assms(3) fun_eq_iff)
  show "total (tracker c4) \<le> total (tracker c)"
    using key_type_total(2) [OF assms(1,2)] delete_total [OF x(1), of dst] by (simp add: assms(3))
qed

lemma renamed_view:
  assumes "renamed E src dst s c c'" "\<not> slot_expired E s"
  shows "view E c' = (view E c)(src := None, dst \<mapsto> s\<lparr>slot_value := rename_value dst (slot_value s)\<rparr>)"
  using assms by (auto simp: fun_eq_iff view_def renamed_def slot_expired_def)

lemma rename_spec:
  assumes "cache_ok E c" "rename E src dst nx c = (c', r)"
    and "\<And>s. view E c src = Some s \<Longrightarrow> fits c (slot_charge E dst (rename_value dst (slot_value s)))"
  shows "cache_ok E c' \<and> same_settings c c' \<and>
    (case view E c src of
       None \<Rightarrow> r = Inl (InvalidArgument ''no such key'') \<and> view E c' = view E c
     | Some s \<Rightarrow>
         if src = dst then r = Inr True \<and> view E c' = view E c
         else if nx \<and> view E c dst \<noteq> None then r = Inr False \<and> view E c' = view E c
         else r = Inr True \<and> view E c' = (view E c)(src := None, dst \<mapsto> s\<lparr>slot_value := rename_value dst (slot_value s)\<rparr>))"
proof -
  obtain c1 t where k: "key_type E src c = (c1, t)" by (rule prod.exhaust)
  note ks = key_type_spec [OF assms(1) k]
  have none: "t = TNone \<longleftrightarrow> view E c src = None" by (cases "view E c src") (simp_all add: ks(4) type_of_slot_def)
  obtain c2 th where x: "(if nx then exists_key E dst c1 else (c1, False)) = (c2, th)" by (rule prod.exhaust)
  have c2: "cache_ok E c2" "same_settings c1 c2" "view E c2 = view E c" "th \<longleftrightarrow> nx \<and> view E c dst \<noteq> None"
    "total (tracker c2) \<le> total (tracker c1)"
    using x exists_key_spec [OF ks(1)] key_type_total(2) [OF ks(1)] ks by (auto split: if_splits)
  obtain c3 th2 where y: "exists_key E dst c2 = (c3, th2)" by (rule prod.exhaust)
  define c4 where "c4 = (if th2 then fst (delete E dst c3) else c3)"
  note cl = rename_clear [OF c2(1) y c4_def]
  consider "view E c src = None" | "view E c src \<noteq> None" "src = dst" | "view E c src \<noteq> None" "src \<noteq> dst" th
    | s where "view E c src = Some s" "src \<noteq> dst" "\<not> th" by auto
  then show ?thesis
  proof cases
    case 1
    then have "c' = c1" "r = Inl (InvalidArgument ''no such key'')" using assms(2) none unfolding rename_def k by auto
    then show ?thesis using 1 ks by simp
  next
    case 2
    then have "c' = c1" "r = Inr True" using assms(2) none unfolding rename_def k by auto
    then show ?thesis using 2 ks by auto
  next
    case 3
    then have "c' = c2" "r = Inr False" using assms(2) none x unfolding rename_def k by (auto split: prod.splits)
    then show ?thesis using 3 ks c2 same_settings_trans [OF ks(3) c2(2)] by auto
  next
    case 4
    have src: "view E c4 src = Some s" using 4 cl(3) c2(3) by simp
    have fit: "fits c4 (slot_charge E dst (rename_value dst (slot_value s)))"
      using assms(3) [OF 4(1)] cl(5) c2(5) key_type_total(1) [OF assms(1) k] by simp
    have t: "t = value_type (slot_value s)" using 4(1) by (simp add: ks(4) type_of_slot_def)
    have "rename_slot E src dst (value_type (slot_value s)) c4 = (c', r)"
      using assms(2) 4 x y none by (simp add: rename_def k c4_def t)
    from rename_slot_spec [OF cl(1) conjunct1 [OF view_SomeD [OF src]] cl(4) fit this]
    have r: "r = Inr True" "renamed E src dst s c4 c'" by simp_all
    have "view E c' = (view E c)(src := None, dst \<mapsto> s\<lparr>slot_value := rename_value dst (slot_value s)\<rparr>)"
      using renamed_view [OF r(2)] view_SomeD [OF src] 4(2) by (auto simp: cl(3) c2(3))
    moreover have "same_settings c c'" "cache_ok E c'"
      using r(2) same_settings_trans [OF same_settings_trans [OF same_settings_trans [OF ks(3) c2(2)] cl(2)]]
      by (simp_all add: renamed_def)
    ultimately show ?thesis using 4 c2(4) r(1) by simp
  qed
qed

section \<open>Typed keys, flushing and active expiry\<close>

lemma cache_ok_create:
  assumes "cache_ok E c" "map_get (key_values c) key = None" "value_type fresh \<noteq> TString"
    and "base = estimate_keyed_object (length key) (content_memory_size E fresh)" "fits c base"
    and "c' = c\<lparr>key_values := m, tracker := account base (value_category fresh) (tracker c)\<rparr>" "map_wf m"
    and "map_get m = (map_get (key_values c))(key \<mapsto> new_slot fresh)"
  shows "cache_ok E c'"
proof (rule cache_ok_update [OF assms(1), where k = key and x = "Some (new_slot fresh)"])
  note d = cache_okD [OF assms(1)]
  have sl: "slot_charge E key fresh = base" "value_category fresh \<noteq> Cache"
    using assms(3) by (cases fresh; simp add: slot_charge_def assms(4))+
  show "map_wf (key_values c')" "mem_ok (tracker c')" "map_get (key_values c') = (map_get (key_values c))(key \<mapsto> new_slot fresh)"
    using assms(5-8) account_ok(2) [OF d(2) assms(5)] by simp_all
  show "category_memory cat (tracker c') + charge_at E cat key (map_get (key_values c) key) =
      category_memory cat (tracker c) + charge_at E cat key (Some (new_slot fresh))" for cat
    by (auto simp: assms(2,6) charge_at_def new_slot_def sl account_category_memory [OF d(2) assms(5)])
  show "string_memory c' + charge_at E Cache key (map_get (key_values c) key) =
      string_memory c + charge_at E Cache key (Some (new_slot fresh))"
    using sl(2) by (simp add: assms(2,6) charge_at_def new_slot_def)
  show "own_key key s" if "Some (new_slot fresh) = Some s" for s
    using that assms(3) by (cases fresh) (auto simp: own_key_def new_slot_def)
qed

lemma get_or_insert_absent:
  assumes "map_wf m" "map_get m key = None" "get_or_insert_with key f m = (m', v, created)"
  shows "map_wf m'" "map_get m' = (map_get m)(key \<mapsto> f ())" "v = f ()" "created"
  using assms map_insert_facts [OF assms(1), of key "f ()", unfolded map_insert_def fst_conv]
  by (auto simp: get_or_insert_with_def)

lemma ensure_type_spec:
  assumes "cache_ok E c" "ensure_type E key t c = (c1, r)"
  shows "cache_ok E c1" "view E c1 = view E c" "same_settings c c1" "map_get (key_values c1) key = view E c key"
    "r = (if type_of_slot (view E c key) \<in> {TNone, t} then Inr () else Inl WrongType)"
    "total (tracker c1) \<le> total (tracker c)"
proof -
  obtain kt where k: "key_type E key c = (c1, kt)" "r = (if kt = TNone \<or> kt = t then Inr () else Inl WrongType)"
    using assms(2) by (auto simp: ensure_type_def split: prod.splits)
  note ks = key_type_spec [OF assms(1) k(1)]
  show "cache_ok E c1" "view E c1 = view E c" "same_settings c c1" "map_get (key_values c1) key = view E c key" by (fact ks)+
  show "r = (if type_of_slot (view E c key) \<in> {TNone, t} then Inr () else Inl WrongType)" by (simp add: k(2) ks(4))
  show "total (tracker c1) \<le> total (tracker c)" by (rule key_type_total(1) [OF assms(1) k(1)])
qed

text \<open>
  The result of \<open>get_or_create_of_type\<close>: the visible container of that type, WRONGTYPE for another
  type, a fresh container for an absent key, or out of memory.
\<close>

lemma get_or_create_spec:
  assumes "cache_ok E c" "shuffle_ok E" "t \<noteq> TString" "value_type fresh = t" "cat = type_category t"
    and "fits c (estimate_keyed_object (length key) (content_memory_size E fresh))"
  obtains c' res where "get_or_create_of_type E t cat fresh key c = Some (c', res)" "cache_ok E c'" "same_settings c c'"
    "case view E c key of
       Some s \<Rightarrow> res = (if value_type (slot_value s) = t then Inr (slot_value s) else Inl WrongType) \<and> view E c' = view E c
     | None \<Rightarrow> res = Inr fresh \<and> view E c' key = Some (new_slot fresh) \<or> res = Inl OutOfMemory \<and> view E c' key = None"
proof -
  obtain c1 r where e: "ensure_type E key t c = (c1, r)" by (rule prod.exhaust)
  note es = ensure_type_spec [OF assms(1) e]
  show thesis
  proof (cases "view E c key")
    case (Some s)
    then have "get_or_create_of_type E t cat fresh key c =
        Some (c1, if value_type (slot_value s) = t then Inr (slot_value s) else Inl WrongType)"
      using es(4,5) by (simp add: get_or_create_of_type_def e type_of_slot_def)
    then show thesis using that es(1-3) Some by simp
  next
    case None
    let ?base = "estimate_keyed_object (length key) (content_memory_size E fresh)"
    obtain c2 room where cap: "ensure_non_string_capacity E ?base c1 = Some (c2, room)" "room_made E c1 c2"
        "room = Inr () \<and> (?base = 0 \<or> can_allocate ?base SortedSets (tracker c2)) \<or> room = Inl OutOfMemory"
      by (rule ensure_non_string_capacity_spec [OF es(1) assms(2)])
    have abs: "map_get (key_values c2) key = None" using room_made_slot [OF cap(2), of key] es(4) None by auto
    obtain m v created where g: "get_or_insert_with key (\<lambda>_. new_slot fresh) (key_values c2) = (m, v, created)" by (rule prod_cases3)
    note gi = get_or_insert_absent [OF cache_okD(1) [OF room_madeD(1) [OF cap(2)]] abs g]
    define c3 where "c3 = c2\<lparr>key_values := m, tracker := account ?base (value_category fresh) (tracker c2)\<rparr>"
    have cat: "cat = value_category fresh" using assms(4,5) by (simp add: value_category_type)
    have "cache_ok E c3"
      by (rule cache_ok_create [OF room_madeD(1) [OF cap(2)] abs _ refl _ c3_def gi(1,2)])
        (use assms(3,4,6) room_madeD(3) [OF cap(2)] es(6) in simp_all)
    moreover have "same_settings c2 c3" by (simp add: c3_def same_settings_def)
    moreover have "view E c3 key = Some (new_slot fresh)" by (simp add: c3_def view_def gi(2) slot_expired_def new_slot_def)
    moreover have "get_or_create_of_type E t cat fresh key c = Some (if room = Inr () then (c3, Inr fresh) else (c2, Inl OutOfMemory))"
      using None es(4,5) cap(1,3) g gi(3,4) assms(4) cat
      by (auto simp: get_or_create_of_type_def e type_of_slot_def c3_def new_slot_def)
    moreover have "view E c2 key = None" using abs by (simp add: view_def)
    moreover note st = same_settings_trans [OF es(3) room_madeD(2) [OF cap(2)]]
    ultimately show thesis
      using that [of c3 "Inr fresh"] that [of c2 "Inl OutOfMemory"] None room_madeD(1) [OF cap(2)] same_settings_trans [OF st]
      by (cases "room = Inr ()") simp_all
  qed
qed

lemma flush_ok: "cache_ok E c \<Longrightarrow> cache_ok E (flush c)"
proof -
  assume "cache_ok E c"
  note d = cache_okD [OF this]
  have "category_memory cat (reset t) = 0" for cat t by (cases cat) (simp_all add: reset_def category_memory.simps)
  then show "cache_ok E (flush c)"
    by (simp add: cache_ok_def flush_def map_wf_clear [OF d(1)] map_get_clear [OF d(1)] reset_ok charge_sum_def
        km.total_of_dom)
qed

lemma expire_typed_loop_spec:
  assumes "cache_ok E c" "expire_typed_loop E ks c = (c', n)"
  shows "cache_ok E c' \<and> view E c' = view E c \<and> same_settings c c'"
  using assms
proof (induction ks arbitrary: c n)
  case (Cons k ks)
  define still where "still \<longleftrightarrow> (case map_get (key_values c) k of
      Some s \<Rightarrow> is_typed_container (slot_value s) \<and> slot_expired E s | None \<Rightarrow> False)"
  show ?case
  proof (cases still)
    case True
    then have p: "purge_if_expired E k c = (fst (delete_without_clearing_expire E k c), True)"
      by (auto simp: still_def purge_if_expired_def slot_expired_def split: option.splits)
    note ps = purge_spec [OF Cons.prems(1) p]
    obtain c1 deleted where d: "delete_without_clearing_expire E k c = (c1, deleted)" by (rule prod.exhaust)
    obtain c2 where c2: "c2 = (if deleted then c1\<lparr>stats := (stats c1)\<lparr>evicted_expired := evicted_expired (stats c1) + 1\<rparr>\<rparr> else c1)"
      by blast
    obtain n1 where "expire_typed_loop E ks c2 = (c', n1)"
      using Cons.prems(2) True by (auto simp: still_def [symmetric] d c2 split: if_splits prod.splits)
    moreover have "cache_ok E c2" "view E c2 = view E c" "same_settings c c2" using ps(1-3) by (simp_all add: d c2)
    ultimately show ?thesis using Cons.IH same_settings_trans [of c c2 c'] by simp
  next
    case False
    then show ?thesis using Cons by (simp add: still_def [symmetric])
  qed
qed simp

lemma active_expire_typed_spec:
  assumes "cache_ok E c"
  shows "cache_ok E (fst (active_expire_typed E samples c))" "view E (fst (active_expire_typed E samples c)) = view E c"
  using expire_typed_loop_spec [OF assms prod.collapse [symmetric]] assms by (simp_all add: active_expire_typed_def)

text \<open>
  A command changes a container through its shared handle and then reports the old and the new
  content size; \<open>unsaturated\<close> says that the price of the key with its content fits a \<open>usize\<close>.
\<close>

definition unsaturated :: "'c env \<Rightarrow> bytes \<Rightarrow> 'c key_value \<Rightarrow> bool" where
  "unsaturated E key v \<longleftrightarrow>
     with_alloc_overhead (wrap_usize (length key + BYTES_OVERHEAD + DICT_ENTRY_OVERHEAD)) + content_memory_size E v \<le> usize_max"

definition change_content :: "'c env \<Rightarrow> bytes \<Rightarrow> 'c key_slot \<Rightarrow> 'c key_value \<Rightarrow> 'c cache \<Rightarrow> 'c cache" where
  "change_content E key s v c =
     account_delta (value_category v) (content_memory_size E (slot_value s)) (content_memory_size E v)
       (c\<lparr>key_values := fst (map_insert key (s\<lparr>slot_value := v\<rparr>) (key_values c))\<rparr>)"

lemma change_content_ok:
  assumes "cache_ok E c" "map_get (key_values c) key = Some s" "value_type v = value_type (slot_value s)" "value_type v \<noteq> TString"
    and "unsaturated E key (slot_value s)" "unsaturated E key v" "fits c (content_memory_size E v)"
  shows "cache_ok E (change_content E key s v c)"
proof -
  note d = cache_okD [OF assms(1)]
  let ?old = "content_memory_size E (slot_value s)" and ?new = "content_memory_size E v" and ?cat = "value_category v"
  let ?c' = "change_content E key s v c"
  define kp where "kp = with_alloc_overhead (wrap_usize (length key + BYTES_OVERHEAD + DICT_ENTRY_OVERHEAD))"
  have cat: "value_category (slot_value s) = ?cat" "?cat \<noteq> Cache"
    using assms(3,4) by (simp_all add: value_category_type) (cases v; simp)
  have sl: "slot_charge E key (slot_value s) = kp + ?old" "slot_charge E key v = kp + ?new"
    using assms(3-6) by (cases "slot_value s"; cases v;
      simp add: slot_charge_def estimate_keyed_object_def unsaturated_def kp_def saturating_add_def)+
  have le: "kp + ?old \<le> category_memory ?cat (tracker c)" using charge_le [OF assms(1,2) refl] by (simp add: sl cat(1))
  define t1 where "t1 = (if ?old > 0 then deallocate ?old ?cat (tracker c) else tracker c)"
  have t1: "mem_ok t1" "total t1 + ?new \<le> usize_max" "category_memory k t1 = (if k = ?cat then category_memory k (tracker c) - ?old else category_memory k (tracker c))" for k
    using d(2) deallocate_ok(2) [OF d(2)] deallocate_total_le [OF d(2), of ?old ?cat] assms(7) by (simp_all add: t1_def)
  have c': "?c' = c\<lparr>key_values := fst (map_insert key (s\<lparr>slot_value := v\<rparr>) (key_values c)),
      tracker := (if ?new > 0 then account ?new ?cat t1 else t1)\<rparr>"
    by (simp add: change_content_def account_delta_def t1_def Let_def)
  show ?thesis
  proof (rule cache_ok_update [OF assms(1), where k = key and x = "Some (s\<lparr>slot_value := v\<rparr>)"])
    show "map_wf (key_values ?c')" "map_get (key_values ?c') = (map_get (key_values c))(key \<mapsto> s\<lparr>slot_value := v\<rparr>)"
      by (simp_all add: c' map_insert_facts [OF d(1)])
    show "mem_ok (tracker ?c')" using t1(1) account_ok(2) [OF t1(1,2)] by (simp add: c')
    show "category_memory k (tracker ?c') + charge_at E k key (map_get (key_values c) key) =
        category_memory k (tracker c) + charge_at E k key (Some (s\<lparr>slot_value := v\<rparr>))" for k
      using le by (auto simp: c' assms(2) charge_at_def sl cat(1) t1(3) account_category_memory [OF t1(1,2)])
    show "string_memory ?c' + charge_at E Cache key (map_get (key_values c) key) =
        string_memory c + charge_at E Cache key (Some (s\<lparr>slot_value := v\<rparr>))"
      using cat by (simp add: c' assms(2) charge_at_def)
    show "own_key key s'" if "Some (s\<lparr>slot_value := v\<rparr>) = Some s'" for s'
      using that assms(4) by (cases v) (auto simp: own_key_def)
  qed
qed

section \<open>Reachable caches\<close>

lemma cache_ok_env: "csize E' = csize E \<Longrightarrow> cache_ok E' c = cache_ok E c"
proof -
  assume e: "csize E' = csize E"
  then have "charge_at E' = charge_at E" by (simp add: fun_eq_iff charge_at_def slot_charge_def split: option.splits key_value.splits)
  then show ?thesis by (simp add: cache_ok_def charge_sum_def)
qed

text \<open>
  The caches that sequences of operations reach from a fresh one, with any clocks and random draws on
  the way; \<open>csz\<close> is the size of a container. The premises on sizes say that no counter passes
  \<open>usize::MAX\<close>.
\<close>

inductive cache_reachable :: "('c \<Rightarrow> nat) \<Rightarrow> 'c cache \<Rightarrow> bool" for csz where
  new: "cache_reachable csz (new_cache h n mx mes)"
| store: "cache_reachable csz c \<Longrightarrow> csize E = csz \<Longrightarrow> shuffle_ok E
    \<Longrightarrow> fits c (estimate_string_entry (length key) (length v) ENTRY_STRUCT)
    \<Longrightarrow> store E key v opts c = Some (c', res) \<Longrightarrow> cache_reachable csz c'"
| load: "cache_reachable csz c \<Longrightarrow> csize E = csz \<Longrightarrow> cache_reachable csz (fst (load E key touching c))"
| delete: "cache_reachable csz c \<Longrightarrow> csize E = csz \<Longrightarrow> cache_reachable csz (fst (delete E key c))"
| delete_many: "cache_reachable csz c \<Longrightarrow> csize E = csz \<Longrightarrow> cache_reachable csz (fst (delete_many E ks c))"
| purge: "cache_reachable csz c \<Longrightarrow> csize E = csz \<Longrightarrow> cache_reachable csz (fst (purge_if_expired E key c))"
| keys: "cache_reachable csz c \<Longrightarrow> csize E = csz \<Longrightarrow> cache_reachable csz (fst (keys E pattern c))"
| expire: "cache_reachable csz c \<Longrightarrow> csize E = csz \<Longrightarrow> cache_reachable csz (fst (expire E key ms c))"
| persist: "cache_reachable csz c \<Longrightarrow> cache_reachable csz (fst (persist key c))"
| incr_decr: "cache_reachable csz c \<Longrightarrow> csize E = csz
    \<Longrightarrow> (\<And>v. incr_base (get_string_entry E key c) = Some v \<Longrightarrow>
          fits c (estimate_string_entry (length key) (length (show_int (wrap_i64 (v + delta)))) ENTRY_STRUCT))
    \<Longrightarrow> cache_reachable csz (fst (incr_decr E key delta c))"
| append: "cache_reachable csz c \<Longrightarrow> csize E = csz \<Longrightarrow> shuffle_ok E \<Longrightarrow> fits_rewrite E key (\<lambda>old. old @ suffix) c
    \<Longrightarrow> append E key suffix c = Some (c', res) \<Longrightarrow> cache_reachable csz c'"
| setrange: "cache_reachable csz c \<Longrightarrow> csize E = csz \<Longrightarrow> shuffle_ok E \<Longrightarrow> fits_rewrite E key (overwrite offset v) c
    \<Longrightarrow> setrange E key offset v c = Some (c', res) \<Longrightarrow> cache_reachable csz c'"
| rename: "cache_reachable csz c \<Longrightarrow> csize E = csz
    \<Longrightarrow> (\<And>s. view E c src = Some s \<Longrightarrow> fits c (slot_charge E dst (rename_value dst (slot_value s))))
    \<Longrightarrow> cache_reachable csz (fst (rename E src dst nx c))"
| create: "cache_reachable csz c \<Longrightarrow> csize E = csz \<Longrightarrow> shuffle_ok E \<Longrightarrow> t \<noteq> TString \<Longrightarrow> value_type fresh = t
    \<Longrightarrow> fits c (estimate_keyed_object (length key) (content_memory_size E fresh))
    \<Longrightarrow> get_or_create_of_type E t (type_category t) fresh key c = Some (c', res) \<Longrightarrow> cache_reachable csz c'"
| content: "cache_reachable csz c \<Longrightarrow> csize E = csz \<Longrightarrow> map_get (key_values c) key = Some s
    \<Longrightarrow> value_type v = value_type (slot_value s) \<Longrightarrow> value_type v \<noteq> TString \<Longrightarrow> unsaturated E key (slot_value s)
    \<Longrightarrow> unsaturated E key v \<Longrightarrow> fits c (content_memory_size E v) \<Longrightarrow> cache_reachable csz (change_content E key s v c)"
| evict: "cache_reachable csz c \<Longrightarrow> csize E = csz \<Longrightarrow> shuffle_ok E
    \<Longrightarrow> evict_memory E needed c = Some (c', res) \<Longrightarrow> cache_reachable csz c'"
| sweep: "cache_reachable csz c \<Longrightarrow> csize E = csz \<Longrightarrow> cache_reachable csz (fst (sweep E c))"
| active: "cache_reachable csz c \<Longrightarrow> csize E = csz \<Longrightarrow> cache_reachable csz (fst (active_expire_typed E samples c))"
| flush: "cache_reachable csz c \<Longrightarrow> cache_reachable csz (flush c)"
| policy: "cache_reachable csz c \<Longrightarrow> cache_reachable csz (set_eviction_policy p c)"
| watch: "cache_reachable csz c \<Longrightarrow> cache_reachable csz (touch_watch_key key c)"

lemma set_eviction_policy_ok: "cache_ok E (set_eviction_policy p c) = cache_ok E c"
  by (simp add: cache_ok_def set_eviction_policy_def)

lemma cache_reachable_ok:
  "cache_reachable csz c \<Longrightarrow> csize E = csz \<Longrightarrow> cache_ok E c"
proof (induction arbitrary: E rule: cache_reachable.induct)
  case (store c E' key v opts c' res)
  then show ?case
    using store_ok [of E' c key v opts] cache_ok_env [of E E'] by (metis option.inject prod.inject)
next
  case (load c E' key touching)
  then show ?case using load_spec(1) [of E' c, OF _ prod.collapse [symmetric]] cache_ok_env [of E E'] by metis
next
  case (delete c E' key)
  then show ?case using delete_spec(1) [of E' c, OF _ prod.collapse [symmetric]] cache_ok_env [of E E'] by metis
next
  case (delete_many c E' ks)
  then show ?case using delete_many_spec [of E' c, OF _ prod.collapse [symmetric]] cache_ok_env [of E E'] by metis
next
  case (purge c E' key)
  then show ?case using purge_spec(1) [of E' c, OF _ prod.collapse [symmetric]] cache_ok_env [of E E'] by metis
next
  case (keys c E' pattern)
  then show ?case using keys_spec(1) [of E' c, OF _ prod.collapse [symmetric]] cache_ok_env [of E E'] by metis
next
  case (expire c E' key ms)
  then show ?case using expire_spec(1) [of E' c, OF _ prod.collapse [symmetric]] cache_ok_env [of E E'] by metis
next
  case (persist c key)
  then show ?case using persist_spec(1) [OF _ prod.collapse [symmetric]] by metis
next
  case (incr_decr c E' key delta)
  have "cache_ok E' c" using incr_decr by blast
  from incr_decr_spec [OF this prod.collapse [symmetric] incr_decr.hyps(3)] have "cache_ok E' (fst (incr_decr E' key delta c))"
    using unchanged_keysD(1) stored_stringD(1) by (auto split: if_splits option.splits)
  then show ?case using incr_decr cache_ok_env [of E E'] by simp
next
  case (append c E' key suffix c' res)
  then show ?case
    using rewrite_string_ok [of E' c key "\<lambda>old. old @ suffix" "\<lambda>n. wrapping_add n (length suffix)"] cache_ok_env [of E E']
    unfolding append_def by (metis option.inject prod.inject)
next
  case (setrange c E' key offset v c' res)
  then show ?case
    using rewrite_string_ok [of E' c key "overwrite offset v" "\<lambda>n. max (offset + length v) n"] cache_ok_env [of E E']
    unfolding setrange_def by (metis option.inject prod.inject)
next
  case (rename c E' src dst nx)
  have "cache_ok E' c" using rename by blast
  from rename_spec [OF this prod.collapse [symmetric] rename.hyps(3)] show ?case
    using rename cache_ok_env [of E E'] by simp
next
  case (create c E' t fresh key c' res)
  then show ?case
    using get_or_create_spec [of E' c t fresh "type_category t" key] cache_ok_env [of E E'] by (metis option.inject prod.inject)
next
  case (content c E' key s v)
  then show ?case using change_content_ok [of E' c key s v] cache_ok_env [of E E'] by simp
next
  case (evict c E' needed c' res)
  then show ?case
    using evict_memory_room [of E' c needed] room_madeD(1) cache_ok_env [of E E'] by (metis option.inject prod.inject)
next
  case (sweep c E')
  then show ?case using sweep_spec(1) [of E' c, OF _ prod.collapse [symmetric]] cache_ok_env [of E E'] by metis
next
  case (active c E' samples)
  then show ?case using active_expire_typed_spec(1) [of E' c] cache_ok_env [of E E'] by metis
qed (simp_all add: cache_ok_new flush_ok set_eviction_policy_ok)

section \<open>Properties\<close>

lemma demo_visible: "view demo_env (demo_cache None) ''k'' = Some (demo_slot None)"
  "view demo_env (demo_cache (Some 5)) ''k'' = None" "view demo_env (demo_cache d) ''z'' = None"
  "get_string_entry demo_env ''k'' (demo_cache None) = Some (new_entry demo_env ''k'' ''v'')"
  by (simp_all add: view_def get_string_entry_def demo_get demo_slot_def with_expire_def slot_expired_def demo_env_def)

lemma demo_size: "estimate_string_entry (length ''k'') (length ''w'') ENTRY_STRUCT = 224"
  "logical_string_entry (length ''k'') (length ''w'') ENTRY_STRUCT = 114"
  by (simp_all add: estimate_string_entry_def ENTRY_STRUCT_def BYTES_OVERHEAD_def DICT_ENTRY_OVERHEAD_def wrap_usize_def
      with_alloc_overhead_def align_up_8_def saturating_add_def wrapping_add_def usize_max_def logical_string_entry_def)

lemma demo_total: "total (tracker (demo_cache d)) = 224"
  by (simp add: demo_cache_def Let_def demo_charge new_cache_def new_tracker_def account_def account_category_def
      account_total_def wrapping_add_def usize_max_def)

lemma demo_settings: "limit (demo_cache d) = 0" "max_entry_size (demo_cache d) = 1000"
  by (simp_all add: demo_cache_def Let_def new_cache_def)









text \<open>
  C27. EXPIRE and RENAME act on what can be seen. EXPIRE answers whether the key is visible, sets its
  deadline to the given distance from now, and with a distance of 0 removes it. RENAME refuses a
  source that cannot be seen, leaves everything alone with NX and a visible destination, and otherwise
  moves the slot with its value and deadline to the destination, whose old slot is gone. No other key
  is affected.
\<close>

theorem expire_rename_visible:
  assumes "cache_ok E c"
    and "\<And>s. view E c src = Some s \<Longrightarrow>
      total_memory (tracker c) + slot_charge E dst (rename_value dst (slot_value s)) \<le> usize_max"
  shows "(snd (expire E src ms c) \<longleftrightarrow> view E c src \<noteq> None)
    \<and> view E (fst (expire E src ms c)) =
        (case view E c src of
           None \<Rightarrow> view E c
         | Some s \<Rightarrow> if ms = 0 then (view E c)(src := None)
             else (view E c)(src \<mapsto> s\<lparr>expires_at := Some (now E + int ms * 1000000)\<rparr>))
    \<and> (case view E c src of
         None \<Rightarrow> snd (rename E src dst nx c) = Inl (InvalidArgument ''no such key'') \<and> view E (fst (rename E src dst nx c)) = view E c
       | Some s \<Rightarrow>
           if src = dst then snd (rename E src dst nx c) = Inr True \<and> view E (fst (rename E src dst nx c)) = view E c
           else if nx \<and> view E c dst \<noteq> None
           then snd (rename E src dst nx c) = Inr False \<and> view E (fst (rename E src dst nx c)) = view E c
           else snd (rename E src dst nx c) = Inr True \<and> view E (fst (rename E src dst nx c)) =
             (view E c)(src := None, dst \<mapsto> s\<lparr>slot_value := rename_value dst (slot_value s)\<rparr>))"
proof -
  have f: "fits c (slot_charge E dst (rename_value dst (slot_value s)))" if "view E c src = Some s" for s
    using assms(2) [OF that] by (simp add: total_memory_def)
  note ex = expire_spec(3,4) [OF assms(1) prod.collapse [symmetric], of src ms]
  note rn = rename_spec [where src = src and dst = dst and nx = nx, OF assms(1) prod.collapse [symmetric] f]
  have "view E (fst (expire E src ms c)) = (case view E c src of None \<Rightarrow> view E c
      | Some s \<Rightarrow> if ms = 0 then (view E c)(src := None)
          else (view E c)(src \<mapsto> s\<lparr>expires_at := Some (now E + int ms * 1000000)\<rparr>))"
    using ex by (cases "view E c src") simp_all
  then show ?thesis using ex(1) rn by blast
qed

theorem expire_rename_visible_witness:
  "view demo_env (fst (expire demo_env ''k'' 0 (demo_cache None))) ''k'' = None
   \<and> snd (rename demo_env ''k'' ''z'' True (demo_cache None)) = Inr True
   \<and> view demo_env (fst (rename demo_env ''k'' ''z'' True (demo_cache None))) ''k'' = None"
proof -
  have f: "total_memory (tracker (demo_cache None)) + slot_charge demo_env ''z'' (rename_value ''z'' (slot_value s)) \<le> usize_max"
    if "view demo_env (demo_cache None) ''k'' = Some s" for s
    using that demo_size(1) unfolding total_memory_def demo_total
    by (auto simp: demo_visible demo_slot_def with_expire_def rename_value_def slot_charge_def entry_size_def new_entry_def usize_max_def)
  show ?thesis
    using expire_rename_visible [where src = "''k''" and dst = "''z''" and ms = 0 and nx = True, OF demo_cache_ok [of None] f]
    by (auto simp: demo_visible)
qed

text \<open>
  PERSIST does not look at the deadline it removes: on a key whose deadline has passed and that was
  not purged yet it answers that a timeout was removed, and the key, which no read could see, is
  visible again with its old value.
\<close>

theorem persist_revives_expired:
  assumes "cache_ok E c" and "map_get (key_values c) key = Some s" and "slot_expired E s"
  shows "view E c key = None \<and> snd (persist key c) \<and> view E (fst (persist key c)) key = Some (s\<lparr>expires_at := None\<rparr>)"
proof -
  note p = persist_spec [OF assms(1) prod.collapse [symmetric], of key]
  have "expires_at s \<noteq> None" using assms(3) by (cases "expires_at s") (simp_all add: slot_expired_def)
  then show ?thesis
    using p(3,4) assms(2,3) by (auto simp: view_def deadline_of_def slot_expired_def)
qed

theorem persist_revives_expired_witness:
  "view demo_env (demo_cache (Some 5)) ''k'' = None
   \<and> view demo_env (fst (persist ''k'' (demo_cache (Some 5)))) ''k'' = Some (demo_slot None)"
  using persist_revives_expired [where key = "''k''" and s = "demo_slot (Some 5)", OF demo_cache_ok [of "Some 5"]]
  by (simp add: demo_get demo_slot_def with_expire_def slot_expired_def demo_env_def)

end
