(* ===== verification/Command_Base.thy ===== *)
theory Command_Base
  imports Resp Cache_Properties
begin

text \<open>
  What the command handlers of \<open>src/src/commands\<close> share: the accessors of RESP values, replies and
  errors, the parsing of integer arguments and option words. A handler takes the arguments after the
  command name and the cache, and returns the new cache with the reply or the error that the
  connection turns into an error reply; \<open>None\<close> is an eviction that does not end. The clocks are read
  once per command.
\<close>

section \<open>Arguments\<close>

definition as_bulk_string :: "resp_value \<Rightarrow> bytes option" where
  "as_bulk_string v = (case v of BulkString (Some s) \<Rightarrow> Some s | _ \<Rightarrow> None)"

definition as_integer :: "resp_value \<Rightarrow> int option" where
  "as_integer v = (case v of Integer i \<Rightarrow> Some i | _ \<Rightarrow> None)"

definition as_array :: "resp_value \<Rightarrow> resp_value list option" where
  "as_array v = (case v of RespArray vs \<Rightarrow> Some vs | _ \<Rightarrow> None)"

definition parse_integer_arg :: "resp_value \<Rightarrow> err + int" where
  "parse_integer_arg v =
     (case as_integer v of
        Some i \<Rightarrow> Inr i
      | None \<Rightarrow>
          (case as_bulk_string v of
             Some s \<Rightarrow>
               if utf8_decode s = None then Inl (InvalidArgument ''invalid UTF-8'')
               else (case parse_i64 s of
                       Some n \<Rightarrow> Inr n
                     | None \<Rightarrow> Inl (InvalidArgument ''invalid integer''))
           | None \<Rightarrow> Inl (InvalidArgument ''expected integer'')))"

text \<open>\<open>as u64\<close> and \<open>as usize\<close> of an \<open>i64\<close>.\<close>

definition as_u64 :: "int \<Rightarrow> nat" where
  "as_u64 i = nat (i mod (int usize_max + 1))"

definition ascii_upper_char :: "char \<Rightarrow> char" where
  "ascii_upper_char c =
     (let n = of_char c :: nat in if 97 \<le> n \<and> n \<le> 122 then char_of (n - 32) else c)"

definition ascii_upper :: "bytes \<Rightarrow> bytes" where
  "ascii_upper s = map ascii_upper_char s"

definition eq_ignore_ascii_case :: "bytes \<Rightarrow> bytes \<Rightarrow> bool" where
  "eq_ignore_ascii_case a b \<longleftrightarrow> ascii_upper a = ascii_upper b"

text \<open>
  \<open>String::from_utf8_lossy\<close> on bytes: every maximal part of an ill-formed sequence becomes one
  U+FFFD. An option word compared with ASCII text after this is equal exactly if the bytes are.
\<close>

definition replacement :: "nat list" where "replacement = [239, 191, 189]"

definition cont_byte :: "nat \<Rightarrow> bool" where
  "cont_byte b \<longleftrightarrow> 128 \<le> b \<and> b \<le> 191"

text \<open>The second bytes that may follow a given first byte of a sequence of three or four.\<close>

definition second_ok :: "nat \<Rightarrow> nat \<Rightarrow> bool" where
  "second_ok a b \<longleftrightarrow>
     (if a = 224 then 160 \<le> b \<and> b \<le> 191
      else if a = 237 then 128 \<le> b \<and> b \<le> 159
      else if a = 240 then 144 \<le> b \<and> b \<le> 191
      else if a = 244 then 128 \<le> b \<and> b \<le> 143
      else cont_byte b)"

fun lossy_nat :: "nat list \<Rightarrow> nat list" where
  "lossy_nat [] = []"
| "lossy_nat (a # bs) =
     (if a < 128 then a # lossy_nat bs
      else if 194 \<le> a \<and> a \<le> 223 then
        (case bs of
           b # cs \<Rightarrow> if cont_byte b then a # b # lossy_nat cs else replacement @ lossy_nat bs
         | [] \<Rightarrow> replacement)
      else if 224 \<le> a \<and> a \<le> 244 then
        (case bs of
           b # cs \<Rightarrow>
             if \<not> second_ok a b then replacement @ lossy_nat bs
             else
               (case cs of
                  c # ds \<Rightarrow>
                    if \<not> cont_byte c then replacement @ lossy_nat cs
                    else if a < 240 then a # b # c # lossy_nat ds
                    else
                      (case ds of
                         d # es \<Rightarrow> if cont_byte d then a # b # c # d # lossy_nat es else replacement @ lossy_nat ds
                       | [] \<Rightarrow> replacement)
                | [] \<Rightarrow> replacement)
         | [] \<Rightarrow> replacement)
      else replacement @ lossy_nat bs)"

definition from_utf8_lossy :: "bytes \<Rightarrow> bytes" where
  "from_utf8_lossy s = map char_of (lossy_nat (map of_char s))"

section \<open>Replies\<close>

definition resp_ok :: resp_value where "resp_ok = SimpleString ''OK''"

definition resp_error :: "bytes \<Rightarrow> resp_value" where "resp_error msg = RespError msg"

definition resp_null :: resp_value where "resp_null = BulkString None"

definition bulk :: "bytes \<Rightarrow> resp_value" where "bulk s = BulkString (Some s)"

definition quoted :: "bytes \<Rightarrow> bytes" where "quoted s = [CHR 0x27] @ s @ [CHR 0x27]"

definition wrong_args :: "bytes \<Rightarrow> bytes" where
  "wrong_args cmd = ''ERR wrong number of arguments for '' @ quoted cmd"

definition not_integer :: bytes where "not_integer = ''ERR value is not an integer or out of range''"

type_synonym 'c outcome = "('c cache \<times> (err + resp_value)) option"

definition answer :: "resp_value \<Rightarrow> 'c cache \<Rightarrow> 'c outcome" where
  "answer r c = Some (c, Inr r)"

definition refuse :: "bytes \<Rightarrow> 'c cache \<Rightarrow> 'c outcome" where
  "refuse msg c = answer (resp_error msg) c"

definition resp_bool :: "bool \<Rightarrow> resp_value" where
  "resp_bool b = Integer (if b then 1 else 0)"

text \<open>\<open>match args[i].as_bulk_string() { Some(b) => ..., None => return error }\<close>.\<close>

definition with_bulk :: "bytes \<Rightarrow> resp_value \<Rightarrow> 'c cache \<Rightarrow> (bytes \<Rightarrow> 'c outcome) \<Rightarrow> 'c outcome" where
  "with_bulk msg a c f = (case as_bulk_string a of Some b \<Rightarrow> f b | None \<Rightarrow> refuse msg c)"

abbreviation with_key :: "resp_value \<Rightarrow> 'c cache \<Rightarrow> (bytes \<Rightarrow> 'c outcome) \<Rightarrow> 'c outcome" where
  "with_key \<equiv> with_bulk ''ERR invalid key''"

abbreviation with_value :: "resp_value \<Rightarrow> 'c cache \<Rightarrow> (bytes \<Rightarrow> 'c outcome) \<Rightarrow> 'c outcome" where
  "with_value \<equiv> with_bulk ''ERR invalid value''"

text \<open>The result of a cache operation as a reply: the error as text, the value by \<open>f\<close>.\<close>

definition finish :: "('v \<Rightarrow> resp_value) \<Rightarrow> 'c cache \<times> (err + 'v) \<Rightarrow> 'c outcome" where
  "finish f cr = (case cr of (c, Inr v) \<Rightarrow> answer (f v) c | (c, Inl e) \<Rightarrow> refuse (to_resp_string e) c)"

text \<open>The type check of the string commands: only an absent key or a string goes on.\<close>

definition if_string :: "'c env \<Rightarrow> bytes \<Rightarrow> 'c cache \<Rightarrow> ('c cache \<Rightarrow> 'c outcome) \<Rightarrow> 'c outcome" where
  "if_string E key c f =
     (let (c1, t) = key_type E key c
      in if t = TNone \<or> t = TString then f c1 else refuse (to_resp_string WrongType) c1)"

definition if_string_or_absent :: "'c env \<Rightarrow> bytes \<Rightarrow> 'c cache \<Rightarrow> ('c cache \<Rightarrow> 'c outcome) \<Rightarrow> 'c outcome" where
  "if_string_or_absent E key c f =
     (case ensure_string_or_absent E key c of
        (c1, Inl WrongType) \<Rightarrow> refuse (to_resp_string WrongType) c1
      | (c1, _) \<Rightarrow> f c1)"

section \<open>Facts\<close>

lemma as_bulk_string_bulk [simp]: "as_bulk_string (bulk s) = Some s" "as_bulk_string (BulkString (Some s)) = Some s"
  by (simp_all add: as_bulk_string_def bulk_def)

lemma with_bulk_bulk [simp]: "with_bulk msg (bulk s) c f = f s"
  by (simp add: with_bulk_def)

lemma parse_integer_arg_show [simp]: "in_i64 n \<Longrightarrow> parse_integer_arg (bulk (show_int n)) = Inr n"
  using utf8_decode_show_int [of n] by (auto simp: parse_integer_arg_def as_integer_def bulk_def parse_i64_show_int as_bulk_string_def)

lemma parse_integer_arg_range: "parse_integer_arg (bulk s) = Inr n \<Longrightarrow> in_i64 n"
  by (auto simp: parse_integer_arg_def as_integer_def bulk_def as_bulk_string_def split: option.splits if_splits
      dest: parse_i64_range)

lemma as_u64_nonneg: "0 \<le> i \<Longrightarrow> in_i64 i \<Longrightarrow> as_u64 i = nat i"
  by (simp add: as_u64_def in_i64_def i64_max_def usize_max_def)

lemma string_type: "type_of_slot x = TNone \<or> type_of_slot x = TString \<longleftrightarrow> string_or_none x"
  by (cases x) (auto simp: type_of_slot_def string_or_none_def string_slot_def split: key_value.splits)

lemma if_string_cases:
  assumes "cache_ok E c"
  obtains c1 where "cache_ok E c1" "view E c1 = view E c" "same_settings c c1" "map_get (key_values c1) key = view E c key"
    "total (tracker c1) \<le> total (tracker c)"
    "if_string E key c f = (if string_or_none (view E c key) then f c1 else refuse (to_resp_string WrongType) c1)"
proof -
  obtain c1 t where k: "key_type E key c = (c1, t)" by (rule prod.exhaust)
  note s = key_type_spec [OF assms k]
  have "if_string E key c f = (if string_or_none (view E c key) then f c1 else refuse (to_resp_string WrongType) c1)"
    using s(4) string_type [of "view E c key"] by (simp add: if_string_def k)
  moreover have "c1 = fst (purge_if_expired E key c)" using k by (auto simp: key_type_def get_key_value_def split: prod.splits)
  ultimately show ?thesis using that s purge_total [OF assms] by blast
qed

lemma if_string_or_absent_cases:
  assumes "cache_ok E c"
  obtains c1 where "cache_ok E c1" "view E c1 = view E c" "same_settings c c1" "map_get (key_values c1) key = view E c key"
    "total (tracker c1) \<le> total (tracker c)"
    "if_string_or_absent E key c f = (if string_or_none (view E c key) then f c1 else refuse (to_resp_string WrongType) c1)"
proof -
  obtain c1 r where k: "ensure_string_or_absent E key c = (c1, r)" by (rule prod.exhaust)
  note s = ensure_string_spec [OF assms k]
  have "if_string_or_absent E key c f = (if string_or_none (view E c key) then f c1 else refuse (to_resp_string WrongType) c1)"
    using s(4) string_type [of "view E c key"] by (auto simp: if_string_or_absent_def k)
  moreover have "c1 = fst (purge_if_expired E key c)" using k by (auto simp: ensure_string_or_absent_def split: prod.splits)
  ultimately show ?thesis using that s purge_total [OF assms] by blast
qed

end
