(* ===== verification/Lcs.thy ===== *)
theory Lcs
  imports Kore_Prelude "HOL-Library.Sublist"
begin

text \<open>
  The longest common subsequence behind the LCS command, \<open>compute_lcs_detail\<close> in
  \<open>src/src/commands/key_value.rs\<close>: the table of the dynamic programme filled cell by cell, the walk
  back through it, and the compression of the matched positions into ranges. A cell is a \<open>nat\<close>: it
  is at most the length of the shorter string, which a \<open>u32\<close> holds for strings below 4 GiB.
\<close>

section \<open>Model\<close>

record lcs_match =
  a_start :: nat
  a_end :: nat
  b_start :: nat
  b_end :: nat
  match_len :: nat

record lcs_detail =
  lcs :: bytes
  matches :: "lcs_match list"

definition fill_cell :: "bytes \<Rightarrow> bytes \<Rightarrow> nat \<Rightarrow> nat \<Rightarrow> nat list list \<Rightarrow> nat list list" where
  "fill_cell a b i j dp =
     (let v = (if a ! (i - 1) = b ! (j - 1) then dp ! (i - 1) ! (j - 1) + 1
               else max (dp ! (i - 1) ! j) (dp ! i ! (j - 1)))
      in dp[i := (dp ! i)[j := v]])"

definition fill_table :: "bytes \<Rightarrow> bytes \<Rightarrow> nat list list" where
  "fill_table a b =
     fold (\<lambda>i dp. fold (fill_cell a b i) [1..<length b + 1] dp) [1..<length a + 1]
       (replicate (length a + 1) (replicate (length b + 1) 0))"

text \<open>The walk back from the last cell; it collects in reverse order.\<close>

function backtrack ::
  "bytes \<Rightarrow> bytes \<Rightarrow> nat list list \<Rightarrow> nat \<Rightarrow> nat \<Rightarrow> (nat \<times> nat) list \<Rightarrow> bytes \<Rightarrow> (nat \<times> nat) list \<times> bytes" where
  "backtrack a b dp i j pairs out =
     (if i > 0 \<and> j > 0 then
        if a ! (i - 1) = b ! (j - 1) then
          backtrack a b dp (i - 1) (j - 1) (pairs @ [(i - 1, j - 1)]) (out @ [a ! (i - 1)])
        else if dp ! (i - 1) ! j \<ge> dp ! i ! (j - 1) then backtrack a b dp (i - 1) j pairs out
        else backtrack a b dp i (j - 1) pairs out
      else (pairs, out))"
  by pat_completeness auto
termination by (relation "measure (\<lambda>(a, b, dp, i, j, pairs, out). i + j)") auto

declare backtrack.simps [simp del]

definition mk_match :: "nat \<Rightarrow> nat \<Rightarrow> nat \<Rightarrow> nat \<Rightarrow> lcs_match" where
  "mk_match a0 a1 b0 b1 =
     \<lparr>a_start = a0, a_end = a1, b_start = b0, b_end = b1, match_len = a1 - a0 + 1\<rparr>"

fun compress :: "nat \<Rightarrow> nat \<Rightarrow> nat \<Rightarrow> nat \<Rightarrow> (nat \<times> nat) list \<Rightarrow> lcs_match list" where
  "compress a0 a1 b0 b1 [] = [mk_match a0 a1 b0 b1]"
| "compress a0 a1 b0 b1 ((ai, bi) # ps) =
     (if ai = a1 + 1 \<and> bi = b1 + 1 then compress a0 ai b0 bi ps
      else mk_match a0 a1 b0 b1 # compress ai ai bi bi ps)"

definition compute_lcs_detail :: "bytes \<Rightarrow> bytes \<Rightarrow> lcs_detail" where
  "compute_lcs_detail a b =
     (if length a = 0 \<or> length b = 0 then \<lparr>lcs = [], matches = []\<rparr>
      else
        let dp = fill_table a b;
            (pairs, out) = backtrack a b dp (length a) (length b) [] [];
            pairs = rev pairs
        in \<lparr>lcs = rev out,
            matches = (case pairs of [] \<Rightarrow> [] | (a0, b0) # ps \<Rightarrow> compress a0 a0 b0 b0 ps)\<rparr>)"

section \<open>The table\<close>

fun lcs_len :: "bytes \<Rightarrow> bytes \<Rightarrow> nat \<Rightarrow> nat \<Rightarrow> nat" where
  "lcs_len a b 0 j = 0"
| "lcs_len a b i 0 = 0"
| "lcs_len a b (Suc i) (Suc j) =
     (if a ! i = b ! j then lcs_len a b i j + 1 else max (lcs_len a b i (Suc j)) (lcs_len a b (Suc i) j))"

lemma lcs_len_0 [simp]: "lcs_len a b i 0 = 0"
  by (cases i) simp_all

text \<open>The table has its shape, and the cells before \<open>(i, j)\<close> in row order are filled.\<close>

definition filled :: "bytes \<Rightarrow> bytes \<Rightarrow> nat \<Rightarrow> nat \<Rightarrow> nat list list \<Rightarrow> bool" where
  "filled a b i j dp \<longleftrightarrow> length dp = Suc (length a) \<and> (\<forall>r < Suc (length a). length (dp ! r) = Suc (length b))
     \<and> (\<forall>r < Suc (length a). \<forall>c < Suc (length b).
           r < i \<or> r = i \<and> c < j \<or> r = 0 \<or> c = 0 \<longrightarrow> dp ! r ! c = lcs_len a b r c)"

lemma filled_cell:
  "filled a b i j dp \<Longrightarrow> r \<le> length a \<Longrightarrow> c \<le> length b \<Longrightarrow> r < i \<or> r = i \<and> c < j \<or> r = 0 \<or> c = 0
     \<Longrightarrow> dp ! r ! c = lcs_len a b r c"
  unfolding filled_def less_Suc_eq_le by blast

lemma fill_cell_filled:
  assumes "filled a b i j dp" "0 < i" "i \<le> length a" "0 < j" "j \<le> length b"
  shows "filled a b i (Suc j) (fill_cell a b i j dp)"
proof -
  obtain i' j' where ij: "i = Suc i'" "j = Suc j'" using assms(2,4) by (metis gr0_implies_Suc)
  have prev: "dp ! i' ! j' = lcs_len a b i' j'" "dp ! i' ! j = lcs_len a b i' j" "dp ! i ! j' = lcs_len a b i j'"
    using assms ij by (auto intro!: filled_cell [OF assms(1)] simp del: lcs_len.simps)
  have "(if a ! (i - 1) = b ! (j - 1) then dp ! (i - 1) ! (j - 1) + 1 else max (dp ! (i - 1) ! j) (dp ! i ! (j - 1)))
      = lcs_len a b i j"
    using prev by (simp add: ij)
  then have dp': "fill_cell a b i j dp = dp[i := (dp ! i)[j := lcs_len a b i j]]"
    by (simp add: fill_cell_def Let_def del: lcs_len.simps)
  show ?thesis
    unfolding filled_def
  proof (intro conjI allI impI)
    show "length (fill_cell a b i j dp) = Suc (length a)"
      using assms(1) by (simp add: dp' filled_def)
  next
    fix r assume "r < Suc (length a)"
    then show "length (fill_cell a b i j dp ! r) = Suc (length b)"
      using assms(1) by (cases "r = i") (auto simp: dp' filled_def)
  next
    fix r c assume rc: "r < Suc (length a)" "c < Suc (length b)" "r < i \<or> r = i \<and> c < Suc j \<or> r = 0 \<or> c = 0"
    have shape: "length dp = Suc (length a)" "length (dp ! i) = Suc (length b)" using assms by (auto simp: filled_def)
    show "fill_cell a b i j dp ! r ! c = lcs_len a b r c"
    proof (cases "r = i \<and> c = j")
      case True
      then show ?thesis using shape rc by (simp add: dp' del: lcs_len.simps)
    next
      case False
      then have "dp ! r ! c = lcs_len a b r c" using rc by (intro filled_cell [OF assms(1)]) auto
      then show ?thesis using False shape rc(1,2) by (cases "r = i") (auto simp: dp' simp del: lcs_len.simps)
    qed
  qed
qed

lemma fill_row:
  assumes "filled a b i 1 dp" "0 < i" "i \<le> length a" "k \<le> length b"
  shows "filled a b i (Suc k) (fold (fill_cell a b i) [1..<Suc k] dp)"
  using assms(4)
proof (induction k)
  case 0
  then show ?case using assms(1) by simp
next
  case (Suc k)
  then show ?case using fill_cell_filled [OF _ assms(2,3)] by simp
qed

lemma filled_next_row: "filled a b i (Suc (length b)) dp \<Longrightarrow> filled a b (Suc i) 1 dp"
  unfolding filled_def by (metis less_Suc_eq less_one)

lemma fill_rows:
  assumes "filled a b 1 1 dp" "k \<le> length a"
  shows "filled a b (Suc k) 1 (fold (\<lambda>i dp. fold (fill_cell a b i) [1..<length b + 1] dp) [1..<Suc k] dp)"
  using assms(2)
proof (induction k)
  case 0
  then show ?case using assms(1) by simp
next
  case (Suc k)
  then show ?case using filled_next_row [OF fill_row [of a b "Suc k" _ "length b"]] by simp
qed

lemma fill_table_correct:
  assumes "i \<le> length a" "j \<le> length b"
  shows "fill_table a b ! i ! j = lcs_len a b i j"
proof -
  let ?dp = "replicate (length a + 1) (replicate (length b + 1) 0)"
  have "filled a b 1 1 ?dp" by (auto simp: filled_def simp del: replicate.simps)
  from fill_rows [OF this, of "length a"] have "filled a b (Suc (length a)) 1 (fill_table a b)"
    by (simp add: fill_table_def)
  then show ?thesis using assms by (auto simp: filled_def)
qed

section \<open>The walk back\<close>

lemma subseq_snoc_cases:
  assumes "subseq (xs @ [x]) (ys @ [y])"
  shows "subseq (xs @ [x]) ys \<or> x = y \<and> subseq xs ys"
proof -
  obtain us vs where uv: "xs @ [x] = us @ vs" "subseq us ys" "subseq vs [y]"
    using assms by (auto simp: subseq_append_iff)
  then have "length vs \<le> 1" using list_emb_length by fastforce
  then show ?thesis using uv by (cases vs rule: rev_cases) auto
qed

lemma subseq_snoc_drop: "subseq (xs @ [x]) (ys @ [y]) \<Longrightarrow> subseq xs ys"
  by (metis prefixI prefix_imp_subseq subseq_order.trans subseq_snoc_cases)

lemma lcs_len_optimal:
  "subseq xs (take i a) \<Longrightarrow> subseq xs (take j b) \<Longrightarrow> i \<le> length a \<Longrightarrow> j \<le> length b
     \<Longrightarrow> length xs \<le> lcs_len a b i j"
proof (induction a b i j arbitrary: xs rule: lcs_len.induct)
  case (3 a b i j)
  have snoc: "take (Suc i) a = take i a @ [a ! i]" "take (Suc j) b = take j b @ [b ! j]"
    using "3.prems" by (simp_all add: take_Suc_conv_app_nth)
  show ?case
  proof (cases xs rule: rev_cases)
    case (snoc ys y)
    show ?thesis
    proof (cases "a ! i = b ! j")
      case True
      then have "length ys \<le> lcs_len a b i j"
        using "3.prems" "3.IH"(1) [of ys] by (auto simp: snoc take_Suc_conv_app_nth dest: subseq_snoc_drop)
      then show ?thesis by (simp add: True snoc)
    next
      case False
      then consider "subseq xs (take i a)" | "subseq xs (take j b)"
        using "3.prems" by (auto simp: snoc take_Suc_conv_app_nth dest: subseq_snoc_cases)
      then show ?thesis using "3.prems" "3.IH"(2,3) [of xs] False by cases (auto simp: max_def)
    qed
  qed simp
qed simp_all

text \<open>
  What the walk from \<open>(i, j)\<close> adds: positions strictly below, paired upwards, and as many as the
  table promises.
\<close>

definition walk_ok :: "bytes \<Rightarrow> bytes \<Rightarrow> nat \<Rightarrow> nat \<Rightarrow> (nat \<times> nat) list \<Rightarrow> bool" where
  "walk_ok a b i j ps \<longleftrightarrow> length ps = lcs_len a b i j
     \<and> sorted_wrt (\<lambda>p q. fst p < fst q \<and> snd p < snd q) ps
     \<and> (\<forall>p \<in> set ps. fst p < i \<and> snd p < j \<and> a ! fst p = b ! snd p)
     \<and> subseq (map (\<lambda>p. a ! fst p) ps) (take i a) \<and> subseq (map (\<lambda>p. a ! fst p) ps) (take j b)"

lemma walk_ok_stop: "i = 0 \<or> j = 0 \<Longrightarrow> walk_ok a b i j []"
  by (auto simp: walk_ok_def)

lemma walk_ok_match:
  assumes "walk_ok a b i j ps" "a ! i = b ! j" "i < length a" "j < length b"
  shows "walk_ok a b (Suc i) (Suc j) (ps @ [(i, j)])"
  using assms by (auto simp: walk_ok_def sorted_wrt_append take_Suc_conv_app_nth)

lemma subseq_take_Suc: "subseq xs (take i ys) \<Longrightarrow> subseq xs (take (Suc i) ys)"
  by (cases "i < length ys") (auto simp: take_Suc_conv_app_nth subseq_rev_drop_many)

lemma walk_ok_up:
  "walk_ok a b i (Suc j) ps \<Longrightarrow> a ! i \<noteq> b ! j \<Longrightarrow> lcs_len a b (Suc i) j \<le> lcs_len a b i (Suc j)
     \<Longrightarrow> walk_ok a b (Suc i) (Suc j) ps"
  by (auto simp: walk_ok_def subseq_take_Suc)

lemma walk_ok_left:
  "walk_ok a b (Suc i) j ps \<Longrightarrow> a ! i \<noteq> b ! j \<Longrightarrow> lcs_len a b i (Suc j) < lcs_len a b (Suc i) j
     \<Longrightarrow> walk_ok a b (Suc i) (Suc j) ps"
  by (auto simp: walk_ok_def subseq_take_Suc)

lemma backtrack_walk:
  assumes "i \<le> length a" "j \<le> length b"
  shows "\<exists>ps. walk_ok a b i j ps
     \<and> backtrack a b (fill_table a b) i j pairs out = (pairs @ rev ps, out @ rev (map (\<lambda>p. a ! fst p) ps))"
  using assms
proof (induction "i + j" arbitrary: i j pairs out rule: less_induct)
  case less
  show ?case
  proof (cases "i > 0 \<and> j > 0")
    case False
    then have "backtrack a b (fill_table a b) i j pairs out = (pairs, out)" by (subst backtrack.simps) (simp only: if_False)
    moreover have "walk_ok a b i j []" using False by (intro walk_ok_stop) auto
    ultimately show ?thesis by (intro exI [of _ "[]"]) simp
  next
    case True
    then obtain i' j' where ij: "i = Suc i'" "j = Suc j'" by (metis gr0_implies_Suc)
    have cells: "fill_table a b ! i' ! j = lcs_len a b i' j" "fill_table a b ! i ! j' = lcs_len a b i j'"
      using less.prems ij by (simp_all add: fill_table_correct del: lcs_len.simps)
    have step: "backtrack a b (fill_table a b) i j pairs out =
        (if a ! i' = b ! j' then backtrack a b (fill_table a b) i' j' (pairs @ [(i', j')]) (out @ [a ! i'])
         else if lcs_len a b i j' \<le> lcs_len a b i' j then backtrack a b (fill_table a b) i' j pairs out
         else backtrack a b (fill_table a b) i j' pairs out)"
      using True cells by (subst backtrack.simps) (simp add: ij del: lcs_len.simps)
    consider (eq) "a ! i' = b ! j'" | (up) "a ! i' \<noteq> b ! j'" "lcs_len a b i j' \<le> lcs_len a b i' j"
      | (left) "a ! i' \<noteq> b ! j'" "lcs_len a b i' j < lcs_len a b i j'" by linarith
    then show ?thesis
    proof cases
      case eq
      then obtain ps where ps: "walk_ok a b i' j' ps" "backtrack a b (fill_table a b) i' j' (pairs @ [(i', j')]) (out @ [a ! i'])
          = ((pairs @ [(i', j')]) @ rev ps, (out @ [a ! i']) @ rev (map (\<lambda>p. a ! fst p) ps))"
        using less.hyps [of i' j' "pairs @ [(i', j')]" "out @ [a ! i']"] less.prems ij by auto
      from walk_ok_match [OF ps(1) eq] less.prems ij have "walk_ok a b i j (ps @ [(i', j')])" by simp
      then show ?thesis using ps(2) eq by (intro exI [of _ "ps @ [(i', j')]"]) (simp add: step)
    next
      case up
      then obtain ps where ps: "walk_ok a b i' j ps" "backtrack a b (fill_table a b) i' j pairs out
          = (pairs @ rev ps, out @ rev (map (\<lambda>p. a ! fst p) ps))"
        using less.hyps [of i' j pairs out] less.prems ij by auto
      from walk_ok_up up ps(1) have "walk_ok a b i j ps" unfolding ij by blast
      then show ?thesis using up by (intro exI [of _ ps]) (simp add: step ps(2))
    next
      case left
      then obtain ps where ps: "walk_ok a b i j' ps" "backtrack a b (fill_table a b) i j' pairs out
          = (pairs @ rev ps, out @ rev (map (\<lambda>p. a ! fst p) ps))"
        using less.hyps [of i j' pairs out] less.prems ij by auto
      from walk_ok_left left ps(1) have "walk_ok a b i j ps" unfolding ij by blast
      then show ?thesis using left by (intro exI [of _ ps]) (simp add: step ps(2))
    qed
  qed
qed

section \<open>Compression\<close>

definition expand :: "lcs_match \<Rightarrow> (nat \<times> nat) list" where
  "expand m = map (\<lambda>k. (a_start m + k, b_start m + k)) [0..<match_len m]"

definition match_wf :: "lcs_match \<Rightarrow> bool" where
  "match_wf m \<longleftrightarrow> match_len m > 0 \<and> a_end m + 1 = a_start m + match_len m \<and> b_end m + 1 = b_start m + match_len m"

text \<open>Two neighbouring ranges that continue each other in both strings would be one range.\<close>

definition apart :: "lcs_match \<Rightarrow> lcs_match \<Rightarrow> bool" where
  "apart m m' \<longleftrightarrow> \<not> (a_start m' = a_end m + 1 \<and> b_start m' = b_end m + 1)"

lemma mk_match_sel [simp]:
  "a_start (mk_match a0 a1 b0 b1) = a0" "a_end (mk_match a0 a1 b0 b1) = a1"
  "b_start (mk_match a0 a1 b0 b1) = b0" "b_end (mk_match a0 a1 b0 b1) = b1"
  "match_len (mk_match a0 a1 b0 b1) = a1 - a0 + 1"
  by (simp_all add: mk_match_def)

lemma expand_single [simp]: "expand (mk_match a0 a0 b0 b0) = [(a0, b0)]"
  by (simp add: expand_def)

lemma expand_grow: "expand (mk_match a0 (a0 + Suc k) b0 b') = expand (mk_match a0 (a0 + k) b0 b'') @ [(a0 + Suc k, b0 + Suc k)]"
  by (simp add: expand_def)

lemma compress_head: "\<exists>m ms. compress a0 a1 b0 b1 ps = m # ms \<and> a_start m = a0 \<and> b_start m = b0"
  by (induction a0 a1 b0 b1 ps rule: compress.induct) auto

lemma compress_spec:
  assumes "a1 = a0 + k" "b1 = b0 + k"
  shows "concat (map expand (compress a0 a1 b0 b1 ps)) = expand (mk_match a0 a1 b0 b1) @ ps
     \<and> list_all match_wf (compress a0 a1 b0 b1 ps) \<and> successively apart (compress a0 a1 b0 b1 ps)"
  using assms
proof (induction a0 a1 b0 b1 ps arbitrary: k rule: compress.induct)
  case (1 a0 a1 b0 b1)
  then show ?case by (simp add: match_wf_def)
next
  case (2 a0 a1 b0 b1 ai bi ps)
  show ?case
  proof (cases "ai = a1 + 1 \<and> bi = b1 + 1")
    case True
    then show ?thesis using "2.IH"(1) [of "Suc k"] "2.prems" expand_grow [of a0 k b0 bi b1] by simp
  next
    case False
    obtain m ms where m: "compress ai ai bi bi ps = m # ms" "a_start m = ai" "b_start m = bi"
      using compress_head by blast
    show ?thesis using "2.IH"(2) [OF False, of 0] False "2.prems" m
      by (auto simp: match_wf_def apart_def)
  qed
qed

definition compressed :: "(nat \<times> nat) list \<Rightarrow> lcs_match list \<Rightarrow> bool" where
  "compressed ps ms \<longleftrightarrow> concat (map expand ms) = ps \<and> list_all match_wf ms \<and> successively apart ms"

lemma compress_pairs:
  "compressed ps (case ps of [] \<Rightarrow> [] | (a0, b0) # ps \<Rightarrow> compress a0 a0 b0 b0 ps)"
  using compress_spec [of _ _ 0] by (auto simp: compressed_def split: list.splits)

section \<open>The command's answer\<close>

lemma compute_lcs_detail_walk:
  "\<exists>ps. walk_ok a b (length a) (length b) ps \<and> lcs (compute_lcs_detail a b) = map (\<lambda>p. a ! fst p) ps
     \<and> compressed ps (matches (compute_lcs_detail a b))"
proof (cases "length a = 0 \<or> length b = 0")
  case True
  then show ?thesis by (intro exI [of _ "[]"]) (auto simp: walk_ok_stop compute_lcs_detail_def compressed_def)
next
  case False
  obtain ps where ps: "walk_ok a b (length a) (length b) ps"
      "backtrack a b (fill_table a b) (length a) (length b) [] [] = (rev ps, rev (map (\<lambda>p. a ! fst p) ps))"
    using backtrack_walk [of "length a" a "length b" b "[]" "[]"] by auto
  then show ?thesis using compress_pairs [of ps] False
    by (intro exI [of _ ps]) (simp add: compute_lcs_detail_def)
qed

text \<open>
  C23. The string LCS answers is a common subsequence of both values and no common subsequence is
  longer; the ranges of \<open>IDX\<close> spell out exactly its positions: in order they list pairs of equal bytes,
  strictly increasing in both strings and inside them, each range's ends agree with its length, and two
  neighbouring ranges never continue each other.
\<close>

theorem lcs_correct:
  "subseq (lcs (compute_lcs_detail a b)) a \<and> subseq (lcs (compute_lcs_detail a b)) b
     \<and> (\<forall>xs. subseq xs a \<and> subseq xs b \<longrightarrow> length xs \<le> length (lcs (compute_lcs_detail a b)))
     \<and> (\<exists>ps. compressed ps (matches (compute_lcs_detail a b))
          \<and> lcs (compute_lcs_detail a b) = map (\<lambda>p. a ! fst p) ps
          \<and> sorted_wrt (\<lambda>p q. fst p < fst q \<and> snd p < snd q) ps
          \<and> list_all (\<lambda>p. fst p < length a \<and> snd p < length b \<and> a ! fst p = b ! snd p) ps)"
proof -
  obtain ps where ps: "walk_ok a b (length a) (length b) ps" "lcs (compute_lcs_detail a b) = map (\<lambda>p. a ! fst p) ps"
      "compressed ps (matches (compute_lcs_detail a b))"
    using compute_lcs_detail_walk by blast
  then show ?thesis
    using lcs_len_optimal [of _ "length a" a "length b" b]
    by (intro conjI exI [of _ ps]) (auto simp: walk_ok_def list_all_iff)
qed

theorem lcs_correct_witness:
  "lcs (compute_lcs_detail ''ohmytext'' ''mynewtext'') = ''mytext''
     \<and> map (\<lambda>m. (a_start m, a_end m, b_start m, b_end m)) (matches (compute_lcs_detail ''ohmytext'' ''mynewtext''))
         = [(2, 3, 0, 1), (4, 7, 5, 8)]
     \<and> length ''ytext'' \<le> length (lcs (compute_lcs_detail ''ohmytext'' ''mynewtext''))"
proof -
  have "subseq ''ytext'' ''ohmytext'' \<and> subseq ''ytext'' ''mynewtext''" by simp
  then have "length ''ytext'' \<le> length (lcs (compute_lcs_detail ''ohmytext'' ''mynewtext''))"
    using lcs_correct [of "''ohmytext''" "''mynewtext''"] by blast
  moreover have "lcs (compute_lcs_detail ''ohmytext'' ''mynewtext'') = ''mytext''
     \<and> map (\<lambda>m. (a_start m, a_end m, b_start m, b_end m)) (matches (compute_lcs_detail ''ohmytext'' ''mynewtext''))
         = [(2, 3, 0, 1), (4, 7, 5, 8)]"
    by code_simp
  ultimately show ?thesis by blast
qed

end
