(* ===== verification/Key_Commands.thy ===== *)
theory Key_Commands
  imports Command_Base Lcs
begin

text \<open>
  The commands on strings, counters and deadlines: the handlers of \<open>src/src/commands/key_value.rs\<close>,
  \<open>counter.rs\<close>, \<open>expiration.rs\<close> and the stateless ones of \<open>basic.rs\<close>, over the cache operations.
  MOVE, COPY, DUMP, RESTORE and MIGRATE, which work on several databases or servers, and INCRBYFLOAT,
  which prints a float, are not modelled.
\<close>

section \<open>SET and its relatives\<close>

text \<open>The option loop of SET: an early return, or the options.\<close>

fun parse_set_options :: "resp_value list \<Rightarrow> store_options \<Rightarrow> (err + resp_value) + store_options" where
  "parse_set_options [] opts = Inr opts"
| "parse_set_options (a # rest) opts =
     (case as_bulk_string a of
        None \<Rightarrow> Inl (Inr (resp_error ''ERR invalid option''))
      | Some opt \<Rightarrow>
          if eq_ignore_ascii_case opt ''NX'' then parse_set_options rest (opts\<lparr>opt_nx := True\<rparr>)
          else if eq_ignore_ascii_case opt ''XX'' then parse_set_options rest (opts\<lparr>opt_xx := True\<rparr>)
          else if eq_ignore_ascii_case opt ''GET'' then parse_set_options rest (opts\<lparr>opt_get := True\<rparr>)
          else if eq_ignore_ascii_case opt ''KEEPTTL'' then parse_set_options rest (opts\<lparr>opt_keepttl := True\<rparr>)
          else if eq_ignore_ascii_case opt ''EX'' then
            (case rest of
               [] \<Rightarrow> Inl (Inr (resp_error ''ERR syntax error''))
             | v # rest' \<Rightarrow>
                 (case parse_integer_arg v of
                    Inl e \<Rightarrow> Inl (Inl e)
                  | Inr n \<Rightarrow> parse_set_options rest' (opts\<lparr>opt_ttl_ms := Some (as_u64 (wrap_i64 (n * 1000)))\<rparr>)))
          else if eq_ignore_ascii_case opt ''PX'' then
            (case rest of
               [] \<Rightarrow> Inl (Inr (resp_error ''ERR syntax error''))
             | v # rest' \<Rightarrow>
                 (case parse_integer_arg v of
                    Inl e \<Rightarrow> Inl (Inl e)
                  | Inr n \<Rightarrow> parse_set_options rest' (opts\<lparr>opt_ttl_ms := Some (as_u64 n)\<rparr>)))
          else if eq_ignore_ascii_case opt ''EXAT'' then
            (case rest of
               [] \<Rightarrow> Inl (Inr (resp_error ''ERR syntax error''))
             | v # rest' \<Rightarrow>
                 (case parse_integer_arg v of
                    Inl e \<Rightarrow> Inl (Inl e)
                  | Inr n \<Rightarrow> parse_set_options rest' (opts\<lparr>opt_exat_ms := Some (as_u64 (wrap_i64 (n * 1000)))\<rparr>)))
          else if eq_ignore_ascii_case opt ''PXAT'' then
            (case rest of
               [] \<Rightarrow> Inl (Inr (resp_error ''ERR syntax error''))
             | v # rest' \<Rightarrow>
                 (case parse_integer_arg v of
                    Inl e \<Rightarrow> Inl (Inl e)
                  | Inr n \<Rightarrow> parse_set_options rest' (opts\<lparr>opt_exat_ms := Some (as_u64 n)\<rparr>)))
          else Inl (Inr (resp_error (''ERR unknown option '' @ quoted (from_utf8_lossy opt)))))"

definition old_or_null :: "entry option \<Rightarrow> resp_value" where
  "old_or_null old = (case old of Some e \<Rightarrow> bulk (evalue e) | None \<Rightarrow> resp_null)"

definition set_reply :: "store_options \<Rightarrow> entry option \<Rightarrow> resp_value" where
  "set_reply opts old =
     (if opt_get opts then old_or_null old
      else if opt_nx opts then (if old \<noteq> None then resp_null else resp_ok)
      else resp_ok)"

definition handle_set :: "'c env \<Rightarrow> resp_value list \<Rightarrow> 'c cache \<Rightarrow> 'c outcome" where
  "handle_set E args c =
     (case args of
        a0 # a1 # rest \<Rightarrow>
          with_key a0 c (\<lambda>key. with_value a1 c (\<lambda>v.
            if rest = [] then do { cr \<leftarrow> store E key v default_options c; finish (\<lambda>_. resp_ok) cr }
            else
              (case parse_set_options rest default_options of
                 Inl early \<Rightarrow> Some (c, early)
               | Inr opts \<Rightarrow> do { cr \<leftarrow> store E key v opts c; finish (set_reply opts) cr })))
      | _ \<Rightarrow> refuse (wrong_args ''set'') c)"

text \<open>\<open>no_touch\<close> is the CLIENT NO-TOUCH flag of the connection.\<close>

definition handle_get :: "'c env \<Rightarrow> bool \<Rightarrow> resp_value list \<Rightarrow> 'c cache \<Rightarrow> 'c outcome" where
  "handle_get E no_touch args c =
     (case args of
        [a0] \<Rightarrow>
          with_key a0 c (\<lambda>key. if_string E key c (\<lambda>c1.
            let (c2, e) = load E key (\<not> no_touch) c1 in answer (old_or_null e) c2))
      | _ \<Rightarrow> refuse (wrong_args ''get'') c)"

text \<open>The keys of DEL, collected before anything is deleted; the first that is none is an error.\<close>

fun collect_keys :: "resp_value list \<Rightarrow> bytes list option" where
  "collect_keys [] = Some []"
| "collect_keys (a # rest) =
     (case as_bulk_string a of
        Some k \<Rightarrow> map_option ((#) k) (collect_keys rest)
      | None \<Rightarrow> None)"

definition handle_del :: "'c env \<Rightarrow> resp_value list \<Rightarrow> 'c cache \<Rightarrow> 'c outcome" where
  "handle_del E args c =
     (if args = [] then refuse (wrong_args ''del'') c
      else
        case collect_keys args of
          None \<Rightarrow> Some (c, Inl (InvalidArgument ''invalid key''))
        | Some ks \<Rightarrow> (let (c1, n) = delete_many E ks c in answer (Integer (int n)) c1))"

definition handle_unlink :: "'c env \<Rightarrow> resp_value list \<Rightarrow> 'c cache \<Rightarrow> 'c outcome" where
  "handle_unlink E args c =
     (if args = [] then refuse (wrong_args ''unlink'' @ '' command'') c else handle_del E args c)"

fun exists_count :: "'c env \<Rightarrow> resp_value list \<Rightarrow> 'c cache \<Rightarrow> 'c cache \<times> nat" where
  "exists_count E [] c = (c, 0)"
| "exists_count E (a # rest) c =
     (case as_bulk_string a of
        None \<Rightarrow> exists_count E rest c
      | Some k \<Rightarrow>
          (let (c1, b) = exists_key E k c; (c2, n) = exists_count E rest c1 in (c2, if b then n + 1 else n)))"

definition handle_exists :: "'c env \<Rightarrow> resp_value list \<Rightarrow> 'c cache \<Rightarrow> 'c outcome" where
  "handle_exists E args c =
     (if args = [] then refuse (wrong_args ''exists'') c
      else let (c1, n) = exists_count E args c in answer (Integer (int n)) c1)"

fun mget_loop :: "'c env \<Rightarrow> bool \<Rightarrow> resp_value list \<Rightarrow> 'c cache \<Rightarrow> 'c cache \<times> resp_value list" where
  "mget_loop E no_touch [] c = (c, [])"
| "mget_loop E no_touch (a # rest) c =
     (let (c1, r) = (case as_bulk_string a of
                       Some k \<Rightarrow> (let (c1, e) = load E k (\<not> no_touch) c in (c1, old_or_null e))
                     | None \<Rightarrow> (c, resp_null));
          (c2, rs) = mget_loop E no_touch rest c1
      in (c2, r # rs))"

definition handle_mget :: "'c env \<Rightarrow> bool \<Rightarrow> resp_value list \<Rightarrow> 'c cache \<Rightarrow> 'c outcome" where
  "handle_mget E no_touch args c =
     (if args = [] then refuse (wrong_args ''mget'') c
      else let (c1, rs) = mget_loop E no_touch args c in answer (RespArray rs) c1)"

fun mset_loop :: "'c env \<Rightarrow> resp_value list \<Rightarrow> 'c cache \<Rightarrow> 'c outcome" where
  "mset_loop E (a # b # rest) c =
     with_key a c (\<lambda>key. with_value b c (\<lambda>v. do {
       (c1, r) \<leftarrow> store E key v default_options c;
       case r of Inl e \<Rightarrow> Some (c1, Inl e) | Inr _ \<Rightarrow> mset_loop E rest c1 }))"
| "mset_loop E _ c = answer resp_ok c"

definition handle_mset :: "'c env \<Rightarrow> resp_value list \<Rightarrow> 'c cache \<Rightarrow> 'c outcome" where
  "handle_mset E args c =
     (if args = [] \<or> length args mod 2 \<noteq> 0 then refuse (wrong_args ''mset'') c else mset_loop E args c)"

fun collect_pairs :: "resp_value list \<Rightarrow> bytes + (bytes \<times> bytes) list" where
  "collect_pairs (a # b # rest) =
     (case as_bulk_string a of
        None \<Rightarrow> Inl ''ERR invalid key''
      | Some k \<Rightarrow>
          (case as_bulk_string b of
             None \<Rightarrow> Inl ''ERR invalid value''
           | Some v \<Rightarrow> (case collect_pairs rest of Inl e \<Rightarrow> Inl e | Inr ps \<Rightarrow> Inr ((k, v) # ps))))"
| "collect_pairs _ = Inr []"

fun any_exists :: "'c env \<Rightarrow> bytes list \<Rightarrow> 'c cache \<Rightarrow> 'c cache \<times> bool" where
  "any_exists E [] c = (c, False)"
| "any_exists E (k # ks) c = (let (c1, b) = exists_key E k c in if b then (c1, True) else any_exists E ks c1)"

fun msetnx_loop :: "'c env \<Rightarrow> (bytes \<times> bytes) list \<Rightarrow> 'c cache \<Rightarrow> 'c outcome" where
  "msetnx_loop E [] c = answer (Integer 1) c"
| "msetnx_loop E ((k, v) # ps) c = do {
     (c1, r) \<leftarrow> store E k v (default_options\<lparr>opt_nx := True\<rparr>) c;
     case r of
       Inl e \<Rightarrow> refuse (to_resp_string e) c1
     | Inr None \<Rightarrow> msetnx_loop E ps c1
     | Inr (Some _) \<Rightarrow> answer (Integer 0) c1 }"

definition handle_msetnx :: "'c env \<Rightarrow> resp_value list \<Rightarrow> 'c cache \<Rightarrow> 'c outcome" where
  "handle_msetnx E args c =
     (if args = [] \<or> length args mod 2 \<noteq> 0 then refuse (wrong_args ''msetnx'' @ '' command'') c
      else
        case collect_pairs args of
          Inl msg \<Rightarrow> refuse msg c
        | Inr ps \<Rightarrow>
            (let (c1, b) = any_exists E (map fst ps) c
             in if b then answer (Integer 0) c1 else msetnx_loop E ps c1))"

definition handle_setnx :: "'c env \<Rightarrow> resp_value list \<Rightarrow> 'c cache \<Rightarrow> 'c outcome" where
  "handle_setnx E args c =
     (case args of
        [a0, a1] \<Rightarrow>
          with_key a0 c (\<lambda>key. with_value a1 c (\<lambda>v. if_string_or_absent E key c (\<lambda>c1. do {
            cr \<leftarrow> store E key v (default_options\<lparr>opt_nx := True\<rparr>) c1;
            finish (\<lambda>old. resp_bool (old = None)) cr })))
      | _ \<Rightarrow> refuse (wrong_args ''setnx'') c)"

definition set_with_ttl_args :: "'c env \<Rightarrow> resp_value list \<Rightarrow> bool \<Rightarrow> bytes \<Rightarrow> 'c cache \<Rightarrow> 'c outcome" where
  "set_with_ttl_args E args seconds cmd c =
     (case args of
        [a0, a1, a2] \<Rightarrow>
          with_key a0 c (\<lambda>key.
            case parse_integer_arg a1 of
              Inl _ \<Rightarrow> refuse not_integer c
            | Inr n \<Rightarrow>
                if n > 0 then
                  with_value a2 c (\<lambda>v. if_string_or_absent E key c (\<lambda>c1.
                    let ttl_ms = (if seconds then saturating_mul (nat n) 1000 else nat n)
                    in do { cr \<leftarrow> store E key v (default_options\<lparr>opt_ttl_ms := Some ttl_ms\<rparr>) c1;
                            finish (\<lambda>_. resp_ok) cr }))
                else refuse (''ERR invalid expire time in '' @ quoted cmd @ '' command'') c)
      | _ \<Rightarrow> refuse (wrong_args cmd @ '' command'') c)"

definition handle_setex :: "'c env \<Rightarrow> resp_value list \<Rightarrow> 'c cache \<Rightarrow> 'c outcome" where
  "handle_setex E args = set_with_ttl_args E args True ''setex''"

definition handle_psetex :: "'c env \<Rightarrow> resp_value list \<Rightarrow> 'c cache \<Rightarrow> 'c outcome" where
  "handle_psetex E args = set_with_ttl_args E args False ''psetex''"

definition handle_getset :: "'c env \<Rightarrow> resp_value list \<Rightarrow> 'c cache \<Rightarrow> 'c outcome" where
  "handle_getset E args c =
     (case args of
        [a0, a1] \<Rightarrow>
          with_key a0 c (\<lambda>key. with_value a1 c (\<lambda>v. if_string_or_absent E key c (\<lambda>c1. do {
            cr \<leftarrow> store E key v (default_options\<lparr>opt_get := True\<rparr>) c1;
            finish old_or_null cr })))
      | _ \<Rightarrow> refuse (wrong_args ''getset'' @ '' command'') c)"

section \<open>Reading\<close>

definition handle_getdel :: "'c env \<Rightarrow> resp_value list \<Rightarrow> 'c cache \<Rightarrow> 'c outcome" where
  "handle_getdel E args c =
     (case args of
        [a0] \<Rightarrow>
          with_key a0 c (\<lambda>key. if_string E key c (\<lambda>c1.
            case load E key True c1 of
              (c2, Some e) \<Rightarrow> answer (bulk (evalue e)) (fst (delete E key c2))
            | (c2, None) \<Rightarrow> answer resp_null c2))
      | _ \<Rightarrow> refuse (wrong_args ''getdel'') c)"

record getex_options =
  gx_ttl_ms :: "nat option"
  gx_exat_ms :: "nat option"
  gx_persist :: bool

text \<open>
  \<open>upper\<close> stands for \<open>from_utf8_lossy\<close> followed by the Unicode \<open>to_uppercase\<close>.
\<close>

fun parse_getex_options ::
  "(bytes \<Rightarrow> bytes) \<Rightarrow> resp_value list \<Rightarrow> getex_options \<Rightarrow> (err + resp_value) + getex_options" where
  "parse_getex_options upper [] opts = Inr opts"
| "parse_getex_options upper (a # rest) opts =
     (case as_bulk_string a of
        None \<Rightarrow> Inl (Inr (resp_error ''ERR invalid option''))
      | Some w \<Rightarrow>
          (let opt = upper w
           in if opt = ''EX'' then
                (case rest of
                   [] \<Rightarrow> Inl (Inr (resp_error ''ERR syntax error''))
                 | v # rest' \<Rightarrow>
                     (case parse_integer_arg v of
                        Inl e \<Rightarrow> Inl (Inl e)
                      | Inr n \<Rightarrow> parse_getex_options upper rest' (opts\<lparr>gx_ttl_ms := Some (as_u64 (wrap_i64 (n * 1000)))\<rparr>)))
              else if opt = ''PX'' then
                (case rest of
                   [] \<Rightarrow> Inl (Inr (resp_error ''ERR syntax error''))
                 | v # rest' \<Rightarrow>
                     (case parse_integer_arg v of
                        Inl e \<Rightarrow> Inl (Inl e)
                      | Inr n \<Rightarrow> parse_getex_options upper rest' (opts\<lparr>gx_ttl_ms := Some (as_u64 n)\<rparr>)))
              else if opt = ''EXAT'' then
                (case rest of
                   [] \<Rightarrow> Inl (Inr (resp_error ''ERR syntax error''))
                 | v # rest' \<Rightarrow>
                     (case parse_integer_arg v of
                        Inl e \<Rightarrow> Inl (Inl e)
                      | Inr n \<Rightarrow> parse_getex_options upper rest' (opts\<lparr>gx_exat_ms := Some (as_u64 (wrap_i64 (n * 1000)))\<rparr>)))
              else if opt = ''PXAT'' then
                (case rest of
                   [] \<Rightarrow> Inl (Inr (resp_error ''ERR syntax error''))
                 | v # rest' \<Rightarrow>
                     (case parse_integer_arg v of
                        Inl e \<Rightarrow> Inl (Inl e)
                      | Inr n \<Rightarrow> parse_getex_options upper rest' (opts\<lparr>gx_exat_ms := Some (as_u64 n)\<rparr>)))
              else if opt = ''PERSIST'' then parse_getex_options upper rest (opts\<lparr>gx_persist := True\<rparr>)
              else Inl (Inr (resp_error (''ERR unknown option '' @ quoted opt)))))"

definition getex_apply :: "'c env \<Rightarrow> bytes \<Rightarrow> bytes \<Rightarrow> getex_options \<Rightarrow> 'c cache \<Rightarrow> 'c outcome" where
  "getex_apply E key v opts c =
     (if gx_persist opts then do {
        (c1, r) \<leftarrow> store E key v default_options c;
        case r of Inl e \<Rightarrow> Some (c1, Inl e) | Inr _ \<Rightarrow> answer (bulk v) c1 }
      else
        case gx_ttl_ms opts of
          Some ms \<Rightarrow> answer (bulk v) (fst (expire E key ms c))
        | None \<Rightarrow>
            (case gx_exat_ms opts of
               Some at \<Rightarrow>
                 answer (bulk v) (if at > unix_ms E then fst (expire E key (at - unix_ms E) c) else c)
             | None \<Rightarrow> answer (bulk v) c))"

definition handle_getex :: "'c env \<Rightarrow> (bytes \<Rightarrow> bytes) \<Rightarrow> resp_value list \<Rightarrow> 'c cache \<Rightarrow> 'c outcome" where
  "handle_getex E upper args c =
     (case args of
        [] \<Rightarrow> refuse (wrong_args ''getex'') c
      | a0 # rest \<Rightarrow>
          with_key a0 c (\<lambda>key.
            case parse_getex_options upper rest \<lparr>gx_ttl_ms = None, gx_exat_ms = None, gx_persist = False\<rparr> of
              Inl early \<Rightarrow> Some (c, early)
            | Inr opts \<Rightarrow> if_string E key c (\<lambda>c1.
                case load E key True c1 of
                  (c2, Some e) \<Rightarrow> getex_apply E key (evalue e) opts c2
                | (c2, None) \<Rightarrow> answer resp_null c2)))"

definition handle_type :: "'c env \<Rightarrow> resp_value list \<Rightarrow> 'c cache \<Rightarrow> 'c outcome" where
  "handle_type E args c =
     (case args of
        [a0] \<Rightarrow>
          with_key a0 c (\<lambda>key. let (c1, t) = key_type E key c in answer (SimpleString (as_redis_str t)) c1)
      | _ \<Rightarrow> refuse (wrong_args ''type'') c)"

definition substr_range :: "bytes \<Rightarrow> int \<Rightarrow> int \<Rightarrow> bytes" where
  "substr_range v start stop =
     (let len = int (length v)
      in if len = 0 then []
         else
           let start_idx = (if start < 0 then max (len + start) 0 else start);
               end_idx = (if stop < 0 then max (len + stop) 0 else stop)
           in if start_idx > end_idx \<or> start_idx \<ge> len then []
              else
                let end_idx = min end_idx (len - 1)
                in take (nat end_idx + 1 - nat start_idx) (drop (nat start_idx) v))"

definition handle_getrange :: "'c env \<Rightarrow> resp_value list \<Rightarrow> 'c cache \<Rightarrow> 'c outcome" where
  "handle_getrange E args c =
     (case args of
        [a0, a1, a2] \<Rightarrow>
          with_key a0 c (\<lambda>key. if_string E key c (\<lambda>c1.
            case parse_integer_arg a1 of
              Inl _ \<Rightarrow> refuse not_integer c1
            | Inr start \<Rightarrow>
                (case parse_integer_arg a2 of
                   Inl _ \<Rightarrow> refuse not_integer c1
                 | Inr stop \<Rightarrow>
                     (case load E key True c1 of
                        (c2, Some e) \<Rightarrow> answer (bulk (substr_range (evalue e) start stop)) c2
                      | (c2, None) \<Rightarrow> answer (bulk []) c2))))
      | _ \<Rightarrow> refuse (wrong_args ''getrange'' @ '' command'') c)"

definition handle_substr :: "'c env \<Rightarrow> resp_value list \<Rightarrow> 'c cache \<Rightarrow> 'c outcome" where
  "handle_substr E args c =
     (if length args \<noteq> 3 then refuse (wrong_args ''substr'' @ '' command'') c else handle_getrange E args c)"

definition handle_strlen :: "'c env \<Rightarrow> resp_value list \<Rightarrow> 'c cache \<Rightarrow> 'c outcome" where
  "handle_strlen E args c =
     (case args of
        [a0] \<Rightarrow>
          with_key a0 c (\<lambda>key.
            let (c1, t) = key_type E key c
            in if t = TNone then answer (Integer 0) c1
               else if t = TString then
                 (case load E key True c1 of
                    (c2, Some e) \<Rightarrow> answer (Integer (int (length (evalue e)))) c2
                  | (c2, None) \<Rightarrow> answer (Integer 0) c2)
               else refuse (to_resp_string WrongType) c1)
      | _ \<Rightarrow> refuse (wrong_args ''strlen'' @ '' command'') c)"

record lcs_options =
  len_only :: bool
  with_idx :: bool
  with_match_len :: bool
  min_match_len :: nat

fun parse_lcs_options :: "resp_value list \<Rightarrow> lcs_options \<Rightarrow> bytes + lcs_options" where
  "parse_lcs_options [] opts = Inr opts"
| "parse_lcs_options (a # rest) opts =
     (case as_bulk_string a of
        None \<Rightarrow> Inl ''ERR syntax error''
      | Some w \<Rightarrow>
          (let opt = ascii_upper w
           in if opt = ''LEN'' then parse_lcs_options rest (opts\<lparr>len_only := True\<rparr>)
              else if opt = ''IDX'' then parse_lcs_options rest (opts\<lparr>with_idx := True\<rparr>)
              else if opt = ''WITHMATCHLEN'' then parse_lcs_options rest (opts\<lparr>with_match_len := True\<rparr>)
              else if opt = ''MINMATCHLEN'' then
                (case rest of
                   [] \<Rightarrow> Inl ''ERR syntax error''
                 | v # rest' \<Rightarrow>
                     (case parse_integer_arg v of
                        Inr n \<Rightarrow> if n \<ge> 0 then parse_lcs_options rest' (opts\<lparr>min_match_len := nat n\<rparr>) else Inl not_integer
                      | Inl _ \<Rightarrow> Inl not_integer))
              else Inl ''ERR syntax error''))"

definition lcs_match_reply :: "bool \<Rightarrow> lcs_match \<Rightarrow> resp_value" where
  "lcs_match_reply with_len m =
     RespArray ([RespArray [Integer (int (a_start m)), Integer (int (a_end m))],
                 RespArray [Integer (int (b_start m)), Integer (int (b_end m))]]
                @ (if with_len then [Integer (int (match_len m))] else []))"

definition lcs_reply :: "lcs_options \<Rightarrow> lcs_detail \<Rightarrow> resp_value" where
  "lcs_reply opts d =
     (if len_only opts then Integer (int (length (lcs d)))
      else if with_idx opts then
        RespArray [bulk ''matches'',
                   RespArray (map (lcs_match_reply (with_match_len opts))
                     (filter (\<lambda>m. \<not> match_len m < min_match_len opts) (matches d))),
                   bulk ''len'', Integer (int (length (lcs d)))]
      else bulk (lcs d))"

definition value_or_empty :: "entry option \<Rightarrow> bytes" where
  "value_or_empty e = (case e of Some e \<Rightarrow> evalue e | None \<Rightarrow> [])"

definition handle_lcs :: "'c env \<Rightarrow> resp_value list \<Rightarrow> 'c cache \<Rightarrow> 'c outcome" where
  "handle_lcs E args c =
     (case args of
        a0 # a1 # rest \<Rightarrow>
          with_key a0 c (\<lambda>key1. with_key a1 c (\<lambda>key2.
            case parse_lcs_options rest \<lparr>len_only = False, with_idx = False, with_match_len = False, min_match_len = 0\<rparr> of
              Inl msg \<Rightarrow> refuse msg c
            | Inr opts \<Rightarrow>
                if len_only opts \<and> with_idx opts then
                  refuse ''ERR If you want both the length and indexes, please just use IDX.'' c
                else if_string E key1 c (\<lambda>c1. if_string E key2 c1 (\<lambda>c2.
                  let (c3, a) = load E key1 True c2; (c4, b) = load E key2 True c3
                  in answer (lcs_reply opts (compute_lcs_detail (value_or_empty a) (value_or_empty b))) c4))))
      | _ \<Rightarrow> refuse (wrong_args ''lcs'' @ '' command'') c)"

section \<open>Changing in place\<close>

definition handle_append :: "'c env \<Rightarrow> resp_value list \<Rightarrow> 'c cache \<Rightarrow> 'c outcome" where
  "handle_append E args c =
     (case args of
        [a0, a1] \<Rightarrow>
          with_key a0 c (\<lambda>key. with_value a1 c (\<lambda>v. do {
            cr \<leftarrow> append E key v c; finish (\<lambda>n. Integer (int n)) cr }))
      | _ \<Rightarrow> refuse (wrong_args ''append'' @ '' command'') c)"

definition handle_setrange :: "'c env \<Rightarrow> resp_value list \<Rightarrow> 'c cache \<Rightarrow> 'c outcome" where
  "handle_setrange E args c =
     (case args of
        [a0, a1, a2] \<Rightarrow>
          with_key a0 c (\<lambda>key.
            case parse_integer_arg a1 of
              Inl _ \<Rightarrow> refuse not_integer c
            | Inr n \<Rightarrow>
                if n \<ge> 0 then
                  with_value a2 c (\<lambda>v. do { cr \<leftarrow> setrange E key (nat n) v c; finish (\<lambda>n. Integer (int n)) cr })
                else refuse ''ERR offset is out of range'' c)
      | _ \<Rightarrow> refuse (wrong_args ''setrange'' @ '' command'') c)"

definition handle_rename :: "'c env \<Rightarrow> resp_value list \<Rightarrow> 'c cache \<Rightarrow> 'c outcome" where
  "handle_rename E args c =
     (case args of
        [a0, a1] \<Rightarrow>
          with_key a0 c (\<lambda>src. with_key a1 c (\<lambda>dst. finish (\<lambda>_. resp_ok) (rename E src dst False c)))
      | _ \<Rightarrow> refuse (wrong_args ''rename'' @ '' command'') c)"

definition handle_renamenx :: "'c env \<Rightarrow> resp_value list \<Rightarrow> 'c cache \<Rightarrow> 'c outcome" where
  "handle_renamenx E args c =
     (case args of
        [a0, a1] \<Rightarrow>
          with_key a0 c (\<lambda>src. with_key a1 c (\<lambda>dst. finish resp_bool (rename E src dst True c)))
      | _ \<Rightarrow> refuse (wrong_args ''renamenx'' @ '' command'') c)"

section \<open>Counters\<close>

definition handle_incr :: "'c env \<Rightarrow> resp_value list \<Rightarrow> 'c cache \<Rightarrow> 'c outcome" where
  "handle_incr E args c =
     (case args of
        [a0] \<Rightarrow> with_key a0 c (\<lambda>key. if_string_or_absent E key c (\<lambda>c1. finish Integer (incr E key 1 c1)))
      | _ \<Rightarrow> refuse (wrong_args ''incr'') c)"

definition handle_decr :: "'c env \<Rightarrow> resp_value list \<Rightarrow> 'c cache \<Rightarrow> 'c outcome" where
  "handle_decr E args c =
     (case args of
        [a0] \<Rightarrow> with_key a0 c (\<lambda>key. if_string_or_absent E key c (\<lambda>c1. finish Integer (decr E key 1 c1)))
      | _ \<Rightarrow> refuse (wrong_args ''decr'') c)"

definition handle_incrby :: "'c env \<Rightarrow> resp_value list \<Rightarrow> 'c cache \<Rightarrow> 'c outcome" where
  "handle_incrby E args c =
     (case args of
        [a0, a1] \<Rightarrow>
          with_key a0 c (\<lambda>key. if_string_or_absent E key c (\<lambda>c1.
            case parse_integer_arg a1 of
              Inl e \<Rightarrow> Some (c1, Inl e)
            | Inr delta \<Rightarrow> finish Integer (incr E key delta c1)))
      | _ \<Rightarrow> refuse (wrong_args ''incrby'') c)"

definition handle_decrby :: "'c env \<Rightarrow> resp_value list \<Rightarrow> 'c cache \<Rightarrow> 'c outcome" where
  "handle_decrby E args c =
     (case args of
        [a0, a1] \<Rightarrow>
          with_key a0 c (\<lambda>key. if_string_or_absent E key c (\<lambda>c1.
            case parse_integer_arg a1 of
              Inl e \<Rightarrow> Some (c1, Inl e)
            | Inr delta \<Rightarrow> finish Integer (decr E key delta c1)))
      | _ \<Rightarrow> refuse (wrong_args ''decrby'') c)"

section \<open>Deadlines\<close>

datatype expire_cond = CondNone | CondNx | CondXx | CondGt | CondLt

definition parse_expire_cond :: "resp_value list \<Rightarrow> bytes + expire_cond" where
  "parse_expire_cond args =
     (case args of
        [] \<Rightarrow> Inr CondNone
      | [a] \<Rightarrow>
          (case as_bulk_string a of
             None \<Rightarrow> Inl ''ERR syntax error''
           | Some w \<Rightarrow>
               (let tok = ascii_upper w
                in if tok = ''NX'' then Inr CondNx
                   else if tok = ''XX'' then Inr CondXx
                   else if tok = ''GT'' then Inr CondGt
                   else if tok = ''LT'' then Inr CondLt
                   else Inl ''ERR Unsupported option provided to EXPIRE/PEXPIRE/EXPIREAT/PEXPIREAT''))
      | _ \<Rightarrow> Inl ''ERR syntax error'')"

fun expire_cond_allows :: "expire_cond \<Rightarrow> int \<Rightarrow> int \<Rightarrow> bool" where
  "expire_cond_allows CondNone cur new \<longleftrightarrow> True"
| "expire_cond_allows CondNx cur new \<longleftrightarrow> cur < 0"
| "expire_cond_allows CondXx cur new \<longleftrightarrow> cur \<ge> 0"
| "expire_cond_allows CondGt cur new \<longleftrightarrow> cur \<ge> 0 \<and> new > cur"
| "expire_cond_allows CondLt cur new \<longleftrightarrow> cur \<ge> 0 \<and> new < cur"

definition invalid_expire :: "bytes \<Rightarrow> bytes" where
  "invalid_expire cmd = ''ERR invalid expire time in '' @ quoted cmd @ '' command''"

definition expire_relative :: "'c env \<Rightarrow> resp_value list \<Rightarrow> bool \<Rightarrow> bytes \<Rightarrow> 'c cache \<Rightarrow> 'c outcome" where
  "expire_relative E args seconds cmd c =
     (case args of
        a0 # a1 # rest \<Rightarrow>
          with_key a0 c (\<lambda>key.
            case parse_integer_arg a1 of
              Inl _ \<Rightarrow> refuse not_integer c
            | Inr n \<Rightarrow>
                if n < 0 then refuse (invalid_expire cmd) c
                else
                  (case parse_expire_cond rest of
                     Inl msg \<Rightarrow> refuse msg c
                   | Inr cond \<Rightarrow>
                       let ttl_ms = (if seconds then saturating_mul (nat n) 1000 else nat n);
                           (c1, cur) = ttl E key c
                       in if cur = -2 \<or> \<not> expire_cond_allows cond cur (wrap_i64 (int ttl_ms)) then answer (Integer 0) c1
                          else let (c2, r) = expire E key ttl_ms c1 in answer (resp_bool r) c2))
      | _ \<Rightarrow> refuse (wrong_args cmd @ '' command'') c)"

definition saturating_i64 :: "int \<Rightarrow> int" where
  "saturating_i64 n = max i64_min (min i64_max n)"

definition expire_absolute :: "'c env \<Rightarrow> resp_value list \<Rightarrow> bool \<Rightarrow> bytes \<Rightarrow> 'c cache \<Rightarrow> 'c outcome" where
  "expire_absolute E args unix_seconds cmd c =
     (case args of
        a0 # a1 # rest \<Rightarrow>
          with_key a0 c (\<lambda>key.
            case parse_integer_arg a1 of
              Inl _ \<Rightarrow> refuse not_integer c
            | Inr ts \<Rightarrow>
                if ts < 0 then refuse (invalid_expire cmd) c
                else
                  (case parse_expire_cond rest of
                     Inl msg \<Rightarrow> refuse msg c
                   | Inr cond \<Rightarrow>
                       let at = (if unix_seconds then saturating_i64 (ts * 1000) else ts);
                           (c1, cur) = ttl E key c;
                           new_remaining = max (at - wrap_i64 (int (unix_ms E))) 0
                       in if cur = -2 \<or> \<not> expire_cond_allows cond cur new_remaining then answer (Integer 0) c1
                          else let (c2, r) = expire_at_unix_ms E key at c1 in answer (resp_bool r) c2))
      | _ \<Rightarrow> refuse (wrong_args cmd @ '' command'') c)"

definition handle_expire :: "'c env \<Rightarrow> resp_value list \<Rightarrow> 'c cache \<Rightarrow> 'c outcome" where
  "handle_expire E args = expire_relative E args True ''expire''"

definition handle_pexpire :: "'c env \<Rightarrow> resp_value list \<Rightarrow> 'c cache \<Rightarrow> 'c outcome" where
  "handle_pexpire E args = expire_relative E args False ''pexpire''"

definition handle_expireat :: "'c env \<Rightarrow> resp_value list \<Rightarrow> 'c cache \<Rightarrow> 'c outcome" where
  "handle_expireat E args = expire_absolute E args True ''expireat''"

definition handle_pexpireat :: "'c env \<Rightarrow> resp_value list \<Rightarrow> 'c cache \<Rightarrow> 'c outcome" where
  "handle_pexpireat E args = expire_absolute E args False ''pexpireat''"

definition handle_persist :: "resp_value list \<Rightarrow> 'c cache \<Rightarrow> 'c outcome" where
  "handle_persist args c =
     (case args of
        [a0] \<Rightarrow> with_key a0 c (\<lambda>key. let (c1, removed) = persist key c in answer (resp_bool removed) c1)
      | _ \<Rightarrow> refuse (wrong_args ''persist'') c)"

definition handle_ttl :: "'c env \<Rightarrow> resp_value list \<Rightarrow> 'c cache \<Rightarrow> 'c outcome" where
  "handle_ttl E args c =
     (case args of
        [a0] \<Rightarrow>
          with_key a0 c (\<lambda>key.
            let (c1, ms) = ttl E key c in answer (Integer (if ms \<ge> 0 then ms div 1000 else ms)) c1)
      | _ \<Rightarrow> refuse (wrong_args ''ttl'') c)"

definition handle_pttl :: "'c env \<Rightarrow> resp_value list \<Rightarrow> 'c cache \<Rightarrow> 'c outcome" where
  "handle_pttl E args c =
     (case args of
        [a0] \<Rightarrow> with_key a0 c (\<lambda>key. let (c1, ms) = ttl E key c in answer (Integer ms) c1)
      | _ \<Rightarrow> refuse (wrong_args ''pttl'') c)"

definition handle_expiretime :: "'c env \<Rightarrow> resp_value list \<Rightarrow> 'c cache \<Rightarrow> 'c outcome" where
  "handle_expiretime E args c =
     (case args of
        [a0] \<Rightarrow>
          with_key a0 c (\<lambda>key.
            let (c1, ms) = expire_time_unix_ms E key c in answer (Integer (if ms \<ge> 0 then ms div 1000 else ms)) c1)
      | _ \<Rightarrow> refuse (wrong_args ''expiretime'') c)"

definition handle_pexpiretime :: "'c env \<Rightarrow> resp_value list \<Rightarrow> 'c cache \<Rightarrow> 'c outcome" where
  "handle_pexpiretime E args c =
     (case args of
        [a0] \<Rightarrow> with_key a0 c (\<lambda>key. let (c1, ms) = expire_time_unix_ms E key c in answer (Integer ms) c1)
      | _ \<Rightarrow> refuse (wrong_args ''pexpiretime'') c)"

section \<open>Connection commands\<close>

definition handle_ping :: "resp_value list \<Rightarrow> resp_value" where
  "handle_ping args =
     (case args of
        [] \<Rightarrow> SimpleString ''PONG''
      | a # _ \<Rightarrow> (case as_bulk_string a of Some msg \<Rightarrow> bulk msg | None \<Rightarrow> resp_error (wrong_args ''ping'')))"

definition handle_echo :: "resp_value list \<Rightarrow> resp_value" where
  "handle_echo args =
     (case args of
        [a] \<Rightarrow> (case as_bulk_string a of Some msg \<Rightarrow> bulk msg | None \<Rightarrow> resp_error ''ERR invalid argument'')
      | _ \<Rightarrow> resp_error (wrong_args ''echo''))"

text \<open>\<open>micros\<close> is the wall clock in microseconds.\<close>

definition handle_time :: "nat \<Rightarrow> resp_value list \<Rightarrow> resp_value" where
  "handle_time micros args =
     (if args \<noteq> [] then resp_error (wrong_args ''time'' @ '' command'')
      else RespArray [bulk (show_nat (micros div 1000000)), bulk (show_nat (micros mod 1000000))])"

end
