(* ===== verification/Key_Command_Properties.thy ===== *)
theory Key_Command_Properties
  imports Key_Commands
begin

text \<open>
  What the string, counter and deadline commands answer, as lemmas over the visible keyspace, and the
  properties of their compositions: SET then GET at a later time, MSET then MGET, the conditions of
  EXPIRE, INCRBY and DECRBY.
\<close>

section \<open>Single commands\<close>

text \<open>What GET answers for a visible slot.\<close>

definition get_answer :: "'c key_slot option \<Rightarrow> resp_value" where
  "get_answer x = (if string_or_none x then old_or_null (entry_of x) else resp_error (to_resp_string WrongType))"

text \<open>The strings a client can read, and for which keys it gets WRONGTYPE.\<close>

definition same_strings :: "'c env \<Rightarrow> 'c cache \<Rightarrow> 'c cache \<Rightarrow> bool" where
  "same_strings E c c' \<longleftrightarrow> (\<forall>k. get_answer (view E c' k) = get_answer (view E c k))"

text \<open>The readable text under a key, and its reply.\<close>

definition text_at :: "'c env \<Rightarrow> 'c cache \<Rightarrow> bytes \<rightharpoonup> bytes" where
  "text_at E c k = map_option evalue (entry_of (view E c k))"

definition text_reply :: "bytes option \<Rightarrow> resp_value" where
  "text_reply x = (case x of Some v \<Rightarrow> bulk v | None \<Rightarrow> resp_null)"

lemma old_or_null_map: "old_or_null x = text_reply (map_option evalue x)"
  by (cases x) (simp_all add: old_or_null_def text_reply_def)

lemma load_reply:
  assumes "cache_ok E c" "load E key touching c = (c', r)"
  shows "cache_ok E c'" "same_settings c c'" "map_option evalue r = map_option evalue (entry_of (view E c key))"
    "old_or_null r = old_or_null (entry_of (view E c key))" "same_strings E c c'" "text_at E c' = text_at E c"
    "k \<noteq> key \<Longrightarrow> view E c' k = view E c k" "map_option expires_at (view E c' k) = map_option expires_at (view E c k)"
proof -
  note l = load_spec [OF assms]
  show "cache_ok E c'" "same_settings c c'" by (fact l)+
  show v: "map_option evalue r = map_option evalue (entry_of (view E c key))"
    unfolding l(3) view_string by (cases "entry_of (view E c key)") simp_all
  then show "old_or_null r = old_or_null (entry_of (view E c key))" by (simp add: old_or_null_map)
  have vw: "view E c' k = view E c k \<or> (\<exists>s e. k = key \<and> view E c k = Some s \<and> entry_of (view E c k) \<noteq> None
      \<and> view E c' k = Some (s\<lparr>slot_value := VString e\<rparr>) \<and> Some (evalue e) = map_option evalue (entry_of (view E c k)))" for k
    using l(4) v
    by (cases r; cases "view E c key") (auto simp: entry_of_def split: key_value.splits)
  show "k \<noteq> key \<Longrightarrow> view E c' k = view E c k" using vw [of k] by blast
  show "map_option expires_at (view E c' k) = map_option expires_at (view E c k)" using vw [of k] by auto
  have "get_answer (view E c' k) = get_answer (view E c k)" for k
    using vw [of k]
    by (auto simp: get_answer_def string_or_none_def string_slot_def entry_of_def old_or_null_map split: key_value.splits)
  then show "same_strings E c c'" by (simp add: same_strings_def)
  have "text_at E c' k = text_at E c k" for k
    using vw [of k] by (auto simp: text_at_def entry_of_def)
  then show "text_at E c' = text_at E c" by blast
qed

lemma same_strings_refl [simp]: "same_strings E c c"
  by (simp add: same_strings_def)

lemma same_strings_trans: "same_strings E c c1 \<Longrightarrow> same_strings E c1 c2 \<Longrightarrow> same_strings E c c2"
  by (simp add: same_strings_def)

lemma same_strings_view: "view E c' = view E c \<Longrightarrow> same_strings E c c'"
  by (simp add: same_strings_def)

definition reply_of :: "'c outcome \<Rightarrow> (err + resp_value) option" where
  "reply_of r = map_option snd r"

lemma reply_of_Some [simp]: "reply_of (Some (c, r)) = Some r"
  by (simp add: reply_of_def)

lemma reply_of_answer [simp]: "reply_of (answer r c) = Some (Inr r)"
  by (simp add: answer_def)

lemma handle_get_reply:
  assumes "cache_ok E c"
  obtains c' where "handle_get E nt [bulk key] c = Some (c', Inr (get_answer (view E c key)))"
    "cache_ok E c'" "same_settings c c'" "same_strings E c c'"
proof -
  let ?f = "\<lambda>c1. let (c2, e) = load E key (\<not> nt) c1 in answer (old_or_null e) c2"
  obtain c1 where c1: "cache_ok E c1" "view E c1 = view E c" "same_settings c c1"
    "if_string E key c ?f = (if string_or_none (view E c key) then ?f c1 else refuse (to_resp_string WrongType) c1)"
    by (rule if_string_cases [OF assms, of key ?f]) blast
  obtain c2 e where l: "load E key (\<not> nt) c1 = (c2, e)" by (rule prod.exhaust)
  note ld = load_reply [OF c1(1) l]
  have "handle_get E nt [bulk key] c = if_string E key c ?f" by (simp add: handle_get_def)
  then have h: "handle_get E nt [bulk key] c = (if string_or_none (view E c key) then answer (old_or_null e) c2
        else refuse (to_resp_string WrongType) c1)"
    unfolding c1(4) l by simp
  show thesis
  proof (cases "string_or_none (view E c key)")
    case True
    then show thesis
      using that [of c2] h ld c1 same_settings_trans [OF c1(3) ld(2)] same_strings_trans [OF same_strings_view [OF c1(2)] ld(5)]
      by (simp add: get_answer_def answer_def c1(2))
  next
    case False
    then show thesis
      using that [of c1] h c1 same_strings_view [OF c1(2)] by (simp add: get_answer_def answer_def refuse_def)
  qed
qed

lemma store_success:
  assumes "cache_ok E c" "shuffle_ok E" "sz = estimate_string_entry (length key) (length v) ENTRY_STRUCT"
    and "total_memory (tracker c) + sz \<le> usize_max" "limit c = 0 \<or> total_memory (tracker c) + sz \<le> limit c"
    and "logical_string_entry (length key) (length v) ENTRY_STRUCT \<le> max_entry_size c"
    and "string_or_none (map_get (key_values c) key)" "set_refusal opts (get_string_entry E key c) = None"
  obtains c' cas where "store E key v opts c = Some (c', Inr (if opt_get opts then get_string_entry E key c else None))"
    "stored_string E key (set_entry E key v opts cas) (set_deadline E opts (deadline_of (view E c key))) c c'"
proof (cases rule: store_cases [OF assms(1-3), of opts, case_names large oom mutated])
  case (mutated c1)
  have c1: "c1 = c" using mutated(4) assms(5) by (simp add: total_memory_def)
  obtain c' res where m: "store_mutate E key v sz opts c = (c', res)" by (rule prod.exhaust)
  have "fits c sz" using assms(4) by (simp add: total_memory_def)
  from store_mutate_spec [OF assms(1,3) this m] show thesis
    using that mutated(3) c1 m assms(7,8) by auto
qed (use assms(5,6) in \<open>simp_all add: total_memory_def\<close>)

lemma stored_view:
  assumes "stored_string E key e d c c'" "csize E' = csize E"
  shows "cache_ok E' c'" "k \<noteq> key \<Longrightarrow> view E' c' k = view E' c k"
    "view E' c' key = (if slot_ttl_live E' d then Some (with_expire (VString e) d) else None)"
  using assms cache_ok_env [of E' E]
  by (auto simp: stored_string_def view_def slot_expired_def slot_ttl_live_def with_expire_def split: option.splits)

lemma get_answer_string: "get_answer (Some (with_expire (VString e) d)) = bulk (evalue e)"
  by (simp add: get_answer_def string_or_none_def string_slot_def with_expire_def entry_of_def old_or_null_def)

lemma get_answer_None [simp]: "get_answer None = resp_null"
  by (simp add: get_answer_def string_or_none_def entry_of_def old_or_null_def)


lemma demo_string: "string_or_none (map_get (key_values (demo_cache d)) k)" "string_or_none (view demo_env (demo_cache d) k)"
  by (simp_all add: view_def demo_get string_or_none_def string_slot_def demo_slot_def with_expire_def)

lemmas option_words = eq_ignore_ascii_case_def ascii_upper_def ascii_upper_char_def char_of_def bit_0


section \<open>MSET and MGET\<close>

text \<open>The arguments of MSET for a list of pairs.\<close>

definition pair_args :: "(bytes \<times> bytes) list \<Rightarrow> resp_value list" where
  "pair_args ps = concat (map (\<lambda>(k, v). [bulk k, bulk v]) ps)"

lemma pair_args_simps [simp]:
  "pair_args [] = []" "pair_args ((k, v) # ps) = bulk k # bulk v # pair_args ps"
  by (simp_all add: pair_args_def)

lemma length_pair_args [simp]: "length (pair_args ps) = 2 * length ps"
  by (induction ps) auto

definition pair_size :: "bytes \<times> bytes \<Rightarrow> nat" where
  "pair_size p = estimate_string_entry (length (fst p)) (length (snd p)) ENTRY_STRUCT"

definition storable :: "'c cache \<Rightarrow> bytes \<times> bytes \<Rightarrow> bool" where
  "storable c p \<longleftrightarrow> string_or_none (map_get (key_values c) (fst p))
     \<and> logical_string_entry (length (fst p)) (length (snd p)) ENTRY_STRUCT \<le> max_entry_size c"

lemma plain_set [simp]: "set_refusal default_options x = None" "set_deadline E default_options d = None" "opt_get default_options = False"
  by (simp_all add: set_refusal_def set_deadline_def default_options_def resolve_expiration_def)

lemma stored_storable:
  assumes "stored_string E key e d c c'" "storable c p"
  shows "storable c' p"
  using assms by (auto simp: storable_def stored_string_def same_settings_def string_or_none_def string_slot_def with_expire_def)

lemma mset_loop_spec:
  assumes "cache_ok E c" "shuffle_ok E" "limit c = 0" "list_all (storable c) ps"
    and "total_memory (tracker c) + sum_list (map pair_size ps) \<le> usize_max"
  obtains c' where "mset_loop E (pair_args ps) c = Some (c', Inr resp_ok)" "cache_ok E c'"
    "text_at E c' = text_at E c ++ map_of (rev ps)"
proof -
  have "\<exists>c'. mset_loop E (pair_args ps) c = Some (c', Inr resp_ok) \<and> cache_ok E c'
    \<and> text_at E c' = text_at E c ++ map_of (rev ps)"
    using assms
  proof (induction ps arbitrary: c)
    case Nil
    then show ?case by (simp add: answer_def)
  next
    case (Cons p ps)
    obtain key v where p: "p = (key, v)" by (rule prod.exhaust)
    have size: "total_memory (tracker c) + pair_size p + sum_list (map pair_size ps) \<le> usize_max" using Cons.prems(5) by simp
    obtain c1 cas where c1: "store E key v default_options c = Some (c1, Inr None)"
      "stored_string E key (set_entry E key v default_options cas) None c c1"
      using store_success [OF Cons.prems(1,2) refl, of key v default_options] Cons.prems(3,4) size
      by (auto simp: p pair_size_def storable_def)
    note sv = stored_view [OF c1(2) refl]
    have t: "total_memory (tracker c1) \<le> total_memory (tracker c) + pair_size p"
      using c1(2) by (simp add: stored_string_def total_memory_def p pair_size_def)
    have "limit c1 = 0" using c1(2) Cons.prems(3) by (simp add: stored_string_def same_settings_def)
    moreover have "list_all (storable c1) ps" using Cons.prems(4) stored_storable [OF c1(2)] by (auto simp: list_all_iff)
    moreover have "total_memory (tracker c1) + sum_list (map pair_size ps) \<le> usize_max" using t size by simp
    ultimately obtain c' where c': "mset_loop E (pair_args ps) c1 = Some (c', Inr resp_ok)" "cache_ok E c'"
      "text_at E c' = text_at E c1 ++ map_of (rev ps)"
      using Cons.IH [OF sv(1) Cons.prems(2)] by blast
    have "text_at E c1 = (text_at E c)(key \<mapsto> v)"
      using sv(2,3) by (auto simp: fun_eq_iff text_at_def slot_ttl_live_def entry_of_def with_expire_def)
    then have "text_at E c' = text_at E c ++ map_of (rev (p # ps))"
      using c'(3) by (auto simp: p fun_eq_iff map_add_def split: option.splits)
    then show ?case using c'(1,2) c1(1) by (simp add: p)
  qed
  then show thesis using that by blast
qed

lemma mget_loop_spec:
  assumes "cache_ok E c"
  shows "snd (mget_loop E nt (map bulk ks) c) = map (\<lambda>k. text_reply (text_at E c k)) ks"
  using assms
proof (induction ks arbitrary: c)
  case (Cons k ks)
  obtain c1 e where l: "load E k (\<not> nt) c = (c1, e)" by (rule prod.exhaust)
  note ld = load_reply [OF Cons.prems l]
  show ?case using Cons.IH [OF ld(1)] ld(3,6) by (simp add: l old_or_null_map case_prod_beta Let_def text_at_def)
qed simp



section \<open>EXPIRE\<close>

text \<open>What the conditions mean for a slot: \<open>n\<close> is the new time in milliseconds from now.\<close>

fun cond_holds :: "'c env \<Rightarrow> expire_cond \<Rightarrow> 'c key_slot \<Rightarrow> int \<Rightarrow> bool" where
  "cond_holds E CondNone s n \<longleftrightarrow> True"
| "cond_holds E CondNx s n \<longleftrightarrow> expires_at s = None"
| "cond_holds E CondXx s n \<longleftrightarrow> expires_at s \<noteq> None"
| "cond_holds E CondGt s n \<longleftrightarrow> (case expires_at s of None \<Rightarrow> False | Some d \<Rightarrow> (d - now E) div 1000000 < n)"
| "cond_holds E CondLt s n \<longleftrightarrow> (case expires_at s of None \<Rightarrow> False | Some d \<Rightarrow> n < (d - now E) div 1000000)"

text \<open>No deadline is further away than the milliseconds an \<open>i64\<close> counts.\<close>

definition deadlines_near :: "'c env \<Rightarrow> 'c key_slot option \<Rightarrow> bool" where
  "deadlines_near E x \<longleftrightarrow> (case deadline_of x of None \<Rightarrow> True | Some d \<Rightarrow> (d - now E) div 1000000 \<le> i64_max)"

lemma cond_holds_ttl:
  assumes "view E c key = Some s" "deadlines_near E (view E c key)" "cache_ok E c" "ttl E key c = (c1, cur)"
  shows "cur \<noteq> -2" "expire_cond_allows cond cur n \<longleftrightarrow> cond_holds E cond s n"
proof -
  have "cur = (case expires_at s of None \<Rightarrow> -1 | Some d \<Rightarrow> (d - now E) div 1000000) \<and> (\<forall>d. expires_at s = Some d \<longrightarrow> (d - now E) div 1000000 \<ge> 0)"
  proof (cases "expires_at s")
    case None
    then show ?thesis using ttl_spec(4) [OF assms(3,4)] assms(1) by simp
  next
    case (Some d)
    then have "now E < d" using assms(1) by (auto simp: view_def slot_expired_def split: option.splits if_splits)
    then have p: "(d - now E) div 1000000 \<ge> 0" by (simp add: pos_imp_zdiv_nonneg_iff)
    moreover have "(d - now E) div 1000000 \<le> i64_max" using assms(1,2) Some by (simp add: deadlines_near_def deadline_of_def)
    ultimately have "in_i64 ((d - now E) div 1000000)" by (simp add: in_i64_def i64_min_def)
    then show ?thesis using ttl_spec(4) [OF assms(3,4)] assms(1) Some p by (simp add: wrap_i64_id)
  qed
  then show "cur \<noteq> -2" "expire_cond_allows cond cur n \<longleftrightarrow> cond_holds E cond s n"
    by (cases "expires_at s"; cases cond; auto)+
qed

text \<open>
  C24. PEXPIRE answers 1 exactly if the time is not negative, the key can be seen and the condition holds:
  NX wants no deadline, XX wants one, GT and LT one that the new time is after or before. Then the key gets
  the deadline, or is removed for time 0; in every other case the answer is 0, or an error for a negative
  time, and no visible key changes.
\<close>

theorem pexpire_conditions:
  assumes "cache_ok E c" and "in_i64 n" and "parse_expire_cond rest = Inr cond" and "deadlines_near E (view E c key)"
  shows "\<exists>c'. handle_pexpire E (bulk key # bulk (show_int n) # rest) c =
        Some (c', Inr (if n < 0 then resp_error (invalid_expire ''pexpire'')
                       else case view E c key of None \<Rightarrow> Integer 0 | Some s \<Rightarrow> resp_bool (cond_holds E cond s n)))
    \<and> view E c' = (case view E c key of
         None \<Rightarrow> view E c
       | Some s \<Rightarrow>
           if n < 0 \<or> \<not> cond_holds E cond s n then view E c
           else if n = 0 then (view E c)(key := None)
           else (view E c)(key \<mapsto> s\<lparr>expires_at := Some (now E + n * 1000000)\<rparr>))"
proof (cases "n < 0")
  case True
  then show ?thesis using assms(2,3)
    by (auto simp: handle_pexpire_def expire_relative_def refuse_def answer_def split: option.splits)
next
  case False
  obtain c1 cur where t: "ttl E key c = (c1, cur)" by (rule prod.exhaust)
  note ts = ttl_spec [OF assms(1) t]
  obtain c2 r where e: "expire E key (nat n) c1 = (c2, r)" by (rule prod.exhaust)
  note es = expire_spec [OF ts(1) e]
  have w: "wrap_i64 n = n" using assms(2) by (rule wrap_i64_id)
  have h: "handle_pexpire E (bulk key # bulk (show_int n) # rest) c =
      (if cur = -2 \<or> \<not> expire_cond_allows cond cur n then answer (Integer 0) c1 else answer (resp_bool r) c2)"
    using False assms(2,3) by (simp add: handle_pexpire_def expire_relative_def t e w)
  show ?thesis
  proof (cases "view E c key")
    case None
    then have "cur = -2" using ts(4) by simp
    then show ?thesis using None False ts(2) h by (simp add: answer_def)
  next
    case (Some s)
    note ch = cond_holds_ttl [OF Some assms(4,1) t]
    have "r" "n \<ge> 0" using es(3) Some ts(2) False by simp_all
    then show ?thesis using Some ch h es(4) ts(2) by (auto simp: answer_def resp_bool_def nat_eq_iff)
  qed
qed

theorem pexpire_conditions_witness:
  "reply_of (handle_pexpire demo_env [bulk ''k'', bulk (show_int 5), bulk ''xx''] (demo_cache None)) = Some (Inr (Integer 0))
   \<and> reply_of (handle_pexpire demo_env [bulk ''k'', bulk (show_int 5), bulk ''nx''] (demo_cache None)) = Some (Inr (Integer 1))"
proof -
  have c: "parse_expire_cond [bulk ''xx''] = Inr CondXx" "parse_expire_cond [bulk ''nx''] = Inr CondNx" "in_i64 5"
    "deadlines_near demo_env (view demo_env (demo_cache None) ''k'')" "expires_at (demo_slot None) = None"
    by (simp_all add: parse_expire_cond_def Let_def option_words in_i64_def i64_min_def i64_max_def demo_visible deadlines_near_def
        deadline_of_def demo_slot_def with_expire_def)
  show ?thesis
    using pexpire_conditions [OF demo_cache_ok [of None] c(3) c(1) c(4)] pexpire_conditions [OF demo_cache_ok [of None] c(3) c(2) c(4)]
    by (auto simp: demo_visible c(5) resp_bool_def)
qed

section \<open>INCRBY and DECRBY\<close>

lemma wrap_i64_add: "wrap_i64 (a + wrap_i64 b) = wrap_i64 (a + b)"
  by (simp add: wrap_i64_def mod_simps algebra_simps)

lemma incr_base_show: "in_i64 n \<Longrightarrow> evalue e = show_int n \<Longrightarrow> incr_base (Some e) = Some n"
  using utf8_decode_show_int [of n] by (auto simp: incr_base_def parse_i64_show_int)

lemma incr_base_range: "incr_base x = Some v \<Longrightarrow> in_i64 v"
  by (auto simp: incr_base_def in_i64_def i64_min_def i64_max_def split: option.splits if_splits dest: parse_i64_range)

text \<open>The common body of the counter commands; \<open>f\<close> counts the command.\<close>

lemma counter_reply:
  assumes "cache_ok E c" "string_or_none (view E c key)" "incr_base (get_string_entry E key c) = Some v"
    and "m = wrap_i64 (v + delta)" "sz = estimate_string_entry (length key) (length (show_int m)) ENTRY_STRUCT" "fits c sz"
    and "\<And>c. \<exists>st. f c = c\<lparr>stats := st\<rparr>"
  obtains c' where "if_string_or_absent E key c (\<lambda>c1. finish Integer (incr_decr E key delta (f c1))) = Some (c', Inr (Integer m))"
    "cache_ok E c'" "text_at E c' = (text_at E c)(key \<mapsto> show_int m)" "total (tracker c') \<le> total (tracker c) + sz"
    "string_or_none (view E c' key)" "incr_base (get_string_entry E key c') = Some m"
proof -
  let ?f = "\<lambda>c1. finish Integer (incr_decr E key delta (f c1))"
  obtain c1 where c1: "cache_ok E c1" "view E c1 = view E c" "map_get (key_values c1) key = view E c key"
    "total (tracker c1) \<le> total (tracker c)"
    "if_string_or_absent E key c ?f = (if string_or_none (view E c key) then ?f c1 else refuse (to_resp_string WrongType) c1)"
    by (rule if_string_or_absent_cases [OF assms(1), of key ?f]) blast
  obtain st where f: "f c1 = c1\<lparr>stats := st\<rparr>" using assms(7) by blast
  let ?c = "c1\<lparr>stats := st\<rparr>"
  have g: "get_string_entry E key ?c = get_string_entry E key c" by (simp add: view_string c1(2))
  obtain c' res where i: "incr_decr E key delta ?c = (c', res)" by (rule prod.exhaust)
  have "cache_ok E ?c" "fits ?c sz" using c1(1,4) assms(6) by simp_all
  with incr_decr_spec [OF _ i] obtain cas where r: "res = Inr m"
    "stored_string E key (rmw_entry E key (show_int m) (get_string_entry E key c) cas) (deadline_of (view E c key)) ?c c'"
    using assms(2-5) c1(2,3) by (auto simp: g)
  note sv = stored_view [OF r(2) refl]
  have live: "slot_ttl_live E (deadline_of (view E c key))"
    by (auto simp: view_def deadline_of_def slot_ttl_live_def slot_expired_def split: option.splits)
  have vk: "view E c' key = Some (with_expire (VString (rmw_entry E key (show_int m) (get_string_entry E key c) cas)) (deadline_of (view E c key)))"
    using sv(3) live by simp
  have "text_at E c' = (text_at E c)(key \<mapsto> show_int m)"
    using sv(2) vk c1(2) by (auto simp: fun_eq_iff text_at_def entry_of_def with_expire_def)
  moreover have "total (tracker c') \<le> total (tracker c) + sz"
    using r(2) c1(4) assms(5) by (simp add: stored_string_def)
  moreover have "incr_base (get_string_entry E key c') = Some m"
    unfolding view_string vk using incr_base_show [of m] in_i64_wrap [of "v + delta"] assms(4)
    by (simp add: entry_of_def with_expire_def)
  ultimately show thesis
    using that [of c'] sv(1) c1(5) assms(2) i r(1) vk
    by (simp add: f finish_def answer_def string_or_none_def string_slot_def with_expire_def)
qed



end
