(* ===== verification/Ordered_Map.thy ===== *)
theory Ordered_Map
  imports Kore_Prelude
begin

text \<open>
  The standard library's \<open>BTreeMap\<close> as the list of its pairs in key order, and the facts the
  components share: insertion and removal keep the order and act on the finite map, a range is a
  filter. \<open>HashMap\<close> is an association list with distinct keys (\<open>AList\<close>), in an unspecified order.
\<close>

definition om_wf :: "('k :: linorder \<times> 'v) list \<Rightarrow> bool" where
  "om_wf m \<longleftrightarrow> sorted_wrt (<) (map fst m)"

fun om_insert :: "'k :: linorder \<Rightarrow> 'v \<Rightarrow> ('k \<times> 'v) list \<Rightarrow> ('k \<times> 'v) list" where
  "om_insert k v [] = [(k, v)]"
| "om_insert k v ((j, w) # m) =
     (if k < j then (k, v) # (j, w) # m else if k = j then (k, v) # m else (j, w) # om_insert k v m)"

definition om_remove :: "'k \<Rightarrow> ('k \<times> 'v) list \<Rightarrow> ('k \<times> 'v) list" where
  "om_remove k m = filter (\<lambda>p. fst p \<noteq> k) m"

text \<open>\<open>get_mut\<close> followed by a change of the value; it serves both kinds of map.\<close>

definition om_modify :: "'k \<Rightarrow> ('v \<Rightarrow> 'v) \<Rightarrow> ('k \<times> 'v) list \<Rightarrow> ('k \<times> 'v) list" where
  "om_modify k f m = map (\<lambda>(j, w). (j, if j = k then f w else w)) m"

text \<open>\<open>entry(k).or_insert_with(...)\<close> on a hash map.\<close>

definition hm_or_insert :: "'k \<Rightarrow> 'v \<Rightarrow> ('k \<times> 'v) list \<Rightarrow> ('k \<times> 'v) list" where
  "hm_or_insert k v m = (if map_of m k = None then AList.update k v m else m)"

text \<open>\<open>range(a..)\<close>, \<open>range(..b)\<close> and \<open>range(a..=b)\<close>, which panics for \<open>a > b\<close>.\<close>

definition om_from :: "'k :: linorder \<Rightarrow> ('k \<times> 'v) list \<Rightarrow> ('k \<times> 'v) list" where
  "om_from a m = filter (\<lambda>p. a \<le> fst p) m"

definition om_below :: "'k :: linorder \<Rightarrow> ('k \<times> 'v) list \<Rightarrow> ('k \<times> 'v) list" where
  "om_below b m = filter (\<lambda>p. fst p < b) m"

definition om_range :: "'k :: linorder \<Rightarrow> 'k \<Rightarrow> ('k \<times> 'v) list \<Rightarrow> ('k \<times> 'v) list option" where
  "om_range a b m = (if b < a then None else Some (filter (\<lambda>p. a \<le> fst p \<and> fst p \<le> b) m))"

section \<open>Facts\<close>

lemma om_wf_Nil [simp]: "om_wf []"
  by (simp add: om_wf_def)

lemma om_wf_Cons [simp]: "om_wf (p # m) \<longleftrightarrow> (\<forall>q \<in> set m. fst p < fst q) \<and> om_wf m"
  by (auto simp: om_wf_def)

lemma om_wf_hm: "om_wf m \<Longrightarrow> hm_wf m"
  by (induction m) auto

lemma om_insert_keys: "fst ` set (om_insert k v m) = insert k (fst ` set m)"
  by (induction k v m rule: om_insert.induct) (simp_all add: insert_commute)

lemma om_insert_set: "set (om_insert k v m) \<subseteq> insert (k, v) (set m)"
  by (induction k v m rule: om_insert.induct) auto

lemma om_insert_wf [simp]: "om_wf m \<Longrightarrow> om_wf (om_insert k v m)"
proof (induction m)
  case (Cons p m)
  then have "fst p < fst q" if "q \<in> set (om_insert k v m)" "fst p < k" for q
    using that om_insert_keys [of k v m] by (metis (no_types, lifting) image_iff insertE om_wf_Cons)
  then show ?case using Cons by (cases p) (auto intro: order.strict_trans)
qed simp

lemma om_insert_map_of [simp]: "om_wf m \<Longrightarrow> map_of (om_insert k v m) = (map_of m)(k \<mapsto> v)"
proof (induction m)
  case (Cons p m)
  then show ?case by (cases p) (auto simp: fun_eq_iff)
qed simp

lemma om_insert_last: "(\<forall>p \<in> set m. fst p < k) \<Longrightarrow> om_insert k v m = m @ [(k, v)]"
  by (induction m) auto

lemma om_filter_wf [simp]: "om_wf m \<Longrightarrow> om_wf (filter P m)"
  by (induction m) auto

lemma om_remove_wf [simp]: "om_wf m \<Longrightarrow> om_wf (om_remove k m)"
  by (simp add: om_remove_def)

lemma om_remove_map_of [simp]: "map_of (om_remove k m) = (map_of m)(k := None)"
  by (induction m) (auto simp: om_remove_def fun_eq_iff)

lemma om_modify_keys [simp]: "map fst (om_modify k f m) = map fst m"
  by (induction m) (auto simp: om_modify_def)

lemma om_modify_wf [simp]: "om_wf (om_modify k f m) = om_wf m" "hm_wf (om_modify k f m) = hm_wf m"
  by (simp_all add: om_wf_def)

lemma om_modify_map_of [simp]: "map_of (om_modify k f m) = (map_of m)(k := map_option f (map_of m k))"
  by (induction m) (auto simp: om_modify_def fun_eq_iff)

lemma hm_or_insert_wf [simp]: "hm_wf m \<Longrightarrow> hm_wf (hm_or_insert k v m)"
  by (simp add: hm_or_insert_def distinct_update)

lemma hm_or_insert_map_of [simp]:
  "map_of (hm_or_insert k v m) = (map_of m)(k \<mapsto> (case map_of m k of Some w \<Rightarrow> w | None \<Rightarrow> v))"
  by (auto simp: hm_or_insert_def update_conv' fun_eq_iff split: option.splits)

lemma filter_map_of:
  "hm_wf m \<Longrightarrow> map_of (filter P m) k = (case map_of m k of Some v \<Rightarrow> if P (k, v) then Some v else None | None \<Rightarrow> None)"
  by (induction m) (auto split: option.splits simp: map_of_eq_None_iff)

text \<open>Two well-formed ordered maps with the same content are equal.\<close>

lemma om_ext:
  assumes "om_wf m" "om_wf m'" "map_of m = map_of m'"
  shows "m = m'"
proof -
  have keys: "set (map fst m) = set (map fst m')" using assms(3) by (metis dom_map_of_conv_image_fst set_map)
  have k: "sorted (map fst m)" "sorted (map fst m')" "distinct (map fst m)" "distinct (map fst m')"
    using assms om_wf_hm by (auto simp: om_wf_def strict_sorted_iff)
  have fst_eq: "map fst m = map fst m'" using k keys by (simp add: sorted_distinct_set_unique)
  have "map snd m = map snd m'"
  proof (rule nth_equalityI)
    show len: "length (map snd m) = length (map snd m')" using fst_eq by (metis length_map)
    fix i assume i: "i < length (map snd m)"
    then have "map_of m (fst (m ! i)) = Some (snd (m ! i))" "map_of m' (fst (m' ! i)) = Some (snd (m' ! i))"
      using k len by (simp_all add: map_of_eq_Some_iff)
    moreover have "fst (m ! i) = fst (m' ! i)" using fst_eq i by (metis length_map nth_map)
    ultimately show "map snd m ! i = map snd m' ! i" using assms(3) i len by simp
  qed
  then show ?thesis using fst_eq by (metis zip_map_fst_snd)
qed

end
