(* ===== verification/Stream_Type.thy ===== *)
theory Stream_Type
  imports Ordered_Map Memory
begin

text \<open>
  Streams, \<open>src/src/stream_type.rs\<close>: an append-only log of entries under increasing IDs, and consumer
  groups with their lists of pending entries (PEL). A \<open>&str\<close> is the list of its code points. The wall
  clock in milliseconds is an argument, read once per operation. \<open>None\<close> is a panic. The list order of
  \<open>st_groups\<close> and \<open>consumers\<close> stands for the unspecified order of the hash maps. Numbers are \<open>u64\<close>.
\<close>

section \<open>Entry IDs\<close>

datatype stream_id = StreamId (id_ms: nat) (id_seq: nat)

instantiation stream_id :: linorder
begin

definition less_eq_stream_id :: "stream_id \<Rightarrow> stream_id \<Rightarrow> bool" where
  "less_eq_stream_id a b \<longleftrightarrow> id_ms a < id_ms b \<or> id_ms a = id_ms b \<and> id_seq a \<le> id_seq b"

definition less_stream_id :: "stream_id \<Rightarrow> stream_id \<Rightarrow> bool" where
  "less_stream_id a b \<longleftrightarrow> id_ms a < id_ms b \<or> id_ms a = id_ms b \<and> id_seq a < id_seq b"

instance
  by standard (auto simp: less_eq_stream_id_def less_stream_id_def stream_id.expand)

end

definition ID_ZERO :: stream_id where "ID_ZERO = StreamId 0 0"

definition ID_MAX :: stream_id where "ID_MAX = StreamId usize_max usize_max"

type_synonym code_points = "nat list"

definition str_of :: "string \<Rightarrow> code_points" where
  "str_of s = map of_char s"

definition to_string_id :: "stream_id \<Rightarrow> bytes" where
  "to_string_id i = show_nat (id_ms i) @ ''-'' @ show_nat (id_seq i)"

text \<open>The Unicode white space that \<open>str::trim\<close> removes.\<close>

definition white_space :: "nat \<Rightarrow> bool" where
  "white_space n \<longleftrightarrow> 9 \<le> n \<and> n \<le> 13 \<or> n = 32 \<or> n = 133 \<or> n = 160 \<or> n = 5760 \<or> 8192 \<le> n \<and> n \<le> 8202
     \<or> n = 8232 \<or> n = 8233 \<or> n = 8239 \<or> n = 8287 \<or> n = 12288"

definition trim :: "code_points \<Rightarrow> code_points" where
  "trim s = rev (dropWhile white_space (rev (dropWhile white_space s)))"

definition parse_u64_str :: "code_points \<Rightarrow> nat option" where
  "parse_u64_str s = (if list_all (\<lambda>n. n < 128) s then parse_u64 (map char_of s) else None)"

text \<open>\<open>split_once('-')\<close>.\<close>

fun split_dash :: "code_points \<Rightarrow> (code_points \<times> code_points) option" where
  "split_dash [] = None"
| "split_dash (a # s) =
     (if a = 45 then Some ([], s) else map_option (\<lambda>(x, y). (a # x, y)) (split_dash s))"

definition parse_pair :: "code_points \<times> code_points \<Rightarrow> stream_id option" where
  "parse_pair p =
     (case parse_u64_str (fst p) of
        None \<Rightarrow> None
      | Some m \<Rightarrow> map_option (StreamId m) (parse_u64_str (snd p)))"

definition parse_id :: "code_points \<Rightarrow> stream_id option" where
  "parse_id text =
     (let s = trim text
      in if s = [] then None
         else if s = str_of ''-'' then Some ID_ZERO
         else if s = str_of ''+'' then Some ID_MAX
         else if s = str_of ''$'' \<or> s = str_of ''*'' then None
         else case split_dash s of
                Some p \<Rightarrow> parse_pair p
              | None \<Rightarrow> map_option (\<lambda>m. StreamId m 0) (parse_u64_str s))"

definition parse_explicit :: "code_points \<Rightarrow> stream_id option" where
  "parse_explicit text =
     (case split_dash (trim text) of
        Some p \<Rightarrow> parse_pair p
      | None \<Rightarrow> None)"

definition next_id :: "stream_id \<Rightarrow> stream_id" where
  "next_id i =
     (if id_seq i < usize_max then StreamId (id_ms i) (id_seq i + 1)
      else if id_ms i < usize_max then StreamId (id_ms i + 1) 0
      else ID_MAX)"

section \<open>State\<close>

record stream_entry =
  se_id :: stream_id
  se_fields :: "(bytes \<times> bytes) list"

record pending_entry =
  pe_id :: stream_id
  pe_consumer :: bytes
  delivery_time_ms :: nat
  delivery_count :: nat

record consumer =
  cn_name :: bytes
  seen_time_ms :: nat
  cn_pending :: nat

record consumer_group =
  cg_name :: bytes
  last_delivered_id :: stream_id
  entries_read :: "nat option"
  consumers :: "(bytes \<times> consumer) list"
  cg_pending :: "(stream_id \<times> pending_entry) list"

record redis_stream =
  st_entries :: "(stream_id \<times> stream_entry) list"
  last_generated_id :: stream_id
  entries_added :: nat
  max_deleted_entry_id :: stream_id
  st_groups :: "(bytes \<times> consumer_group) list"

definition new_group :: "bytes \<Rightarrow> stream_id \<Rightarrow> consumer_group" where
  "new_group name i =
     \<lparr>cg_name = name, last_delivered_id = i, entries_read = None, consumers = [], cg_pending = []\<rparr>"

definition new_stream :: redis_stream where
  "new_stream =
     \<lparr>st_entries = [], last_generated_id = ID_ZERO, entries_added = 0, max_deleted_entry_id = ID_ZERO, st_groups = []\<rparr>"

definition st_len :: "redis_stream \<Rightarrow> nat" where
  "st_len s = length (st_entries s)"

definition last_id :: "redis_stream \<Rightarrow> stream_id" where
  "last_id s = (if st_entries s = [] then ID_ZERO else fst (last (st_entries s)))"

definition get_entry :: "redis_stream \<Rightarrow> stream_id \<Rightarrow> stream_entry option" where
  "get_entry s i = map_of (st_entries s) i"

text \<open>\<open>size_of::<StreamEntry>()\<close> is 40 and \<open>size_of::<RedisStream>()\<close> 112; \<open>cap\<close> is the capacity of the group map.\<close>

definition stream_entry_memory :: "stream_entry \<Rightarrow> nat" where
  "stream_entry_memory e =
     with_alloc_overhead (foldl (\<lambda>n (k, v). wrap_usize (n + length k + length v + BYTES_OVERHEAD * 2 + DICT_ENTRY_OVERHEAD))
       56 (se_fields e))"

definition stream_memory :: "nat \<Rightarrow> redis_stream \<Rightarrow> nat" where
  "stream_memory cap s =
     (let n0 = wrap_usize (112 + saturating_mul (length (st_entries s)) 48 + saturating_mul cap 8);
          n1 = foldl (\<lambda>n (_, e). wrap_usize (n + stream_entry_memory e)) n0 (st_entries s);
          n2 = foldl (\<lambda>n (_, g).
                 foldl (\<lambda>n (_, c). wrap_usize (n + length (cn_name c) + 32))
                   (wrap_usize (n + length (cg_name g) + BYTES_OVERHEAD + DICT_ENTRY_OVERHEAD + 64
                      + length (cg_pending g) * (64 + DICT_ENTRY_OVERHEAD))) (consumers g)) n1 (st_groups s)
      in with_alloc_overhead n2)"

section \<open>Adding and trimming\<close>

definition next_auto_id :: "nat \<Rightarrow> redis_stream \<Rightarrow> stream_id" where
  "next_auto_id t s =
     (let last = last_generated_id s
      in if t > id_ms last then StreamId t 0 else StreamId (id_ms last) (saturating_add (id_seq last) 1))"

definition err_xadd_args :: bytes where
  "err_xadd_args = ''ERR wrong number of arguments for '' @ [CHR 0x27] @ ''xadd'' @ [CHR 0x27] @ '' command''"

definition xadd_id :: "nat \<Rightarrow> code_points \<Rightarrow> redis_stream \<Rightarrow> bytes + stream_id" where
  "xadd_id t id_spec s =
     (if id_spec = str_of ''*'' then Inr (next_auto_id t s)
      else
        case parse_explicit id_spec of
          None \<Rightarrow> Inl ''ERR Invalid stream ID specified as stream command argument''
        | Some i \<Rightarrow>
            if i = ID_ZERO then Inl ''ERR The ID specified in XADD must be greater than 0-0''
            else if i \<le> last_generated_id s then
              Inl ''ERR The ID specified in XADD is equal or smaller than the target stream top item''
            else Inr i)"

definition xadd :: "nat \<Rightarrow> code_points \<Rightarrow> (bytes \<times> bytes) list \<Rightarrow> redis_stream \<Rightarrow> redis_stream \<times> (bytes + stream_id)" where
  "xadd t id_spec flds s =
     (if flds = [] then (s, Inl err_xadd_args)
      else
        case xadd_id t id_spec s of
          Inl e \<Rightarrow> (s, Inl e)
        | Inr i \<Rightarrow>
            (s\<lparr>st_entries := om_insert i \<lparr>se_id = i, se_fields = flds\<rparr> (st_entries s), last_generated_id := i,
               entries_added := saturating_add (entries_added s) 1\<rparr>, Inr i))"

text \<open>The first consumer of the group with a positive counter loses one.\<close>

fun decrement_first :: "(bytes \<times> consumer) list \<Rightarrow> (bytes \<times> consumer) list" where
  "decrement_first [] = []"
| "decrement_first ((n, c) # cs) =
     (if cn_pending c > 0 then (n, c\<lparr>cn_pending := cn_pending c - 1\<rparr>) # cs else (n, c) # decrement_first cs)"

definition note_deleted :: "stream_id \<Rightarrow> redis_stream \<Rightarrow> redis_stream" where
  "note_deleted i s = (if i > max_deleted_entry_id s then s\<lparr>max_deleted_entry_id := i\<rparr> else s)"

definition remove_entry_and_pel :: "stream_id \<Rightarrow> redis_stream \<Rightarrow> redis_stream" where
  "remove_entry_and_pel i s =
     (let s1 = s\<lparr>st_entries := om_remove i (st_entries s)\<rparr>;
          s2 = (if map_of (st_entries s) i \<noteq> None then note_deleted i s1 else s1)
      in s2\<lparr>st_groups := map (\<lambda>(n, g).
             (n, if map_of (cg_pending g) i \<noteq> None
                 then g\<lparr>cg_pending := om_remove i (cg_pending g), consumers := decrement_first (consumers g)\<rparr>
                 else g)) (st_groups s2)\<rparr>)"

fun remove_all_and_pel :: "stream_id list \<Rightarrow> redis_stream \<Rightarrow> redis_stream" where
  "remove_all_and_pel [] s = s"
| "remove_all_and_pel (i # is) s = remove_all_and_pel is (remove_entry_and_pel i s)"

definition trim_maxlen_limit :: "nat \<Rightarrow> nat option \<Rightarrow> redis_stream \<Rightarrow> redis_stream \<times> nat" where
  "trim_maxlen_limit mx lim s =
     (if length (st_entries s) \<le> mx then (s, 0)
      else
        let n = length (st_entries s) - mx;
            remove_count = (case lim of Some l \<Rightarrow> min n l | None \<Rightarrow> n);
            is = take remove_count (map fst (st_entries s))
        in (remove_all_and_pel is s, length is))"

definition trim_minid_limit :: "stream_id \<Rightarrow> nat option \<Rightarrow> redis_stream \<Rightarrow> redis_stream \<times> nat" where
  "trim_minid_limit minid lim s =
     (let ids = map fst (om_below minid (st_entries s));
          is = (case lim of Some l \<Rightarrow> if length ids > l then take l ids else ids | None \<Rightarrow> ids)
      in (remove_all_and_pel is s, length is))"

definition xadd_with_trim ::
  "nat \<Rightarrow> code_points \<Rightarrow> (bytes \<times> bytes) list \<Rightarrow> nat option \<Rightarrow> stream_id option \<Rightarrow> nat option \<Rightarrow> redis_stream
     \<Rightarrow> redis_stream \<times> (bytes + stream_id)" where
  "xadd_with_trim t id_spec flds maxlen minid lim s =
     (case xadd t id_spec flds s of
        (s1, Inl e) \<Rightarrow> (s1, Inl e)
      | (s1, Inr i) \<Rightarrow>
          (case maxlen of
             Some mx \<Rightarrow> (fst (trim_maxlen_limit mx lim s1), Inr i)
           | None \<Rightarrow>
               (case minid of
                  Some mn \<Rightarrow> (fst (trim_minid_limit mn lim s1), Inr i)
                | None \<Rightarrow> (s1, Inr i))))"

section \<open>Reading and deleting\<close>

definition cut_to :: "nat option \<Rightarrow> 'a list \<Rightarrow> 'a list" where
  "cut_to lim xs = (case lim of Some c \<Rightarrow> if length xs > c then take c xs else xs | None \<Rightarrow> xs)"

definition xrange :: "stream_id \<Rightarrow> stream_id \<Rightarrow> nat option \<Rightarrow> redis_stream \<Rightarrow> stream_entry list option" where
  "xrange start stop lim s = map_option (\<lambda>m. cut_to lim (map snd m)) (om_range start stop (st_entries s))"

definition xrevrange :: "stream_id \<Rightarrow> stream_id \<Rightarrow> nat option \<Rightarrow> redis_stream \<Rightarrow> stream_entry list option" where
  "xrevrange stop start lim s = map_option (\<lambda>m. cut_to lim (rev (map snd m))) (om_range start stop (st_entries s))"

definition xread_after :: "stream_id \<Rightarrow> nat option \<Rightarrow> redis_stream \<Rightarrow> stream_entry list" where
  "xread_after after lim s = cut_to lim (map snd (om_from (next_id after) (st_entries s)))"

text \<open>Dropping an ID from the PEL of a group, with the counter of its owner.\<close>

definition drop_pending :: "stream_id \<Rightarrow> consumer_group \<Rightarrow> consumer_group" where
  "drop_pending i g =
     (case map_of (cg_pending g) i of
        None \<Rightarrow> g
      | Some pe \<Rightarrow>
          g\<lparr>cg_pending := om_remove i (cg_pending g),
            consumers := om_modify (pe_consumer pe) (\<lambda>c. c\<lparr>cn_pending := cn_pending c - 1\<rparr>) (consumers g)\<rparr>)"

fun xdel :: "stream_id list \<Rightarrow> redis_stream \<Rightarrow> redis_stream \<times> nat" where
  "xdel [] s = (s, 0)"
| "xdel (i # is) s =
     (if map_of (st_entries s) i \<noteq> None then
        let s1 = note_deleted i (s\<lparr>st_entries := om_remove i (st_entries s)\<rparr>);
            (s2, n) = xdel is (s1\<lparr>st_groups := map (\<lambda>(n, g). (n, drop_pending i g)) (st_groups s1)\<rparr>)
        in (s2, n + 1)
      else xdel is s)"

section \<open>Consumer groups\<close>

definition no_group :: bytes where
  "no_group = ''NOGROUP No such key '' @ [CHR 0x27, CHR 0x27] @ '' or consumer group''"

definition with_group ::
  "bytes \<Rightarrow> (consumer_group \<Rightarrow> consumer_group \<times> 'r) \<Rightarrow> redis_stream \<Rightarrow> redis_stream \<times> (bytes + 'r)" where
  "with_group name f s =
     (case map_of (st_groups s) name of
        None \<Rightarrow> (s, Inl no_group)
      | Some g \<Rightarrow> (let (g', r) = f g in (s\<lparr>st_groups := om_modify name (\<lambda>_. g') (st_groups s)\<rparr>, Inr r)))"

definition group_create :: "bytes \<Rightarrow> stream_id \<Rightarrow> nat option \<Rightarrow> redis_stream \<Rightarrow> redis_stream \<times> (bytes + unit)" where
  "group_create name i entries s =
     (if map_of (st_groups s) name \<noteq> None then (s, Inl ''BUSYGROUP Consumer Group name already exists'')
      else (s\<lparr>st_groups := AList.update name ((new_group name i)\<lparr>entries_read := entries\<rparr>) (st_groups s)\<rparr>, Inr ()))"

definition group_destroy :: "bytes \<Rightarrow> redis_stream \<Rightarrow> redis_stream \<times> bool" where
  "group_destroy name s =
     (s\<lparr>st_groups := AList.delete name (st_groups s)\<rparr>, map_of (st_groups s) name \<noteq> None)"

definition new_consumer :: "bytes \<Rightarrow> nat \<Rightarrow> consumer" where
  "new_consumer name t = \<lparr>cn_name = name, seen_time_ms = t, cn_pending = 0\<rparr>"

definition group_create_consumer :: "nat \<Rightarrow> bytes \<Rightarrow> bytes \<Rightarrow> redis_stream \<Rightarrow> redis_stream \<times> (bytes + bool)" where
  "group_create_consumer t grp name s =
     with_group grp (\<lambda>g.
       if map_of (consumers g) name \<noteq> None then (g, False)
       else (g\<lparr>consumers := AList.update name (new_consumer name t) (consumers g)\<rparr>, True)) s"

definition group_del_consumer :: "bytes \<Rightarrow> bytes \<Rightarrow> redis_stream \<Rightarrow> redis_stream \<times> (bytes + nat)" where
  "group_del_consumer grp name s =
     with_group grp (\<lambda>g.
       if map_of (consumers g) name = None then (g, 0)
       else
         let owned = filter (\<lambda>p. pe_consumer (snd p) = name) (cg_pending g)
         in (g\<lparr>cg_pending := filter (\<lambda>p. fst p \<notin> set (map fst owned)) (cg_pending g),
               consumers := AList.delete name (consumers g)\<rparr>, length owned)) s"

definition group_setid :: "bytes \<Rightarrow> stream_id \<Rightarrow> nat option \<Rightarrow> redis_stream \<Rightarrow> redis_stream \<times> (bytes + unit)" where
  "group_setid grp i entries s =
     with_group grp (\<lambda>g.
       (g\<lparr>last_delivered_id := i, entries_read := (if entries \<noteq> None then entries else entries_read g)\<rparr>, ())) s"

definition xsetid :: "stream_id \<Rightarrow> nat option \<Rightarrow> stream_id option \<Rightarrow> redis_stream \<Rightarrow> redis_stream \<times> (bytes + unit)" where
  "xsetid i added max_deleted s =
     (if st_entries s \<noteq> [] \<and> i < fst (last (st_entries s)) then
        (s, Inl ''ERR The ID specified in XSETID is smaller than the current top ID'')
      else
        (s\<lparr>last_generated_id := i,
           entries_added := (case added of Some n \<Rightarrow> n | None \<Rightarrow> entries_added s),
           max_deleted_entry_id := (case max_deleted of Some d \<Rightarrow> d | None \<Rightarrow> max_deleted_entry_id s)\<rparr>, Inr ()))"

record xclaim_opts =
  min_idle_ms :: nat
  force :: bool
  time_ms :: "nat option"
  idle_ms :: "nat option"
  retrycount :: "nat option"
  just_id :: bool

definition claim_count :: "xclaim_opts \<Rightarrow> nat \<Rightarrow> nat" where
  "claim_count opts n =
     (case retrycount opts of
        Some dc \<Rightarrow> dc
      | None \<Rightarrow> if \<not> just_id opts then max (saturating_add n 1) 1 else if n = 0 then 1 else n)"

text \<open>Claiming one existing entry for a consumer.\<close>

definition bump_pending :: "bytes \<Rightarrow> (bytes \<times> consumer) list \<Rightarrow> (bytes \<times> consumer) list" where
  "bump_pending name = om_modify name (\<lambda>c. c\<lparr>cn_pending := cn_pending c + 1\<rparr>)"

definition release_pending :: "bytes \<Rightarrow> (bytes \<times> consumer) list \<Rightarrow> (bytes \<times> consumer) list" where
  "release_pending name = om_modify name (\<lambda>c. c\<lparr>cn_pending := cn_pending c - 1\<rparr>)"

definition see_consumer :: "nat \<Rightarrow> bytes \<Rightarrow> (bytes \<times> consumer) list \<Rightarrow> (bytes \<times> consumer) list" where
  "see_consumer t name cs =
     om_modify name (\<lambda>c. c\<lparr>seen_time_ms := t\<rparr>) (hm_or_insert name (new_consumer name t) cs)"

definition claim_entry ::
  "nat \<Rightarrow> nat \<Rightarrow> bytes \<Rightarrow> stream_id \<Rightarrow> xclaim_opts \<Rightarrow> consumer_group \<Rightarrow> consumer_group \<times> bool" where
  "claim_entry t delivery_time name i opts g =
     (let old = map_of (cg_pending g) i
      in if old = None \<and> \<not> force opts then (g, False)
         else if (case old of Some pe \<Rightarrow> t - delivery_time_ms pe < min_idle_ms opts | None \<Rightarrow> False) then (g, False)
         else
           let cs = see_consumer t name (consumers g);
               pe = (case old of
                       Some pe \<Rightarrow> pe
                     | None \<Rightarrow> \<lparr>pe_id = i, pe_consumer = name, delivery_time_ms = delivery_time, delivery_count = 0\<rparr>);
               cs' = (if pe_consumer pe \<noteq> name then bump_pending name (release_pending (pe_consumer pe) cs)
                      else if old = None then bump_pending name cs
                      else cs);
               pe' = pe\<lparr>pe_consumer := name, delivery_time_ms := delivery_time,
                        delivery_count := claim_count opts (delivery_count pe)\<rparr>
           in (g\<lparr>consumers := cs', cg_pending := om_insert i pe' (cg_pending g)\<rparr>, True))"

fun claim_loop ::
  "nat \<Rightarrow> nat \<Rightarrow> (stream_id \<times> stream_entry) list \<Rightarrow> bytes \<Rightarrow> stream_id list \<Rightarrow> xclaim_opts \<Rightarrow> consumer_group
     \<Rightarrow> consumer_group \<times> stream_id list" where
  "claim_loop t dt es name [] opts g = (g, [])"
| "claim_loop t dt es name (i # is) opts g =
     (if map_of es i = None then claim_loop t dt es name is opts (drop_pending i g)
      else
        let (g1, got) = claim_entry t dt name i opts g;
            (g2, rest) = claim_loop t dt es name is opts g1
        in (g2, if got then i # rest else rest))"

definition xclaim ::
  "nat \<Rightarrow> bytes \<Rightarrow> bytes \<Rightarrow> stream_id list \<Rightarrow> xclaim_opts \<Rightarrow> redis_stream \<Rightarrow> redis_stream \<times> (bytes + stream_id list)" where
  "xclaim t grp name ids opts s =
     (let dt = (case time_ms opts of
                  Some u \<Rightarrow> u
                | None \<Rightarrow> (case idle_ms opts of Some idle \<Rightarrow> t - idle | None \<Rightarrow> t))
      in with_group grp (claim_loop t dt (st_entries s) name ids opts) s)"

definition xclaim_force ::
  "nat \<Rightarrow> bytes \<Rightarrow> bytes \<Rightarrow> stream_id list \<Rightarrow> nat option \<Rightarrow> nat option \<Rightarrow> redis_stream
     \<Rightarrow> redis_stream \<times> (bytes + stream_id list)" where
  "xclaim_force t grp name ids dt dc s =
     xclaim t grp name ids
       \<lparr>min_idle_ms = 0, force = True, time_ms = dt, idle_ms = None, retrycount = dc, just_id = False\<rparr> s"

fun autoclaim_loop ::
  "nat \<Rightarrow> (stream_id \<times> stream_entry) list \<Rightarrow> bytes \<Rightarrow> nat \<Rightarrow> xclaim_opts \<Rightarrow> stream_id list \<Rightarrow> stream_id option
     \<Rightarrow> stream_id list \<Rightarrow> stream_id list \<Rightarrow> consumer_group
     \<Rightarrow> consumer_group \<times> stream_id option \<times> stream_id list \<times> stream_id list" where
  "autoclaim_loop t es name cnt opts [] last_ex claimed deleted g = (g, last_ex, claimed, deleted)"
| "autoclaim_loop t es name cnt opts (i # is) last_ex claimed deleted g =
     (if map_of es i = None then
        autoclaim_loop t es name cnt opts is (Some i) claimed
          (if map_of (cg_pending g) i \<noteq> None then deleted @ [i] else deleted) (drop_pending i g)
      else if length claimed \<ge> cnt then (g, Some i, claimed, deleted)
      else
        let (g1, got) = claim_loop t t es name [i] opts g; claimed' = claimed @ got
        in if length claimed' \<ge> cnt then (g1, Some i, claimed', deleted)
           else autoclaim_loop t es name cnt opts is (Some i) claimed' deleted g1)"

definition xautoclaim ::
  "nat \<Rightarrow> bytes \<Rightarrow> bytes \<Rightarrow> nat \<Rightarrow> stream_id \<Rightarrow> nat \<Rightarrow> bool \<Rightarrow> redis_stream
     \<Rightarrow> redis_stream \<times> (bytes + (stream_id \<times> stream_id list \<times> stream_id list))" where
  "xautoclaim t grp name min_idle start cnt justid s =
     with_group grp (\<lambda>g.
       let candidates = map fst (filter (\<lambda>(i, pe). map_of (st_entries s) i = None \<or> t - delivery_time_ms pe \<ge> min_idle)
                          (om_from start (cg_pending g)));
           opts = \<lparr>min_idle_ms = min_idle, force = False, time_ms = None, idle_ms = None, retrycount = None, just_id = justid\<rparr>;
           (g', last_ex, claimed, deleted) = autoclaim_loop t (st_entries s) name cnt opts candidates None [] [] g;
           nxt = (case last_ex of
                    None \<Rightarrow> ID_ZERO
                  | Some l \<Rightarrow> (case om_from (next_id l) (cg_pending g') of (i, _) # _ \<Rightarrow> i | [] \<Rightarrow> ID_ZERO))
       in (g', nxt, claimed, deleted)) s"

text \<open>The collecting loops push first and then compare with the count.\<close>

fun collect_until :: "nat option \<Rightarrow> 'a list \<Rightarrow> 'a list \<Rightarrow> 'a list" where
  "collect_until lim acc [] = acc"
| "collect_until lim acc (x # xs) =
     (let acc' = acc @ [x]
      in case lim of
           Some c \<Rightarrow> if length acc' \<ge> c then acc' else collect_until lim acc' xs
         | None \<Rightarrow> collect_until lim acc' xs)"

definition xpending_range ::
  "nat \<Rightarrow> bytes \<Rightarrow> stream_id \<Rightarrow> stream_id \<Rightarrow> nat \<Rightarrow> bytes option \<Rightarrow> nat \<Rightarrow> redis_stream \<Rightarrow> (bytes + pending_entry list) option" where
  "xpending_range t grp start stop cnt who min_idle s =
     (case map_of (st_groups s) grp of
        None \<Rightarrow> Some (Inl no_group)
      | Some g \<Rightarrow>
          map_option (\<lambda>m. Inr (collect_until (Some cnt) []
              (filter (\<lambda>pe. (case who of Some c \<Rightarrow> pe_consumer pe = c | None \<Rightarrow> True) \<and> \<not> t - delivery_time_ms pe < min_idle)
                (map snd m))))
            (om_range start stop (cg_pending g)))"

definition deliver_one :: "nat \<Rightarrow> bytes \<Rightarrow> bool \<Rightarrow> stream_entry \<Rightarrow> consumer_group \<Rightarrow> consumer_group" where
  "deliver_one t name noack e g =
     (let g1 = g\<lparr>last_delivered_id := se_id e\<rparr>
      in if noack then g1
         else
           let pe = (case map_of (cg_pending g1) (se_id e) of
                       Some pe \<Rightarrow> pe
                     | None \<Rightarrow> \<lparr>pe_id = se_id e, pe_consumer = name, delivery_time_ms = t, delivery_count = 0\<rparr>);
               cs = (if pe_consumer pe \<noteq> name then release_pending (pe_consumer pe) (consumers g1) else consumers g1);
               pe' = pe\<lparr>pe_consumer := name, delivery_count := wrapping_add (delivery_count pe) 1, delivery_time_ms := t\<rparr>
           in g1\<lparr>consumers := cs, cg_pending := om_insert (se_id e) pe' (cg_pending g1)\<rparr>)"

definition recount :: "bytes \<Rightarrow> consumer_group \<Rightarrow> consumer_group" where
  "recount name g =
     g\<lparr>consumers := om_modify name
         (\<lambda>c. c\<lparr>cn_pending := length (filter (\<lambda>p. pe_consumer (snd p) = name) (cg_pending g))\<rparr>) (consumers g)\<rparr>"

definition history_start :: "code_points \<Rightarrow> stream_id option" where
  "history_start id_spec =
     (if id_spec = str_of ''0'' \<or> id_spec = str_of ''0-0'' then Some ID_ZERO
      else case parse_explicit id_spec of Some i \<Rightarrow> Some i | None \<Rightarrow> parse_id id_spec)"

text \<open>A pending entry read again.\<close>

definition redeliver_one :: "nat \<Rightarrow> stream_entry \<Rightarrow> consumer_group \<Rightarrow> consumer_group" where
  "redeliver_one t e g =
     g\<lparr>cg_pending := om_modify (se_id e)
         (\<lambda>pe. pe\<lparr>delivery_count := wrapping_add (delivery_count pe) 1, delivery_time_ms := t\<rparr>) (cg_pending g)\<rparr>"

definition xreadgroup_opts ::
  "nat \<Rightarrow> bytes \<Rightarrow> bytes \<Rightarrow> code_points \<Rightarrow> nat option \<Rightarrow> bool \<Rightarrow> redis_stream
     \<Rightarrow> redis_stream \<times> (bytes + stream_entry list)" where
  "xreadgroup_opts t grp name id_spec cnt noack s =
     (case map_of (st_groups s) grp of
        None \<Rightarrow> (s, Inl no_group)
      | Some g \<Rightarrow>
          if id_spec = str_of ''>'' then
            let es = collect_until cnt [] (map snd (om_from (next_id (last_delivered_id g)) (st_entries s)))
            in with_group grp (\<lambda>g.
                 let g1 = g\<lparr>consumers := see_consumer t name (consumers g)\<rparr>;
                     g2 = fold (deliver_one t name noack) es g1
                 in (if noack then g2 else recount name g2, es)) s
          else
            (case history_start id_spec of
               None \<Rightarrow> (s, Inl ''ERR Invalid stream ID specified as stream command argument'')
             | Some after \<Rightarrow>
                 let ids = map fst (filter (\<lambda>p. pe_consumer (snd p) = name) (om_from (next_id after) (cg_pending g)));
                     es = collect_until cnt [] (List.map_filter (map_of (st_entries s)) ids)
                 in with_group grp (\<lambda>g.
                      let g1 = g\<lparr>consumers := see_consumer t name (consumers g)\<rparr>
                      in (fold (redeliver_one t) es g1, es)) s))"

fun ack_loop :: "stream_id list \<Rightarrow> consumer_group \<Rightarrow> consumer_group \<times> nat" where
  "ack_loop [] g = (g, 0)"
| "ack_loop (i # is) g =
     (if map_of (cg_pending g) i \<noteq> None then let (g1, n) = ack_loop is (drop_pending i g) in (g1, n + 1)
      else ack_loop is g)"

definition xack :: "bytes \<Rightarrow> stream_id list \<Rightarrow> redis_stream \<Rightarrow> redis_stream \<times> (bytes + nat)" where
  "xack grp ids s = with_group grp (ack_loop ids) s"

text \<open>Total, smallest and largest pending ID, and the owners with their numbers, by name.\<close>

definition owner_counts :: "(stream_id \<times> pending_entry) list \<Rightarrow> (bytes \<times> nat) list" where
  "owner_counts m =
     fold (\<lambda>(_, pe) acc. AList.update (pe_consumer pe)
             ((case map_of acc (pe_consumer pe) of Some n \<Rightarrow> n | None \<Rightarrow> 0) + 1) acc) m []"

definition xpending_summary ::
  "bytes \<Rightarrow> redis_stream \<Rightarrow> bytes + (nat \<times> stream_id option \<times> stream_id option \<times> (bytes \<times> nat) list)" where
  "xpending_summary grp s =
     (case map_of (st_groups s) grp of
        None \<Rightarrow> Inl no_group
      | Some g \<Rightarrow>
          (let m = cg_pending g
           in Inr (length m, if m = [] then None else Some (fst (hd m)), if m = [] then None else Some (fst (last m)),
                   sort_key fst (owner_counts m))))"

section \<open>XINFO\<close>

record xinfo_stream_reply =
  xi_length :: nat
  xi_last_generated_id :: stream_id
  xi_entries_added :: nat
  xi_max_deleted_entry_id :: stream_id
  xi_groups :: nat
  xi_first_entry :: "stream_entry option"
  xi_last_entry :: "stream_entry option"

definition xinfo_stream :: "redis_stream \<Rightarrow> xinfo_stream_reply" where
  "xinfo_stream s =
     (let es = st_entries s
      in \<lparr>xi_length = length es, xi_last_generated_id = last_generated_id s, xi_entries_added = entries_added s,
          xi_max_deleted_entry_id = max_deleted_entry_id s, xi_groups = length (st_groups s),
          xi_first_entry = (if es = [] then None else Some (snd (hd es))),
          xi_last_entry = (if es = [] then None else Some (snd (last es)))\<rparr>)"

definition group_lag :: "redis_stream \<Rightarrow> consumer_group \<Rightarrow> nat" where
  "group_lag s g = length (om_from (next_id (last_delivered_id g)) (st_entries s))"

record xinfo_group =
  xg_name :: bytes
  xg_consumers :: nat
  xg_pending :: nat
  xg_last_delivered_id :: stream_id
  xg_entries_read :: "nat option"
  xg_lag :: nat

definition xinfo_groups :: "redis_stream \<Rightarrow> xinfo_group list" where
  "xinfo_groups s =
     sort_key xg_name (map (\<lambda>(_, g).
       \<lparr>xg_name = cg_name g, xg_consumers = length (consumers g), xg_pending = length (cg_pending g),
        xg_last_delivered_id = last_delivered_id g, xg_entries_read = entries_read g, xg_lag = group_lag s g\<rparr>) (st_groups s))"

definition owned_by :: "bytes \<Rightarrow> consumer_group \<Rightarrow> pending_entry list" where
  "owned_by name g = filter (\<lambda>pe. pe_consumer pe = name) (map snd (cg_pending g))"

record xinfo_consumer =
  xc_name :: bytes
  xc_pending :: nat
  xc_idle_ms :: nat
  xc_inactive_ms :: nat

definition xinfo_consumers :: "nat \<Rightarrow> bytes \<Rightarrow> redis_stream \<Rightarrow> bytes + xinfo_consumer list" where
  "xinfo_consumers t grp s =
     (case map_of (st_groups s) grp of
        None \<Rightarrow> Inl no_group
      | Some g \<Rightarrow>
          Inr (sort_key xc_name (map (\<lambda>(_, c).
            \<lparr>xc_name = cn_name c, xc_pending = length (owned_by (cn_name c) g),
             xc_idle_ms = t - seen_time_ms c, xc_inactive_ms = t - seen_time_ms c\<rparr>) (consumers g))))"

record xinfo_full_consumer =
  fc_name :: bytes
  fc_seen_time_ms :: nat
  fc_pel_count :: nat
  fc_pending :: "pending_entry list"

record xinfo_full_group =
  fg_name :: bytes
  fg_last_delivered_id :: stream_id
  fg_entries_read :: "nat option"
  fg_lag :: nat
  fg_pel_count :: nat
  fg_pending :: "pending_entry list"
  fg_consumers :: "xinfo_full_consumer list"

definition xinfo_stream_full_groups :: "nat option \<Rightarrow> redis_stream \<Rightarrow> xinfo_full_group list" where
  "xinfo_stream_full_groups lim s =
     sort_key fg_name (map (\<lambda>(_, g).
       \<lparr>fg_name = cg_name g, fg_last_delivered_id = last_delivered_id g, fg_entries_read = entries_read g,
        fg_lag = group_lag s g, fg_pel_count = length (cg_pending g), fg_pending = cut_to lim (map snd (cg_pending g)),
        fg_consumers = sort_key fc_name (map (\<lambda>(_, c).
          \<lparr>fc_name = cn_name c, fc_seen_time_ms = seen_time_ms c, fc_pel_count = length (owned_by (cn_name c) g),
           fc_pending = cut_to lim (owned_by (cn_name c) g)\<rparr>) (consumers g))\<rparr>) (st_groups s))"

definition xinfo_stream_entries :: "nat option \<Rightarrow> redis_stream \<Rightarrow> stream_entry list" where
  "xinfo_stream_entries lim s = cut_to lim (map snd (st_entries s))"

section \<open>Snapshots\<close>

record group_snapshot =
  gs_name :: bytes
  gs_last_delivered_id :: stream_id
  gs_pending :: "pending_entry list"
  gs_consumers :: "consumer list"

record stream_snapshot =
  ss_last_generated_id :: stream_id
  ss_entries :: "(stream_id \<times> (bytes \<times> bytes) list) list"
  ss_groups :: "group_snapshot list"

definition export_entries :: "redis_stream \<Rightarrow> (stream_id \<times> (bytes \<times> bytes) list) list" where
  "export_entries s = map (\<lambda>(_, e). (se_id e, se_fields e)) (st_entries s)"

definition export_state :: "redis_stream \<Rightarrow> stream_snapshot" where
  "export_state s =
     \<lparr>ss_last_generated_id = last_generated_id s, ss_entries = export_entries s,
      ss_groups = map (\<lambda>(_, g). \<lparr>gs_name = cg_name g, gs_last_delivered_id = last_delivered_id g,
                                gs_pending = map snd (cg_pending g), gs_consumers = map snd (consumers g)\<rparr>) (st_groups s)\<rparr>"

text \<open>Importing one pending entry, with its owner, and counting one for its owner.\<close>

definition import_pending :: "pending_entry \<Rightarrow> consumer_group \<Rightarrow> consumer_group" where
  "import_pending pe g =
     g\<lparr>consumers := hm_or_insert (pe_consumer pe) (new_consumer (pe_consumer pe) (delivery_time_ms pe)) (consumers g),
       cg_pending := om_insert (pe_id pe) pe (cg_pending g)\<rparr>"

definition count_pending :: "stream_id \<times> pending_entry \<Rightarrow> consumer_group \<Rightarrow> consumer_group" where
  "count_pending p g = g\<lparr>consumers := bump_pending (pe_consumer (snd p)) (consumers g)\<rparr>"

definition import_group :: "group_snapshot \<Rightarrow> consumer_group" where
  "import_group gs =
     (let g0 = new_group (gs_name gs) (gs_last_delivered_id gs);
          g1 = g0\<lparr>consumers := fold (\<lambda>c cs. AList.update (cn_name c) c cs) (gs_consumers gs) []\<rparr>;
          g2 = fold import_pending (gs_pending gs) g1;
          g3 = g2\<lparr>consumers := map (\<lambda>(n, c). (n, c\<lparr>cn_pending := 0\<rparr>)) (consumers g2)\<rparr>
      in fold count_pending (cg_pending g3) g3)"

definition import_state :: "stream_snapshot \<Rightarrow> redis_stream" where
  "import_state ss =
     (let es = fold (\<lambda>(i, flds) m. om_insert i \<lparr>se_id = i, se_fields = flds\<rparr> m) (ss_entries ss) [];
          last = ss_last_generated_id ss
      in \<lparr>st_entries = es,
          last_generated_id = (if es \<noteq> [] \<and> fst (List.last es) > last then fst (List.last es) else last),
          entries_added = length es, max_deleted_entry_id = ID_ZERO,
          st_groups = fold (\<lambda>gs m. AList.update (gs_name gs) (import_group gs) m) (ss_groups ss) []\<rparr>)"

end
