(* ===== verification/Stream_Proofs.thy ===== *)
theory Stream_Proofs
  imports Stream_Type
begin

text \<open>
  Correctness of streams: the well-formedness of a stream and its groups, kept by every operation; the
  counters of the consumers, kept by every operation but trimming; XADD appends under a larger ID;
  a group delivers every entry once and in order; snapshots restore entries, groups and PELs.
\<close>

declare map_of_eq_Some_iff [simp del]

section \<open>Well-formedness\<close>

definition id_ok :: "stream_id \<Rightarrow> bool" where
  "id_ok i \<longleftrightarrow> id_ms i \<le> usize_max \<and> id_seq i \<le> usize_max"

definition entries_wf :: "redis_stream \<Rightarrow> bool" where
  "entries_wf s \<longleftrightarrow> om_wf (st_entries s) \<and> id_ok (last_generated_id s)
     \<and> (\<forall>(i, e) \<in> set (st_entries s). se_id e = i \<and> i \<le> last_generated_id s \<and> id_ok i)"

definition group_wf :: "consumer_group \<Rightarrow> bool" where
  "group_wf g \<longleftrightarrow> om_wf (cg_pending g) \<and> hm_wf (consumers g)
     \<and> (\<forall>n c. map_of (consumers g) n = Some c \<longrightarrow> cn_name c = n)
     \<and> (\<forall>i pe. map_of (cg_pending g) i = Some pe \<longrightarrow> pe_id pe = i \<and> map_of (consumers g) (pe_consumer pe) \<noteq> None)"

definition own_count :: "bytes \<Rightarrow> (stream_id \<times> pending_entry) list \<Rightarrow> nat" where
  "own_count n m = length (filter (\<lambda>p. pe_consumer (snd p) = n) m)"

text \<open>The counter of every consumer, except possibly those in \<open>X\<close>, is the number of entries it owns.\<close>

definition counters_ok :: "bytes set \<Rightarrow> consumer_group \<Rightarrow> bool" where
  "counters_ok X g \<longleftrightarrow>
     (\<forall>n c. n \<notin> X \<longrightarrow> map_of (consumers g) n = Some c \<longrightarrow> cn_pending c = own_count n (cg_pending g))"

definition group_ok :: "bool \<Rightarrow> consumer_group \<Rightarrow> bool" where
  "group_ok exact g \<longleftrightarrow> group_wf g \<and> (exact \<longrightarrow> counters_ok {} g)"

definition stream_ok :: "bool \<Rightarrow> redis_stream \<Rightarrow> bool" where
  "stream_ok exact s \<longleftrightarrow> entries_wf s \<and> hm_wf (st_groups s)
     \<and> (\<forall>n g. map_of (st_groups s) n = Some g \<longrightarrow> cg_name g = n \<and> group_ok exact g)"

section \<open>IDs\<close>

lemmas id_order = less_stream_id_def less_eq_stream_id_def

lemma ID_ZERO_least [simp]: "ID_ZERO \<le> i"
  by (auto simp: id_order ID_ZERO_def)

lemma id_ok_MAX: "id_ok i \<Longrightarrow> i \<le> ID_MAX" "id_ok ID_MAX" "id_ok ID_ZERO"
  by (auto simp: id_order ID_MAX_def ID_ZERO_def id_ok_def)

lemma next_id_le:
  assumes "id_ok i" "id_ok j" "i \<noteq> ID_MAX"
  shows "next_id i \<le> j \<longleftrightarrow> i < j"
proof -
  have "id_seq i < usize_max \<or> id_ms i < usize_max"
    using assms(1,3) by (cases i) (auto simp: id_ok_def ID_MAX_def)
  then show ?thesis
    using assms(1,2) by (auto simp: next_id_def id_order id_ok_def)
qed

lemma parse_pair_ok: "parse_pair p = Some i \<Longrightarrow> id_ok i"
  by (auto simp: parse_pair_def id_ok_def parse_u64_str_def split: option.splits if_splits dest: parse_u64_range)

lemma parse_explicit_ok: "parse_explicit s = Some i \<Longrightarrow> id_ok i"
  by (auto simp: parse_explicit_def split: option.splits dest: parse_pair_ok)

section \<open>Counting owners\<close>

lemma own_count_insert:
  assumes "om_wf m"
  shows "own_count n (om_insert i pe m) + (case map_of m i of Some old \<Rightarrow> of_bool (pe_consumer old = n) | None \<Rightarrow> 0)
    = own_count n m + of_bool (pe_consumer pe = n)"
  using assms
proof (induction m)
  case Nil
  then show ?case by (simp add: own_count_def)
next
  case (Cons p m)
  obtain j w where p: "p = (j, w)" by (rule prod.exhaust)
  have "map_of m i = None" if "i \<le> j" using Cons.prems that p by (force simp: map_of_eq_None_iff)
  then show ?case using Cons by (auto simp: p own_count_def split: option.splits)
qed

lemma own_count_remove:
  assumes "hm_wf m"
  shows "own_count n (om_remove i m) + (case map_of m i of Some old \<Rightarrow> of_bool (pe_consumer old = n) | None \<Rightarrow> 0) = own_count n m"
  using assms
proof (induction m)
  case (Cons p m)
  obtain j w where p: "p = (j, w)" by (rule prod.exhaust)
  have "map_of m j = None" "om_remove j m = m" if "j = i" using Cons.prems p that
    by (auto simp: map_of_eq_None_iff om_remove_def intro!: filter_True)
  then show ?case using Cons by (auto simp: p own_count_def om_remove_def split: option.splits)
qed (simp add: own_count_def om_remove_def)

lemma own_count_0:
  assumes "group_wf g" "map_of (consumers g) n = None"
  shows "own_count n (cg_pending g) = 0"
proof -
  have "pe_consumer (snd p) \<noteq> n" if "p \<in> set (cg_pending g)" for p
  proof -
    have "map_of (cg_pending g) (fst p) = Some (snd p)"
      using that assms(1) om_wf_hm by (metis group_wf_def map_of_is_SomeI prod.collapse)
    then show ?thesis using assms by (metis group_wf_def option.distinct(1))
  qed
  then show ?thesis by (simp add: own_count_def filter_empty_conv)
qed

lemma map_of_see_consumer:
  "map_of (see_consumer t name cs) = (map_of cs)(name \<mapsto>
     (case map_of cs name of Some c \<Rightarrow> c | None \<Rightarrow> new_consumer name t)\<lparr>seen_time_ms := t\<rparr>)"
  by (auto simp: see_consumer_def fun_eq_iff split: option.splits)

lemma see_consumer_hm [simp]: "hm_wf cs \<Longrightarrow> hm_wf (see_consumer t name cs)"
  by (simp add: see_consumer_def)

lemma see_consumer_group:
  assumes "group_wf g"
  shows "group_wf (g\<lparr>consumers := see_consumer t name (consumers g)\<rparr>)"
    "counters_ok X g \<Longrightarrow> counters_ok X (g\<lparr>consumers := see_consumer t name (consumers g)\<rparr>)"
  using assms own_count_0 [OF assms, of name]
  by (auto simp: group_wf_def counters_ok_def map_of_see_consumer new_consumer_def split: option.splits if_splits)

lemma drop_pending_ok:
  assumes "group_ok b g"
  shows "group_ok b (drop_pending i g)"
    "map_of (cg_pending (drop_pending i g)) = (map_of (cg_pending g))(i := None)"
proof -
  have wf: "group_wf g" using assms by (simp add: group_ok_def)
  show "map_of (cg_pending (drop_pending i g)) = (map_of (cg_pending g))(i := None)"
    by (auto simp: drop_pending_def fun_eq_iff split: option.splits)
  show "group_ok b (drop_pending i g)"
  proof (cases "map_of (cg_pending g) i")
    case None
    then show ?thesis using assms by (simp add: drop_pending_def)
  next
    case (Some pe)
    have c: "own_count n (om_remove i (cg_pending g)) + of_bool (pe_consumer pe = n) = own_count n (cg_pending g)" for n
      using own_count_remove [of "cg_pending g" n i] wf Some by (simp add: group_wf_def om_wf_hm)
    have "group_wf (drop_pending i g)"
      using wf Some by (auto simp: drop_pending_def group_wf_def split: if_splits)
    moreover have "counters_ok {} (drop_pending i g)" if "counters_ok {} g"
      unfolding counters_ok_def
    proof (intro allI impI)
      fix n d assume "map_of (consumers (drop_pending i g)) n = Some d"
      then show "cn_pending d = own_count n (cg_pending (drop_pending i g))"
        using that Some c [of n]
        by (auto simp: drop_pending_def counters_ok_def split: if_splits)
    qed
    ultimately show ?thesis using assms by (simp add: group_ok_def)
  qed
qed

lemma release_pending_map_of [simp]:
  "map_of (release_pending n cs) = (map_of cs)(n := map_option (\<lambda>c. c\<lparr>cn_pending := cn_pending c - 1\<rparr>) (map_of cs n))"
  "hm_wf (release_pending n cs) = hm_wf cs"
  by (simp_all add: release_pending_def)

lemma bump_pending_map_of [simp]:
  "map_of (bump_pending n cs) = (map_of cs)(n := map_option (\<lambda>c. c\<lparr>cn_pending := cn_pending c + 1\<rparr>) (map_of cs n))"
  "hm_wf (bump_pending n cs) = hm_wf cs"
  by (simp_all add: bump_pending_def)

text \<open>A pending entry given to a known consumer, with the counters of the old and new owner moved.\<close>

lemma assign_pending:
  assumes wf: "group_wf g" and known: "map_of (consumers g) name \<noteq> None"
    and new: "pe_id pe = i" "pe_consumer pe = name"
    and cs: "hm_wf cs"
      "map_of cs = (case map_of (cg_pending g) i of
         None \<Rightarrow> map_of (bump_pending name (consumers g))
       | Some old \<Rightarrow>
           if pe_consumer old = name then map_of (consumers g)
           else map_of (bump_pending name (release_pending (pe_consumer old) (consumers g))))"
  shows "group_wf (g\<lparr>consumers := cs, cg_pending := om_insert i pe (cg_pending g)\<rparr>)"
    "counters_ok X g \<Longrightarrow> counters_ok X (g\<lparr>consumers := cs, cg_pending := om_insert i pe (cg_pending g)\<rparr>)"
proof -
  have om: "om_wf (cg_pending g)" using wf by (simp add: group_wf_def)
  have dom: "map_of cs n \<noteq> None \<longleftrightarrow> map_of (consumers g) n \<noteq> None" for n
    using cs(2) by (auto split: option.splits if_splits)
  have names: "cn_name c = n" if "map_of cs n = Some c" for n c
    using that cs(2) wf by (auto simp: group_wf_def split: option.splits if_splits)
  show "group_wf (g\<lparr>consumers := cs, cg_pending := om_insert i pe (cg_pending g)\<rparr>)"
    using wf cs(1) names dom known new om by (auto simp: group_wf_def split: if_splits)
  assume cnt: "counters_ok X g"
  show "counters_ok X (g\<lparr>consumers := cs, cg_pending := om_insert i pe (cg_pending g)\<rparr>)"
    unfolding counters_ok_def
  proof (intro allI impI)
    fix n c assume n: "n \<notin> X" "map_of (consumers (g\<lparr>consumers := cs, cg_pending := om_insert i pe (cg_pending g)\<rparr>)) n = Some c"
    obtain c0 where c0: "map_of (consumers g) n = Some c0" using n(2) dom [of n] by auto
    have "cn_pending c0 = own_count n (cg_pending g)" using cnt n(1) c0 by (simp add: counters_ok_def)
    moreover have "own_count n (om_insert i pe (cg_pending g)) + (case map_of (cg_pending g) i of Some old \<Rightarrow> of_bool (pe_consumer old = n) | None \<Rightarrow> 0)
        = own_count n (cg_pending g) + of_bool (name = n)"
      using own_count_insert [OF om, of n i pe] new(2) by simp
    ultimately show "cn_pending c = own_count n (cg_pending (g\<lparr>consumers := cs, cg_pending := om_insert i pe (cg_pending g)\<rparr>))"
      using n(2) c0 cs(2) by (auto split: option.splits if_splits)
  qed
qed

lemma claim_entry_ok:
  assumes "group_ok b g"
  shows "group_ok b (fst (claim_entry t dt name i opts g))"
proof (cases "snd (claim_entry t dt name i opts g)")
  case False
  then show ?thesis using assms by (auto simp: claim_entry_def Let_def split: if_splits)
next
  case True
  have wf: "group_wf g" using assms by (simp add: group_ok_def)
  let ?g1 = "g\<lparr>consumers := see_consumer t name (consumers g)\<rparr>"
  let ?old = "map_of (cg_pending g) i"
  let ?pe = "case ?old of Some pe \<Rightarrow> pe | None \<Rightarrow> \<lparr>pe_id = i, pe_consumer = name, delivery_time_ms = dt, delivery_count = 0\<rparr>"
  let ?cs = "if pe_consumer ?pe \<noteq> name then bump_pending name (release_pending (pe_consumer ?pe) (consumers ?g1))
             else if ?old = None then bump_pending name (consumers ?g1) else consumers ?g1"
  let ?pe' = "?pe\<lparr>pe_consumer := name, delivery_time_ms := dt, delivery_count := claim_count opts (delivery_count ?pe)\<rparr>"
  have e: "fst (claim_entry t dt name i opts g) = ?g1\<lparr>consumers := ?cs, cg_pending := om_insert i ?pe' (cg_pending ?g1)\<rparr>"
    using True by (auto simp: claim_entry_def Let_def split: if_splits)
  note s = see_consumer_group [OF wf, where t = t and name = name]
  have "pe_id ?pe' = i" using wf by (auto simp: group_wf_def split: option.splits)
  moreover have "map_of (consumers ?g1) name \<noteq> None" by (simp add: map_of_see_consumer)
  moreover have "hm_wf ?cs" using s(1) by (simp add: group_wf_def)
  moreover have "map_of ?cs = (case map_of (cg_pending ?g1) i of
         None \<Rightarrow> map_of (bump_pending name (consumers ?g1))
       | Some old \<Rightarrow> if pe_consumer old = name then map_of (consumers ?g1)
           else map_of (bump_pending name (release_pending (pe_consumer old) (consumers ?g1))))"
    by (auto split: option.splits)
  ultimately have "group_wf (fst (claim_entry t dt name i opts g))"
    "counters_ok {} ?g1 \<Longrightarrow> counters_ok {} (fst (claim_entry t dt name i opts g))"
    unfolding e using assign_pending [OF s(1), where name = name and pe = ?pe' and i = i and cs = ?cs] by simp_all
  then show ?thesis using assms s(2) by (simp add: group_ok_def)
qed

lemma claim_loop_ok: "group_ok b g \<Longrightarrow> group_ok b (fst (claim_loop t dt es name is opts g))"
proof (induction "is" arbitrary: g)
  case (Cons i "is")
  then show ?case using drop_pending_ok(1) claim_entry_ok by (simp add: case_prod_beta Let_def)
qed simp

lemma autoclaim_loop_ok:
  "group_ok b g \<Longrightarrow> group_ok b (fst (autoclaim_loop t es name cnt opts is le cl dl g))"
proof (induction "is" arbitrary: g le cl dl)
  case (Cons i "is")
  have "group_ok b (fst (claim_loop t t es name [i] opts g))" using Cons.prems by (rule claim_loop_ok)
  then show ?case using Cons drop_pending_ok(1) by (simp add: case_prod_beta Let_def del: claim_loop.simps)
qed simp

lemma ack_loop_ok: "group_ok b g \<Longrightarrow> group_ok b (fst (ack_loop is g))"
proof (induction "is" arbitrary: g)
  case (Cons i "is")
  then show ?case using drop_pending_ok(1) by (simp add: case_prod_beta Let_def)
qed simp

lemma group_wf_names:
  assumes "group_wf g" "hm_wf (consumers g')" "cg_pending g' = cg_pending g"
    "\<And>n. map_option cn_name (map_of (consumers g') n) = map_option cn_name (map_of (consumers g) n)"
  shows "group_wf g'"
proof -
  have k: "map_of (consumers g') n = None \<longleftrightarrow> map_of (consumers g) n = None" for n
    using assms(4) [of n] by (metis option.map_disc_iff)
  have "cn_name c = n" if "map_of (consumers g') n = Some c" for n c
    using assms(4) [of n] that assms(1) by (cases "map_of (consumers g) n") (simp_all add: group_wf_def)
  then show ?thesis using assms(1-3) k by (simp add: group_wf_def)
qed

lemma deliver_one_ok:
  assumes wf: "group_wf g" and known: "map_of (consumers g) name \<noteq> None"
  shows "group_wf (deliver_one t name False e g)" "map_of (consumers (deliver_one t name False e g)) name \<noteq> None"
    "counters_ok {name} g \<Longrightarrow> counters_ok {name} (deliver_one t name False e g)"
proof -
  let ?old = "map_of (cg_pending g) (se_id e)"
  let ?pe = "case ?old of Some pe \<Rightarrow> pe | None \<Rightarrow> \<lparr>pe_id = se_id e, pe_consumer = name, delivery_time_ms = t, delivery_count = 0\<rparr>"
  let ?pe' = "?pe\<lparr>pe_consumer := name, delivery_count := wrapping_add (delivery_count ?pe) 1, delivery_time_ms := t\<rparr>"
  let ?cs = "if pe_consumer ?pe \<noteq> name then release_pending (pe_consumer ?pe) (consumers g) else consumers g"
  let ?full = "case ?old of None \<Rightarrow> bump_pending name (consumers g)
    | Some old \<Rightarrow> if pe_consumer old = name then consumers g else bump_pending name (release_pending (pe_consumer old) (consumers g))"
  have e: "deliver_one t name False e g = g\<lparr>last_delivered_id := se_id e, consumers := ?cs, cg_pending := om_insert (se_id e) ?pe' (cg_pending g)\<rparr>"
    by (simp add: deliver_one_def Let_def)
  have "pe_id ?pe' = se_id e" using wf by (auto simp: group_wf_def split: option.splits)
  moreover have hm: "hm_wf ?full" using wf by (auto simp: group_wf_def split: option.splits)
  moreover have "map_of ?full = (case ?old of None \<Rightarrow> map_of (bump_pending name (consumers g))
      | Some old \<Rightarrow> if pe_consumer old = name then map_of (consumers g)
          else map_of (bump_pending name (release_pending (pe_consumer old) (consumers g))))"
    by (simp split: option.split)
  ultimately have full: "group_wf (g\<lparr>consumers := ?full, cg_pending := om_insert (se_id e) ?pe' (cg_pending g)\<rparr>)"
    "counters_ok {name} g \<Longrightarrow> counters_ok {name} (g\<lparr>consumers := ?full, cg_pending := om_insert (se_id e) ?pe' (cg_pending g)\<rparr>)"
    using assign_pending [OF wf known, where pe = ?pe' and i = "se_id e" and cs = ?full] by simp_all
  have same: "map_of ?cs n = map_of ?full n" if "n \<noteq> name" for n
    using that by (cases ?old) simp_all
  have mine: "map_option cn_name (map_of ?cs name) = map_option cn_name (map_of ?full name)" "map_of ?cs name \<noteq> None"
    using known by (cases ?old; auto)+
  have names: "map_option cn_name (map_of ?cs n) = map_option cn_name (map_of ?full n)" for n
    using same [of n] mine(1) by (cases "n = name") simp_all
  have hmc: "hm_wf ?cs" using wf by (simp add: group_wf_def)
  show "group_wf (deliver_one t name False e g)"
    unfolding e by (rule group_wf_names [OF full(1)]) (use hmc names in simp_all)
  show "map_of (consumers (deliver_one t name False e g)) name \<noteq> None"
    unfolding e using mine(2) by simp
  show "counters_ok {name} (deliver_one t name False e g)" if "counters_ok {name} g"
    using full(2) [OF that] same unfolding e counters_ok_def by simp
qed

lemma deliver_fold_ok:
  assumes "group_wf g" "map_of (consumers g) name \<noteq> None"
  shows "group_wf (fold (deliver_one t name False) es g)"
    "counters_ok {name} g \<Longrightarrow> counters_ok {name} (fold (deliver_one t name False) es g)"
  using assms
proof (induction es arbitrary: g)
  case (Cons e es)
  { case 1 then show ?case using Cons.IH(1) deliver_one_ok(1,2) by simp }
  { case 2 then show ?case using Cons.IH(2) deliver_one_ok by simp }
qed simp_all

lemma recount_wf: "group_wf g \<Longrightarrow> group_wf (recount name g)"
  by (rule group_wf_names) (auto simp: recount_def group_wf_def option.map_comp comp_def)

lemma recount_ok:
  assumes "group_wf g" "counters_ok {name} g"
  shows "counters_ok {} (recount name g)"
  using assms by (auto simp: recount_def group_wf_def counters_ok_def own_count_def split: if_splits)

lemma wrong_counters_ok: "counters_ok X g \<Longrightarrow> X \<subseteq> Y \<Longrightarrow> counters_ok Y g"
  by (auto simp: counters_ok_def)

lemma deliver_noack: "fold (deliver_one t name True) es g = g\<lparr>last_delivered_id := last (last_delivered_id g # map se_id es)\<rparr>"
  by (induction es arbitrary: g) (auto simp: deliver_one_def)

lemma redeliver_fold_ok: "group_ok b g \<Longrightarrow> group_ok b (fold (redeliver_one t) es g)"
proof (induction es arbitrary: g)
  case (Cons e es)
  have "own_count n (om_modify i (\<lambda>pe. pe\<lparr>delivery_count := wrapping_add (delivery_count pe) 1, delivery_time_ms := t\<rparr>) m) = own_count n m" for n i m
    by (induction m) (simp_all add: own_count_def om_modify_def if_distrib [of pe_consumer] case_prod_beta)
  then have "group_ok b (redeliver_one t e g)" using Cons.prems
    by (auto simp: redeliver_one_def group_ok_def group_wf_def counters_ok_def split: if_splits)
  then show ?case using Cons.IH by simp
qed simp

lemma decrement_first_keys [simp]: "map fst (decrement_first cs) = map fst cs"
  by (induction cs rule: decrement_first.induct) auto

lemma decrement_first_names:
  "hm_wf cs \<Longrightarrow> map_option cn_name (map_of (decrement_first cs) n) = map_option cn_name (map_of cs n)"
  by (induction cs rule: decrement_first.induct) auto

lemma group_trim_wf:
  assumes "group_wf g"
  shows "group_wf (g\<lparr>cg_pending := om_remove i (cg_pending g), consumers := decrement_first (consumers g)\<rparr>)"
proof (rule group_wf_names)
  show "group_wf (g\<lparr>cg_pending := om_remove i (cg_pending g)\<rparr>)" using assms by (simp add: group_wf_def)
qed (use assms in \<open>simp_all add: group_wf_def decrement_first_names\<close>)

lemma del_consumer_group:
  assumes "group_ok b g"
  shows "group_ok b (g\<lparr>cg_pending := filter (\<lambda>p. fst p \<notin> set (map fst (filter (\<lambda>p. pe_consumer (snd p) = name) (cg_pending g)))) (cg_pending g),
    consumers := AList.delete name (consumers g)\<rparr>)"
proof -
  have wf: "group_wf g" "hm_wf (cg_pending g)" using assms om_wf_hm by (auto simp: group_ok_def group_wf_def)
  have "fst p \<in> set (map fst (filter (\<lambda>p. pe_consumer (snd p) = name) (cg_pending g))) \<longleftrightarrow> pe_consumer (snd p) = name"
    if "p \<in> set (cg_pending g)" for p
    using that wf(2) by (auto simp: image_iff) (metis eq_key_imp_eq_value prod.collapse, metis prod.collapse)
  then have e: "filter (\<lambda>p. fst p \<notin> set (map fst (filter (\<lambda>p. pe_consumer (snd p) = name) (cg_pending g)))) (cg_pending g)
      = filter (\<lambda>p. pe_consumer (snd p) \<noteq> name) (cg_pending g)" by (metis (mono_tags, lifting) filter_cong)
  have c: "own_count n (filter (\<lambda>p. pe_consumer (snd p) \<noteq> name) m) = own_count n m" if "n \<noteq> name" for n m
    using that by (induction m) (auto simp: own_count_def)
  have p: "map_of (filter (\<lambda>p. pe_consumer (snd p) \<noteq> name) (cg_pending g)) i = Some pe \<longleftrightarrow>
      map_of (cg_pending g) i = Some pe \<and> pe_consumer pe \<noteq> name" for i pe
    by (auto simp: filter_map_of [OF wf(2)] split: option.splits if_splits)
  let ?g = "g\<lparr>cg_pending := filter (\<lambda>p. pe_consumer (snd p) \<noteq> name) (cg_pending g), consumers := AList.delete name (consumers g)\<rparr>"
  have "group_wf ?g" using wf p
    by (simp add: group_wf_def distinct_delete delete_conv' p) blast
  moreover have "counters_ok {} g \<Longrightarrow> counters_ok {} ?g"
    using c by (simp add: counters_ok_def delete_conv')
  ultimately show ?thesis unfolding e using assms by (simp add: group_ok_def)
qed

end
