(* ===== verification/Stream_Properties.thy ===== *)
theory Stream_Properties
  imports Stream_Proofs
begin

text \<open>
  Properties of streams over every history of operations: what XADD appends, that the invariant of entries, groups
  and counters holds in every reachable stream, that a group delivers every entry once and in order, and that a
  snapshot restores the stream.
\<close>

section \<open>Operations on a whole stream\<close>

lemma group_names [simp]:
  "cg_name (drop_pending i g) = cg_name g"
  "cg_name (fst (claim_entry t dt name i opts g)) = cg_name g"
  "cg_name (deliver_one t name noack e g) = cg_name g"
  "cg_name (recount name g) = cg_name g" "cg_name (redeliver_one t e g) = cg_name g"
  by (simp_all add: redeliver_one_def drop_pending_def claim_entry_def deliver_one_def recount_def Let_def split: option.split)

lemma claim_loop_name [simp]: "cg_name (fst (claim_loop t dt es name is opts g)) = cg_name g"
  by (induction "is" arbitrary: g) (simp_all add: case_prod_beta Let_def)

lemma autoclaim_loop_name [simp]: "cg_name (fst (autoclaim_loop t es name cnt opts is le cl dl g)) = cg_name g"
  by (induction "is" arbitrary: g le cl dl) (simp_all add: case_prod_beta Let_def del: claim_loop.simps)

lemma ack_loop_name [simp]: "cg_name (fst (ack_loop is g)) = cg_name g"
  by (induction "is" arbitrary: g) (simp_all add: case_prod_beta Let_def)

lemma fold_name: "(\<And>e g. cg_name (f e g) = cg_name g) \<Longrightarrow> cg_name (fold f es g) = cg_name g"
  by (induction es arbitrary: g) simp_all

lemma with_group_ok:
  assumes "stream_ok b s" "\<And>g. group_ok b g \<Longrightarrow> group_ok b (fst (f g))" "\<And>g. cg_name (fst (f g)) = cg_name g"
  shows "stream_ok b (fst (with_group n f s))"
  using assms by (auto simp: with_group_def stream_ok_def entries_wf_def case_prod_beta split: option.splits if_splits)

lemma map_groups_ok:
  assumes "stream_ok b s" "\<And>g. group_ok b g \<Longrightarrow> group_ok b (f g)" "\<And>g. cg_name (f g) = cg_name g"
  shows "stream_ok b (s\<lparr>st_groups := map (\<lambda>(n, g). (n, f g)) (st_groups s)\<rparr>)"
proof -
  have k: "map fst (map (\<lambda>(n, g). (n, f g)) m) = map fst m" for m :: "(bytes \<times> consumer_group) list"
    by (induction m) auto
  have "map_of (map (\<lambda>(n, g). (n, f g)) (st_groups s)) n = map_option f (map_of (st_groups s) n)" for n
    by (simp add: map_of_map)
  then show ?thesis using assms by (auto simp: stream_ok_def entries_wf_def k simp del: map_map)
qed

lemma note_deleted_ok [simp]: "stream_ok b (note_deleted i s) = stream_ok b s"
  by (simp add: note_deleted_def stream_ok_def entries_wf_def)

lemma remove_entry_ok: "stream_ok b s \<Longrightarrow> stream_ok b (s\<lparr>st_entries := om_remove i (st_entries s)\<rparr>)"
  by (auto simp: stream_ok_def entries_wf_def om_remove_def)

lemma xdel_ok: "stream_ok b s \<Longrightarrow> stream_ok b (fst (xdel is s))"
proof (induction "is" arbitrary: s)
  case (Cons i "is")
  let ?s1 = "note_deleted i (s\<lparr>st_entries := om_remove i (st_entries s)\<rparr>)"
  have "stream_ok b ?s1" using Cons.prems remove_entry_ok by simp
  then have "stream_ok b (?s1\<lparr>st_groups := map (\<lambda>(n, g). (n, drop_pending i g)) (st_groups ?s1)\<rparr>)"
    by (rule map_groups_ok) (use drop_pending_ok(1) in simp_all)
  then show ?case using Cons by (simp add: Let_def case_prod_beta)
qed simp

lemma remove_entry_and_pel_ok:
  assumes "stream_ok False s"
  shows "stream_ok False (remove_entry_and_pel i s)"
proof -
  define s2 where "s2 = (if map_of (st_entries s) i \<noteq> None then note_deleted i (s\<lparr>st_entries := om_remove i (st_entries s)\<rparr>)
    else s\<lparr>st_entries := om_remove i (st_entries s)\<rparr>)"
  have "stream_ok False s2" using assms remove_entry_ok by (simp add: s2_def)
  then have "stream_ok False (s2\<lparr>st_groups := map (\<lambda>(n, g). (n, if map_of (cg_pending g) i \<noteq> None
                 then g\<lparr>cg_pending := om_remove i (cg_pending g), consumers := decrement_first (consumers g)\<rparr>
                 else g)) (st_groups s2)\<rparr>)"
    by (rule map_groups_ok) (use group_trim_wf in \<open>simp_all add: group_ok_def\<close>)
  then show ?thesis by (simp add: remove_entry_and_pel_def s2_def Let_def)
qed

lemma remove_all_and_pel_ok: "stream_ok False s \<Longrightarrow> stream_ok False (remove_all_and_pel is s)"
  by (induction "is" arbitrary: s) (simp_all add: remove_entry_and_pel_ok)

lemma trim_ok:
  assumes "stream_ok False s"
  shows "stream_ok False (fst (trim_maxlen_limit mx lim s))" "stream_ok False (fst (trim_minid_limit mn lim s))"
  using assms remove_all_and_pel_ok by (simp_all add: trim_maxlen_limit_def trim_minid_limit_def Let_def)

lemma xadd_id_bounds:
  assumes "id_ok (last_generated_id s)" "t \<le> usize_max" "xadd_id t spec s = Inr i"
  shows "id_ok i" "last_generated_id s \<le> i" "id_seq (last_generated_id s) < usize_max \<Longrightarrow> last_generated_id s < i"
  using assms parse_explicit_ok
  by (auto simp: xadd_id_def next_auto_id_def Let_def id_ok_def id_order saturating_add_def split: if_splits option.splits)

lemma xadd_ok:
  assumes "stream_ok b s" "t \<le> usize_max"
  shows "stream_ok b (fst (xadd t spec flds s))"
proof (cases "flds = [] \<or> (\<exists>e. xadd_id t spec s = Inl e)")
  case True
  then show ?thesis using assms by (auto simp: xadd_def)
next
  case False
  then obtain i where i: "flds \<noteq> []" "xadd_id t spec s = Inr i" by (cases "xadd_id t spec s") auto
  have "id_ok (last_generated_id s)" using assms by (simp add: stream_ok_def entries_wf_def)
  note b = xadd_id_bounds [OF this assms(2) i(2)]
  have "se_id e = j \<and> j \<le> i \<and> id_ok j"
    if "(j, e) \<in> set (om_insert i \<lparr>se_id = i, se_fields = flds\<rparr> (st_entries s))" for j e
  proof -
    have "(j, e) \<in> set (st_entries s) \<or> (j = i \<and> e = \<lparr>se_id = i, se_fields = flds\<rparr>)"
      using that om_insert_set by force
    then show ?thesis using assms(1) b by (fastforce simp: stream_ok_def entries_wf_def)
  qed
  then have "entries_wf (fst (xadd t spec flds s))" using assms(1) b i
    by (auto simp: xadd_def stream_ok_def entries_wf_def)
  then show ?thesis using assms(1) i by (simp add: stream_ok_def xadd_def)
qed

lemma xadd_with_trim_ok:
  assumes "stream_ok False s" "t \<le> usize_max"
  shows "stream_ok False (fst (xadd_with_trim t spec flds mx mn lim s))"
  using xadd_ok [OF assms, of spec flds] trim_ok
  by (auto simp: xadd_with_trim_def split: prod.split sum.split option.split)

section \<open>Snapshots\<close>

lemma fold_update_sound:
  "map_of (fold (\<lambda>x m. AList.update (k x) (f x) m) xs m0) n = Some v \<Longrightarrow>
     (\<exists>x \<in> set xs. k x = n \<and> v = f x) \<or> map_of m0 n = Some v"
proof (induction xs arbitrary: m0)
  case (Cons x xs)
  then have "(\<exists>x \<in> set xs. k x = n \<and> v = f x) \<or> map_of (AList.update (k x) (f x) m0) n = Some v" by simp
  then show ?case by (auto simp: update_conv' split: if_splits)
qed simp

lemma fold_update_fresh:
  "distinct (map k xs) \<Longrightarrow> \<forall>x \<in> set xs. k x \<notin> set (map fst m0) \<Longrightarrow>
     fold (\<lambda>x m. AList.update (k x) (f x) m) xs m0 = m0 @ map (\<lambda>x. (k x, f x)) xs"
proof (induction xs arbitrary: m0)
  case (Cons x xs)
  have "AList.update (k x) (f x) m0 = m0 @ [(k x, f x)]" using Cons.prems(2) by (induction m0) auto
  moreover have "\<forall>y \<in> set xs. k y \<notin> set (map fst (m0 @ [(k x, f x)]))" using Cons.prems by (auto simp: image_iff)
  ultimately show ?case using Cons by (simp del: set_map)
qed simp

lemma fold_update_hm: "hm_wf m0 \<Longrightarrow> hm_wf (fold (\<lambda>x m. AList.update (k x) (f x) m) xs m0)"
  by (induction xs arbitrary: m0) (simp_all add: distinct_update)

lemma fold_om_insert:
  "om_wf m \<Longrightarrow> om_wf (fold (\<lambda>(i, v) m. om_insert i (f i v) m) xs m)"
  "set (fold (\<lambda>(i, v) m. om_insert i (f i v) m) xs m) \<subseteq> (\<lambda>(i, v). (i, f i v)) ` set xs \<union> set m"
proof (induction xs arbitrary: m)
  case (Cons x xs)
  { case 1 then show ?case using Cons(1) by (cases x) simp }
  { case 2 show ?case using Cons(2) [of "om_insert (fst x) (f (fst x) (snd x)) m"]
      om_insert_set [of "fst x" "f (fst x) (snd x)" m] by (cases x) force }
qed simp_all

lemma om_wf_last: "om_wf m \<Longrightarrow> p \<in> set m \<Longrightarrow> fst p \<le> fst (last m)"
  by (induction m) (auto simp: less_imp_le)

text \<open>Registering the owners while the PEL is rebuilt, and counting afterwards.\<close>

lemma import_pending_fold:
  "group_wf g \<Longrightarrow> group_wf (fold import_pending pes g)" "cg_name (fold import_pending pes g) = cg_name g"
proof (induction pes arbitrary: g)
  case (Cons pe pes)
  { case 1
    then have "group_wf (import_pending pe g)"
      by (auto simp: import_pending_def group_wf_def new_consumer_def split: option.splits if_splits)
    then show ?case using Cons by simp }
  { case 2 show ?case using Cons(2) by (simp add: import_pending_def) }
qed simp_all

lemma count_pending_fold:
  "map_of (consumers (fold count_pending m g)) n =
     map_option (\<lambda>c. c\<lparr>cn_pending := cn_pending c + own_count n m\<rparr>) (map_of (consumers g) n)"
  "cg_pending (fold count_pending m g) = cg_pending g" "map fst (consumers (fold count_pending m g)) = map fst (consumers g)"
  "cg_name (fold count_pending m g) = cg_name g"
proof (induction m arbitrary: g)
  case Nil
  { case 1 show ?case by (simp add: own_count_def option.map_ident_strong) }
  { case 2 show ?case by simp } { case 3 show ?case by simp } { case 4 show ?case by simp }
next
  case (Cons p m)
  { case 1
    have "map_of (consumers (count_pending p g)) n = map_option (\<lambda>c. c\<lparr>cn_pending := cn_pending c + of_bool (pe_consumer (snd p) = n)\<rparr>) (map_of (consumers g) n)"
      by (cases "map_of (consumers g) n") (auto simp: count_pending_def)
    then show ?case using Cons(1) [of "count_pending p g"] by (cases "map_of (consumers g) n") (simp_all add: own_count_def) }
  { case 2 show ?case by (simp add: Cons(2)) (simp add: count_pending_def) }
  { case 3 show ?case by (simp add: Cons(3)) (simp add: count_pending_def bump_pending_def) }
  { case 4 show ?case by (simp add: Cons(4)) (simp add: count_pending_def) }
qed

lemma count_pending_rest: "fold count_pending m g = g\<lparr>consumers := consumers (fold count_pending m g)\<rparr>"
proof (induction m arbitrary: g)
  case (Cons p m)
  show ?case by (simp, subst Cons.IH) (simp add: count_pending_def)
qed simp

lemma import_group_ok: "group_ok b (import_group gs)" "cg_name (import_group gs) = gs_name gs"
proof -
  define g1 where "g1 = (new_group (gs_name gs) (gs_last_delivered_id gs))
    \<lparr>consumers := fold (\<lambda>c cs. AList.update (cn_name c) c cs) (gs_consumers gs) []\<rparr>"
  define g2 where "g2 = fold import_pending (gs_pending gs) g1"
  define g3 where "g3 = g2\<lparr>consumers := map (\<lambda>(n, c). (n, c\<lparr>cn_pending := 0\<rparr>)) (consumers g2)\<rparr>"
  have e: "import_group gs = fold count_pending (cg_pending g3) g3"
    by (simp add: import_group_def Let_def g1_def g2_def g3_def)
  have "hm_wf (consumers g1)" unfolding g1_def using fold_update_hm [of "[]" cn_name "\<lambda>c. c" "gs_consumers gs"] by simp
  moreover have "cn_name c = n" if "map_of (consumers g1) n = Some c" for n c
  proof -
    have "map_of (fold (\<lambda>c cs. AList.update (cn_name c) c cs) (gs_consumers gs) []) n = Some c"
      using that by (simp add: g1_def)
    from fold_update_sound [OF this] show ?thesis by auto
  qed
  moreover have "cg_pending g1 = []" by (simp add: g1_def new_group_def)
  ultimately have "group_wf g1" unfolding group_wf_def by (metis map_of.simps(1) om_wf_Nil option.distinct(1))
  then have "group_wf g2" unfolding g2_def by (rule import_pending_fold)
  moreover have "map fst (consumers g3) = map fst (consumers g2)" "cg_pending g3 = cg_pending g2"
    by (auto simp: g3_def)
  moreover have m3: "map_of (consumers g3) n = map_option (\<lambda>c. c\<lparr>cn_pending := 0\<rparr>) (map_of (consumers g2) n)" for n
    by (simp add: g3_def map_of_map)
  ultimately have wf3: "group_wf g3"
    by (intro group_wf_names [of g2 g3]) (simp_all add: group_wf_def option.map_comp comp_def)
  note c = count_pending_fold [of "cg_pending g3" g3]
  have "group_wf (import_group gs)" unfolding e
    using wf3 c(3) by (intro group_wf_names [OF wf3]) (simp_all add: c(1,2) group_wf_def option.map_comp comp_def)
  moreover have "counters_ok {} (import_group gs)"
    unfolding e by (auto simp: counters_ok_def c(1,2) m3)
  ultimately show "group_ok b (import_group gs)" by (simp add: group_ok_def)
  show "cg_name (import_group gs) = gs_name gs"
    unfolding e c(4) using import_pending_fold(2) [of "gs_pending gs" g1] by (simp add: g3_def g2_def g1_def new_group_def)
qed

lemma import_state_ok:
  assumes "id_ok (ss_last_generated_id ss)" "list_all (id_ok \<circ> fst) (ss_entries ss)"
  shows "stream_ok b (import_state ss)"
proof -
  define es where "es = fold (\<lambda>(i, flds) m. om_insert i \<lparr>se_id = i, se_fields = flds\<rparr> m) (ss_entries ss) []"
  have wf: "om_wf es" unfolding es_def by (rule fold_om_insert(1)) simp
  have mem: "se_id e = i \<and> id_ok i" if "(i, e) \<in> set es" for i e
    using that assms(2) fold_om_insert(2) [of "\<lambda>i flds. \<lparr>se_id = i, se_fields = flds\<rparr>" "ss_entries ss" "[]"]
    unfolding es_def by (force simp: list_all_iff)
  have top: "i \<le> fst (last es)" if "(i, e) \<in> set es" for i e using om_wf_last [OF wf that] by simp
  have "id_ok (fst (last es))" if "es \<noteq> []" using mem [of "fst (last es)" "snd (last es)"] that by simp
  then have "entries_wf (import_state ss)"
    using wf mem top assms(1)
    by (auto simp: entries_wf_def import_state_def Let_def simp flip: es_def) (meson dual_order.trans linorder_not_less less_imp_le)+
  moreover have "hm_wf (st_groups (import_state ss))"
    using fold_update_hm [of "[]" gs_name import_group "ss_groups ss"] by (simp add: import_state_def Let_def)
  moreover have "cg_name g = n \<and> group_ok b g" if "map_of (st_groups (import_state ss)) n = Some g" for n g
    using that fold_update_sound [of gs_name import_group "ss_groups ss" "[]" n g] import_group_ok
    by (auto simp: import_state_def Let_def)
  ultimately show ?thesis by (simp add: stream_ok_def)
qed

section \<open>Histories\<close>

text \<open>
  One operation of a stream. The flag says that the history has no trimming, whose bookkeeping of the counters is not
  exact. IDs and clocks are \<open>u64\<close> values.
\<close>

inductive stream_step :: "bool \<Rightarrow> redis_stream \<Rightarrow> redis_stream \<Rightarrow> bool" where
  step_xadd: "t \<le> usize_max \<Longrightarrow> stream_step b s (fst (xadd t spec flds s))"
| step_xadd_with_trim: "t \<le> usize_max \<Longrightarrow> stream_step False s (fst (xadd_with_trim t spec flds mx mn lim s))"
| step_trim_maxlen: "stream_step False s (fst (trim_maxlen_limit mx lim s))"
| step_trim_minid: "stream_step False s (fst (trim_minid_limit mnid lim s))"
| step_xdel: "stream_step b s (fst (xdel ids s))"
| step_group_create: "stream_step b s (fst (group_create grp i entries s))"
| step_group_destroy: "stream_step b s (fst (group_destroy grp s))"
| step_create_consumer: "stream_step b s (fst (group_create_consumer t grp name s))"
| step_del_consumer: "stream_step b s (fst (group_del_consumer grp name s))"
| step_group_setid: "stream_step b s (fst (group_setid grp i entries s))"
| step_xsetid: "id_ok i \<Longrightarrow> stream_step b s (fst (xsetid i added max_deleted s))"
| step_xclaim: "stream_step b s (fst (xclaim t grp name ids opts s))"
| step_xautoclaim: "stream_step b s (fst (xautoclaim t grp name min_idle start cnt justid s))"
| step_xreadgroup: "stream_step b s (fst (xreadgroup_opts t grp name spec lim noack s))"
| step_xack: "stream_step b s (fst (xack grp ids s))"
| step_import: "id_ok (ss_last_generated_id ss) \<Longrightarrow> list_all (id_ok \<circ> fst) (ss_entries ss) \<Longrightarrow> stream_step b s (import_state ss)"

inductive stream_reach :: "bool \<Rightarrow> redis_stream \<Rightarrow> bool" where
  reach_new: "stream_reach b new_stream"
| reach_step: "stream_reach b s \<Longrightarrow> stream_step b s s' \<Longrightarrow> stream_reach b s'"

lemma group_ops_ok:
  assumes "stream_ok b s"
  shows "stream_ok b (fst (group_create grp i entries s))" "stream_ok b (fst (group_destroy grp s))"
    "stream_ok b (fst (group_create_consumer t grp name s))" "stream_ok b (fst (group_del_consumer grp name s))"
    "stream_ok b (fst (group_setid grp i entries s))"
proof -
  have "group_ok b ((new_group grp i)\<lparr>entries_read := entries\<rparr>)"
    by (simp add: new_group_def group_ok_def group_wf_def counters_ok_def)
  then show "stream_ok b (fst (group_create grp i entries s))"
    using assms by (auto simp: group_create_def stream_ok_def entries_wf_def distinct_update update_conv' new_group_def split: if_splits)
  show "stream_ok b (fst (group_destroy grp s))"
    using assms by (auto simp: group_destroy_def stream_ok_def entries_wf_def distinct_delete delete_conv' split: if_splits)
  have "group_ok b (g\<lparr>consumers := AList.update name (new_consumer name t) (consumers g)\<rparr>)"
    if "group_ok b g" "map_of (consumers g) name = None" for g
    using that own_count_0 [of g name]
    by (auto simp: group_ok_def group_wf_def counters_ok_def new_consumer_def distinct_update update_conv' split: if_splits)
  then show "stream_ok b (fst (group_create_consumer t grp name s))"
    unfolding group_create_consumer_def by (intro with_group_ok [OF assms]) auto
  show "stream_ok b (fst (group_del_consumer grp name s))"
    unfolding group_del_consumer_def Let_def
    by (intro with_group_ok [OF assms]) (use del_consumer_group in \<open>auto split: if_splits\<close>)
  show "stream_ok b (fst (group_setid grp i entries s))"
    unfolding group_setid_def
    by (intro with_group_ok [OF assms]) (auto simp: group_ok_def group_wf_def counters_ok_def)
qed

lemma group_ok_last [simp]: "group_ok b (g\<lparr>last_delivered_id := i\<rparr>) = group_ok b g"
  by (simp add: group_ok_def group_wf_def counters_ok_def)

lemma see_consumer_ok: "group_ok b g \<Longrightarrow> group_ok b (g\<lparr>consumers := see_consumer t name (consumers g)\<rparr>)"
  using see_consumer_group by (simp add: group_ok_def)

lemma deliver_ok:
  fixes t name noack es
  assumes "group_ok b g"
  defines "g2 \<equiv> fold (deliver_one t name noack) es (g\<lparr>consumers := see_consumer t name (consumers g)\<rparr>)"
  shows "group_ok b (if noack then g2 else recount name g2)"
proof -
  let ?g1 = "g\<lparr>consumers := see_consumer t name (consumers g)\<rparr>"
  have wf: "group_wf g" using assms by (simp add: group_ok_def)
  note s = see_consumer_group [OF wf, where t = t and name = name]
  have known: "map_of (consumers ?g1) name \<noteq> None" by (simp add: map_of_see_consumer)
  show ?thesis
  proof (cases noack)
    case True
    then show ?thesis using see_consumer_ok [OF assms(1)] by (simp add: deliver_noack g2_def)
  next
    case False
    have "counters_ok {} (recount name g2)" if "counters_ok {} g"
      using that deliver_fold_ok [OF s(1) known] wrong_counters_ok [OF s(2)] recount_ok False by (simp add: g2_def)
    moreover have "group_wf (recount name g2)"
      using deliver_fold_ok(1) [OF s(1) known] recount_wf False by (simp add: g2_def)
    ultimately show ?thesis using assms(1) False by (simp add: group_ok_def)
  qed
qed

lemma xreadgroup_ok:
  assumes "stream_ok b s"
  shows "stream_ok b (fst (xreadgroup_opts t grp name spec lim noack s))"
proof (cases "map_of (st_groups s) grp = None \<or> (spec \<noteq> str_of ''>'' \<and> history_start spec = None)")
  case True
  then show ?thesis using assms by (cases "map_of (st_groups s) grp") (simp_all add: xreadgroup_opts_def)
next
  case False
  then obtain g where g: "map_of (st_groups s) grp = Some g" by auto
  have n: "cg_name (fold (deliver_one t name d) es g) = cg_name g" for d es g by (rule fold_name) simp
  show ?thesis
  proof (cases "spec = str_of ''>''")
    case True
    then show ?thesis unfolding xreadgroup_opts_def Let_def
      by (simp add: g) (rule with_group_ok [OF assms], use deliver_ok n in simp_all)
  next
    case F: False
    then obtain after where "history_start spec = Some after" using False by auto
    then show ?thesis using F unfolding xreadgroup_opts_def Let_def
      by (simp add: g) (rule with_group_ok [OF assms], simp_all add: redeliver_fold_ok see_consumer_ok fold_name)
  qed
qed

lemma claims_ok:
  assumes "stream_ok b s"
  shows "stream_ok b (fst (xclaim t grp name ids opts s))" "stream_ok b (fst (xack grp ids s))"
    "stream_ok b (fst (xautoclaim t grp name min_idle start cnt justid s))"
proof -
  show "stream_ok b (fst (xclaim t grp name ids opts s))" "stream_ok b (fst (xack grp ids s))"
    unfolding xclaim_def xack_def Let_def by (intro with_group_ok [OF assms]; simp add: claim_loop_ok ack_loop_ok)+
  show "stream_ok b (fst (xautoclaim t grp name min_idle start cnt justid s))"
    unfolding xautoclaim_def Let_def
    by (intro with_group_ok [OF assms]) (simp_all add: case_prod_beta autoclaim_loop_ok)
qed

lemma xsetid_ok:
  assumes "stream_ok b s" "id_ok i"
  shows "stream_ok b (fst (xsetid i added max_deleted s))"
proof -
  have "j \<le> i" if "\<not> (st_entries s \<noteq> [] \<and> i < fst (last (st_entries s)))" "(j, e) \<in> set (st_entries s)" for j e
    using that om_wf_last [of "st_entries s" "(j, e)"] assms(1) by (force simp: stream_ok_def entries_wf_def)
  then show ?thesis using assms by (auto simp: xsetid_def stream_ok_def entries_wf_def)
qed

lemma stream_reach_ok: "stream_reach b s \<Longrightarrow> stream_ok b s"
proof (induction rule: stream_reach.induct)
  case (reach_new b)
  then show ?case using id_ok_MAX(3) by (simp add: new_stream_def stream_ok_def entries_wf_def)
next
  case (reach_step b s s')
  from reach_step(2) reach_step(3) show ?case
    by (cases rule: stream_step.cases)
      (simp_all add: xadd_ok xadd_with_trim_ok trim_ok xdel_ok group_ops_ok xsetid_ok claims_ok xreadgroup_ok import_state_ok)
qed

section \<open>Delivery by a group\<close>

lemma collect_until_take:
  "collect_until (Some c) acc xs = acc @ take (max 1 (c - length acc)) xs" "collect_until None acc xs = acc @ xs"
proof (induction xs arbitrary: acc)
  case (Cons x xs)
  { case 1 show ?case
    proof (cases "c \<le> Suc (length acc)")
      case False
      then have "max 1 (c - length acc) = Suc (max 1 (c - Suc (length acc)))" by simp
      then show ?thesis using False by (simp add: Cons.IH(1) Let_def)
    qed (simp add: Let_def) }
  { case 2 show ?case by (simp add: Cons.IH(2) Let_def) }
qed simp_all

lemma last_take: "last (x # map f (take k m)) = x \<or> last (x # map f (take k m)) \<in> f ` set m"
  using last_in_set [of "map f (take k m)"] set_take_subset [of k m] by auto

lemma om_after_take:
  "om_wf m \<Longrightarrow> \<forall>p \<in> set m. l < fst p \<Longrightarrow> filter (\<lambda>p. last (l # map fst (take k m)) < fst p) m = drop k m"
proof (induction m arbitrary: k l)
  case (Cons p m)
  show ?case
  proof (cases k)
    case (Suc k')
    have "last (fst p # map fst (take k' m)) \<in> fst ` set (p # m)"
      using last_take [of "fst p" fst k' m] by auto
    then have "fst p \<le> last (fst p # map fst (take k' m))" using Cons.prems(1) by auto
    moreover have "filter (\<lambda>q. last (fst p # map fst (take k' m)) < fst q) m = drop k' m"
      using Cons.IH [of "fst p" k'] Cons.prems(1) by simp
    ultimately show ?thesis by (simp add: Suc del: last.simps) simp
  qed (use Cons.prems in simp)
qed simp

definition undelivered :: "stream_id \<Rightarrow> redis_stream \<Rightarrow> (stream_id \<times> stream_entry) list" where
  "undelivered i s = filter (\<lambda>p. i < fst p) (st_entries s)"

lemma undelivered_from:
  assumes "entries_wf s" "id_ok i" "i \<noteq> ID_MAX"
  shows "om_from (next_id i) (st_entries s) = undelivered i s"
  unfolding om_from_def undelivered_def
  using assms next_id_le by (intro filter_cong) (auto simp: entries_wf_def)

lemma undelivered_ids:
  assumes "entries_wf s"
  shows "om_wf (undelivered i s)" "map se_id (map snd (undelivered i s)) = map fst (undelivered i s)"
    "distinct (map fst (undelivered i s))"
proof -
  show wf: "om_wf (undelivered i s)" using assms by (simp add: undelivered_def entries_wf_def)
  then show "distinct (map fst (undelivered i s))" by (rule om_wf_hm)
  show "map se_id (map snd (undelivered i s)) = map fst (undelivered i s)"
    using assms by (auto simp: undelivered_def entries_wf_def)
qed

lemma undelivered_mono: "i \<le> l \<Longrightarrow> undelivered l s = filter (\<lambda>p. l < fst p) (undelivered i s)"
  unfolding undelivered_def filter_filter by (intro filter_cong refl) auto

lemma undelivered_next:
  assumes "entries_wf s"
  shows "undelivered (last (i # map fst (take k (undelivered i s)))) s = drop k (undelivered i s)"
proof -
  let ?l = "last (i # map fst (take k (undelivered i s)))"
  have "i \<le> ?l" using last_take [of i fst k "undelivered i s"] by (auto simp: undelivered_def)
  then have "undelivered ?l s = filter (\<lambda>p. ?l < fst p) (undelivered i s)"
    by (rule undelivered_mono)
  also have "\<dots> = drop k (undelivered i s)"
    by (rule om_after_take [OF undelivered_ids(1) [OF assms]]) (simp add: undelivered_def)
  finally show ?thesis .
qed

lemma deliver_owner:
  assumes "group_wf g" "map_of (consumers g) name \<noteq> None"
  shows "map_option pe_consumer (map_of (cg_pending (fold (deliver_one t name False) es g)) i) =
    (if i \<in> set (map se_id es) then Some name else map_option pe_consumer (map_of (cg_pending g) i))"
  using assms
proof (induction es arbitrary: g)
  case (Cons e es)
  have "map_option pe_consumer (map_of (cg_pending (deliver_one t name False e g)) i) =
      (if i = se_id e then Some name else map_option pe_consumer (map_of (cg_pending g) i))"
    using Cons.prems(1) by (simp add: deliver_one_def Let_def group_wf_def)
  then show ?case using Cons.IH [OF deliver_one_ok(1,2) [OF Cons.prems], of t e] by (auto split: if_splits)
qed simp

lemma deliver_last:
  "last_delivered_id (fold (deliver_one t name False) es g) = last (last_delivered_id g # map se_id es)"
  by (induction es arbitrary: g) (simp_all add: deliver_one_def Let_def)

lemma recount_fields [simp]: "cg_pending (recount name g) = cg_pending g" "last_delivered_id (recount name g) = last_delivered_id g"
  by (simp_all add: recount_def)

text \<open>One read of new entries by a consumer.\<close>

lemma read_new:
  assumes "stream_ok b s" "map_of (st_groups s) grp = Some g" "id_ok (last_delivered_id g)" "last_delivered_id g \<noteq> ID_MAX" "0 < n"
  defines "M \<equiv> undelivered (last_delivered_id g) s"
  obtains g' where
    "xreadgroup_opts t grp name (str_of ''>'') (Some n) False s =
       (s\<lparr>st_groups := om_modify grp (\<lambda>_. g') (st_groups s)\<rparr>, Inr (map snd (take n M)))"
    "last_delivered_id g' = last (last_delivered_id g # map fst (take n M))"
    "\<And>i. map_option pe_consumer (map_of (cg_pending g') i) =
       (if i \<in> set (map fst (take n M)) then Some name else map_option pe_consumer (map_of (cg_pending g) i))"
proof -
  have wf: "entries_wf s" "group_wf g" using assms(1,2) by (auto simp: stream_ok_def group_ok_def)
  let ?es = "map snd (take n M)" and ?g1 = "g\<lparr>consumers := see_consumer t name (consumers g)\<rparr>"
  have es: "collect_until (Some n) [] (map snd (om_from (next_id (last_delivered_id g)) (st_entries s))) = ?es"
    using undelivered_from [OF wf(1) assms(3,4)] assms(5) by (simp add: collect_until_take M_def take_map max_def)
  have ids: "map se_id ?es = map fst (take n M)"
    using undelivered_ids(2) [OF wf(1), of "last_delivered_id g"] unfolding M_def by (metis take_map)
  have g1: "group_wf ?g1" "map_of (consumers ?g1) name \<noteq> None"
    using see_consumer_group(1) [OF wf(2)] by (simp_all add: map_of_see_consumer)
  show ?thesis
  proof (rule that [of "recount name (fold (deliver_one t name False) ?es ?g1)"])
    show "xreadgroup_opts t grp name (str_of ''>'') (Some n) False s = (s\<lparr>st_groups := om_modify grp
        (\<lambda>_. recount name (fold (deliver_one t name False) ?es ?g1)) (st_groups s)\<rparr>, Inr ?es)"
      by (simp add: xreadgroup_opts_def assms(2) es with_group_def Let_def)
  qed (use deliver_owner [OF g1, of t ?es] in \<open>simp_all add: deliver_last ids del: set_map map_map\<close>)
qed

text \<open>What a read leaves for the next one.\<close>

lemma read_new_state:
  assumes ok: "stream_ok x s" and g: "map_of (st_groups s) grp = Some g" "id_ok (last_delivered_id g)" "last_delivered_id g \<noteq> ID_MAX"
    and top: "last_generated_id s \<noteq> ID_MAX" "0 < n"
  defines "M \<equiv> undelivered (last_delivered_id g) s"
  obtains s' g' where
    "xreadgroup_opts t grp name (str_of ''>'') (Some n) False s = (s', Inr (map snd (take n M)))"
    "stream_ok x s'" "map_of (st_groups s') grp = Some g'" "st_entries s' = st_entries s" "last_generated_id s' = last_generated_id s"
    "id_ok (last_delivered_id g')" "last_delivered_id g' \<noteq> ID_MAX" "undelivered (last_delivered_id g') s' = drop n M"
    "\<And>i. map_option pe_consumer (map_of (cg_pending g') i) =
       (if i \<in> set (map fst (take n M)) then Some name else map_option pe_consumer (map_of (cg_pending g) i))"
proof -
  have wf: "entries_wf s" using ok by (simp add: stream_ok_def)
  obtain g' where g': "xreadgroup_opts t grp name (str_of ''>'') (Some n) False s =
       (s\<lparr>st_groups := om_modify grp (\<lambda>_. g') (st_groups s)\<rparr>, Inr (map snd (take n M)))"
    "last_delivered_id g' = last (last_delivered_id g # map fst (take n M))"
    "\<And>i. map_option pe_consumer (map_of (cg_pending g') i) =
       (if i \<in> set (map fst (take n M)) then Some name else map_option pe_consumer (map_of (cg_pending g) i))"
    using read_new [OF ok g top(2)] unfolding M_def by blast
  have "set M \<subseteq> set (st_entries s)" by (auto simp: M_def undelivered_def)
  then have "last_delivered_id g' = last_delivered_id g \<or> last_delivered_id g' \<in> fst ` set (st_entries s)"
    using last_take [of "last_delivered_id g" fst n M] unfolding g'(2) by blast
  then have l: "id_ok (last_delivered_id g')" "last_delivered_id g' \<noteq> ID_MAX"
    using wf g(2,3) top(1) id_ok_MAX(1) [of "last_generated_id s"] by (auto simp: entries_wf_def)
  have "undelivered (last_delivered_id g') (s\<lparr>st_groups := om_modify grp (\<lambda>_. g') (st_groups s)\<rparr>) = drop n M"
    using undelivered_next [OF wf, of "last_delivered_id g" n] unfolding g'(2) M_def by (simp add: undelivered_def)
  moreover have "stream_ok x (s\<lparr>st_groups := om_modify grp (\<lambda>_. g') (st_groups s)\<rparr>)"
    using xreadgroup_ok [OF ok] g'(1) by (metis fst_conv)
  ultimately show ?thesis using that [OF g'(1)] l g(1) g'(3) by simp
qed

lemma ack_all:
  assumes "distinct is" "\<forall>i \<in> set is. map_of (cg_pending g) i \<noteq> None"
  shows "snd (ack_loop is g) = length is"
  using assms
proof (induction "is" arbitrary: g)
  case (Cons i "is")
  have "map_of (cg_pending (drop_pending i g)) j = map_of (cg_pending g) j" if "j \<noteq> i" for j
    using that by (simp add: drop_pending_def split: option.split)
  then have "\<forall>j \<in> set is. map_of (cg_pending (drop_pending i g)) j \<noteq> None" using Cons.prems by (metis distinct.simps(2) list.set_intros(2))
  then have "snd (ack_loop is (drop_pending i g)) = length is" using Cons by simp
  then show ?case using Cons.prems by (simp add: Let_def case_prod_beta)
qed simp

lemma xack_all:
  assumes "map_of (st_groups s) grp = Some g" "distinct is" "\<forall>i \<in> set is. map_of (cg_pending g) i \<noteq> None"
  shows "snd (xack grp is s) = Inr (length is)"
  using ack_all [OF assms(2,3)] assms(1) by (simp add: xack_def with_group_def case_prod_beta Let_def)

section \<open>The round trip of a snapshot\<close>

lemma alist_ext: "map fst m = map fst m' \<Longrightarrow> hm_wf m \<Longrightarrow> (\<And>k. map_of m k = map_of m' k) \<Longrightarrow> m = m'"
proof (induction m arbitrary: m')
  case (Cons p m)
  obtain q ms where m': "m' = q # ms" "fst q = fst p" "map fst m = map fst ms" using Cons.prems(1) by (cases m') auto
  have "map_of m k = map_of ms k" for k
  proof (cases "k = fst p")
    case True
    then have "map_of m k = None" using Cons.prems(2) by (simp add: map_of_eq_None_iff)
    moreover have "map_of ms k = None" using Cons.prems(2) True unfolding map_of_eq_None_iff by (metis m'(3) distinct.simps(2) list.simps(9) set_map)
    ultimately show ?thesis by simp
  qed (use Cons.prems(3) [of k] m' in \<open>cases p, cases q, simp\<close>)
  then have "m = ms" using Cons.IH Cons.prems(2) m'(3) by simp
  moreover have "snd p = snd q" using Cons.prems(3) [of "fst p"] m' by (cases p, cases q) simp
  ultimately show ?case using m' by (simp add: prod_eq_iff)
qed simp

lemma import_entries:
  assumes "om_wf (m0 @ m)" "\<forall>(i, e) \<in> set m. se_id e = i"
  shows "fold (\<lambda>(i, flds) m. om_insert i \<lparr>se_id = i, se_fields = flds\<rparr> m) (map (\<lambda>(_, e). (se_id e, se_fields e)) m) m0 = m0 @ m"
  using assms
proof (induction m arbitrary: m0)
  case (Cons p m)
  obtain i f where p: "p = (i, \<lparr>se_id = i, se_fields = f\<rparr>)"
    using Cons.prems(2) by (cases p, cases "snd p") auto
  have "om_insert i \<lparr>se_id = i, se_fields = f\<rparr> m0 = m0 @ [p]" unfolding p using Cons.prems(1)
    by (intro om_insert_last) (auto simp: p om_wf_def sorted_wrt_append)
  then show ?case using Cons.IH [of "m0 @ [p]"] Cons.prems by (simp add: p)
qed simp

lemma import_pending_known:
  assumes "om_wf (cg_pending g @ m)" "\<forall>(i, pe) \<in> set m. pe_id pe = i \<and> map_of (consumers g) (pe_consumer pe) \<noteq> None"
  shows "fold import_pending (map snd m) g = g\<lparr>cg_pending := cg_pending g @ m\<rparr>"
  using assms
proof (induction m arbitrary: g)
  case (Cons p m)
  obtain i pe where p: "p = (i, pe)" "pe_id pe = i" "map_of (consumers g) (pe_consumer pe) \<noteq> None"
    using Cons.prems(2) by (cases p) auto
  have "om_insert i pe (cg_pending g) = cg_pending g @ [p]" unfolding p(1) using Cons.prems(1)
    by (intro om_insert_last) (auto simp: p(1) om_wf_def sorted_wrt_append)
  then have "import_pending pe g = g\<lparr>cg_pending := cg_pending g @ [p]\<rparr>"
    using p by (auto simp: import_pending_def hm_or_insert_def)
  then show ?case using Cons.IH [of "g\<lparr>cg_pending := cg_pending g @ [p]\<rparr>"] Cons.prems by (simp add: p(1))
qed simp

lemma import_export_group:
  assumes "group_ok True g"
  shows "import_group \<lparr>gs_name = cg_name g, gs_last_delivered_id = last_delivered_id g,
    gs_pending = map snd (cg_pending g), gs_consumers = map snd (consumers g)\<rparr> = g\<lparr>entries_read := None\<rparr>"
proof -
  have wf: "group_wf g" and cnt: "counters_ok {} g" using assms by (auto simp: group_ok_def)
  have names: "cn_name c = n" if "(n, c) \<in> set (consumers g)" for n c
    using that wf by (metis group_wf_def map_of_is_SomeI)
  then have cs: "map (\<lambda>c. (cn_name c, c)) (map snd (consumers g)) = consumers g" "map cn_name (map snd (consumers g)) = map fst (consumers g)"
    by (auto intro!: map_idI)
  then have c1: "fold (\<lambda>c cs. AList.update (cn_name c) c cs) (map snd (consumers g)) [] = consumers g"
    using fold_update_fresh [of cn_name "map snd (consumers g)" "[]" "\<lambda>c. c"] wf by (simp add: group_wf_def del: map_map)
  define g1 where "g1 = \<lparr>cg_name = cg_name g, last_delivered_id = last_delivered_id g, entries_read = None, consumers = consumers g, cg_pending = []\<rparr>"
  have "fold import_pending (map snd (cg_pending g)) g1 = g1\<lparr>cg_pending := cg_pending g\<rparr>"
  proof -
    have "\<forall>(i, pe) \<in> set (cg_pending g). pe_id pe = i \<and> map_of (consumers g1) (pe_consumer pe) \<noteq> None"
      using wf om_wf_hm [of "cg_pending g"] map_of_is_SomeI [of "cg_pending g"] by (fastforce simp: g1_def group_wf_def)
    then show ?thesis using import_pending_known [of g1 "cg_pending g"] wf by (simp add: g1_def group_wf_def)
  qed
  moreover have r: "\<lparr>cg_name = cg_name g, last_delivered_id = last_delivered_id g, entries_read = None, consumers = cs, cg_pending = cg_pending g\<rparr>
      = g\<lparr>entries_read := None, consumers := cs\<rparr>" for cs by (cases g) simp
  ultimately have e: "import_group \<lparr>gs_name = cg_name g, gs_last_delivered_id = last_delivered_id g,
      gs_pending = map snd (cg_pending g), gs_consumers = map snd (consumers g)\<rparr>
    = fold count_pending (cg_pending g) (g\<lparr>entries_read := None, consumers := map (\<lambda>(n, c). (n, c\<lparr>cn_pending := 0\<rparr>)) (consumers g)\<rparr>)"
    unfolding import_group_def new_group_def Let_def by (simp add: c1 g1_def r)
  let ?g3 = "g\<lparr>entries_read := None, consumers := map (\<lambda>(n, c). (n, c\<lparr>cn_pending := 0\<rparr>)) (consumers g)\<rparr>"
  have k: "map fst (consumers ?g3) = map fst (consumers g)" by auto
  have "consumers (fold count_pending (cg_pending g) ?g3) = consumers g"
  proof (rule alist_ext)
    show "map_of (consumers (fold count_pending (cg_pending g) ?g3)) n = map_of (consumers g) n" for n
      using cnt by (cases "map_of (consumers g) n") (simp_all add: count_pending_fold(1) map_of_map counters_ok_def)
  qed (use wf k in \<open>simp_all add: count_pending_fold(3) group_wf_def del: map_map\<close>)
  then show ?thesis unfolding e using count_pending_rest [of "cg_pending g" ?g3] by simp
qed

section \<open>The properties\<close>

text \<open>
  C21. XADD with fields, on a stream whose last sequence number has not reached its limit: a success appends one entry
  with the given fields after all others, under an ID greater than every earlier one, and changes no group; a full
  range read then returns it last. An error leaves the stream as it was.
\<close>

theorem xadd_appends:
  assumes "stream_reach b s" "t \<le> usize_max" "id_seq (last_generated_id s) < usize_max"
  shows "case xadd t spec flds s of
      (s', Inl e) \<Rightarrow> s' = s
    | (s', Inr i) \<Rightarrow> last_generated_id s < i \<and> last_generated_id s' = i \<and> st_groups s' = st_groups s
        \<and> st_entries s' = st_entries s @ [(i, \<lparr>se_id = i, se_fields = flds\<rparr>)]
        \<and> xrange ID_ZERO ID_MAX None s' = Some (map snd (st_entries s) @ [\<lparr>se_id = i, se_fields = flds\<rparr>])"
proof (cases "flds = [] \<or> (\<exists>e. xadd_id t spec s = Inl e)")
  case True
  then show ?thesis by (auto simp: xadd_def)
next
  case False
  then obtain i where i: "flds \<noteq> []" "xadd_id t spec s = Inr i" by (cases "xadd_id t spec s") auto
  have wf: "entries_wf s" using stream_reach_ok [OF assms(1)] by (simp add: stream_ok_def)
  then have "id_ok (last_generated_id s)" by (simp add: entries_wf_def)
  note b = xadd_id_bounds [OF this assms(2) i(2)]
  have "\<forall>p \<in> set (st_entries s). fst p < i" using wf b(3) assms(3) by (fastforce simp: entries_wf_def)
  then have e: "om_insert i \<lparr>se_id = i, se_fields = flds\<rparr> (st_entries s) = st_entries s @ [(i, \<lparr>se_id = i, se_fields = flds\<rparr>)]"
    by (rule om_insert_last)
  have "filter (\<lambda>p. fst p \<le> ID_MAX) (st_entries s) = st_entries s" "i \<le> ID_MAX" "ID_ZERO \<le> ID_MAX"
    using wf b(1) id_ok_MAX by (auto simp: entries_wf_def intro!: filter_True)
  then show ?thesis using i b(3) assms(3) by (simp add: xadd_def e xrange_def om_range_def cut_to_def not_less)
qed

text \<open>
  C18. In every stream reached by any history of operations, imports of snapshots included: the entries are sorted by
  strictly increasing IDs, none above the last generated ID; every group is filed under its name; every pending entry
  is filed under its ID and owned by a consumer of the group; and, in histories without trimming, the counter of every
  consumer is the number of pending entries it owns.
\<close>

theorem stream_invariant:
  assumes "stream_reach b s"
  shows "sorted_wrt (<) (map fst (st_entries s))
    \<and> list_all (\<lambda>(i, e). se_id e = i \<and> i \<le> last_generated_id s) (st_entries s)
    \<and> (\<forall>n g. map_of (st_groups s) n = Some g \<longrightarrow> cg_name g = n
         \<and> (\<forall>i pe. map_of (cg_pending g) i = Some pe \<longrightarrow> pe_id pe = i \<and> map_of (consumers g) (pe_consumer pe) \<noteq> None)
         \<and> (b \<longrightarrow> (\<forall>cn c. map_of (consumers g) cn = Some c \<longrightarrow>
              cn_pending c = length (filter (\<lambda>p. pe_consumer (snd p) = cn) (cg_pending g)))))"
  using stream_reach_ok [OF assms]
  unfolding stream_ok_def entries_wf_def om_wf_def list_all_iff group_ok_def group_wf_def counters_ok_def own_count_def
  by blast

text \<open>
  C19. Delivery once and in order: two reads of new entries, by any two consumers of a group, return the next
  \<open>m + n\<close> undelivered entries without gap or repetition. After both reads every returned entry is in the PEL under the
  consumer that got it, and acknowledging all of them counts each once. The excluded case is the greatest
  possible ID, after which there is no next one.
\<close>

theorem group_delivers_once:
  assumes "stream_reach x s" "map_of (st_groups s) grp = Some g"
    and "id_ok (last_delivered_id g)" "last_delivered_id g \<noteq> ID_MAX" "last_generated_id s \<noteq> ID_MAX" "0 < m" "0 < n"
    and "xreadgroup_opts t grp a (str_of ''>'') (Some m) False s = (s1, r1)"
    and "xreadgroup_opts u grp b (str_of ''>'') (Some n) False s1 = (s2, r2)"
  shows "\<exists>es1 es2 g2. r1 = Inr es1 \<and> r2 = Inr es2
    \<and> es1 @ es2 = take (m + n) (map snd (filter (\<lambda>p. last_delivered_id g < fst p) (st_entries s)))
    \<and> st_entries s2 = st_entries s \<and> map_of (st_groups s2) grp = Some g2
    \<and> list_all (\<lambda>e. map_option pe_consumer (map_of (cg_pending g2) (se_id e)) = Some a) es1
    \<and> list_all (\<lambda>e. map_option pe_consumer (map_of (cg_pending g2) (se_id e)) = Some b) es2
    \<and> snd (xack grp (map se_id (es1 @ es2)) s2) = Inr (length es1 + length es2)"
proof -
  let ?M = "undelivered (last_delivered_id g) s"
  have ok: "stream_ok x s" using assms(1) by (rule stream_reach_ok)
  then have wf: "entries_wf s" by (simp add: stream_ok_def)
  obtain g1 where s1: "r1 = Inr (map snd (take m ?M))" "stream_ok x s1" "map_of (st_groups s1) grp = Some g1"
    "st_entries s1 = st_entries s" "last_generated_id s1 = last_generated_id s"
    "id_ok (last_delivered_id g1)" "last_delivered_id g1 \<noteq> ID_MAX" "undelivered (last_delivered_id g1) s1 = drop m ?M"
    "\<And>i. map_option pe_consumer (map_of (cg_pending g1) i) =
       (if i \<in> set (map fst (take m ?M)) then Some a else map_option pe_consumer (map_of (cg_pending g) i))"
    using read_new_state [OF ok assms(2-6), of t a] assms(8) by (metis Pair_inject)
  obtain g2 where s2: "r2 = Inr (map snd (take n (drop m ?M)))" "map_of (st_groups s2) grp = Some g2" "st_entries s2 = st_entries s1"
    "\<And>i. map_option pe_consumer (map_of (cg_pending g2) i) =
       (if i \<in> set (map fst (take n (drop m ?M))) then Some b else map_option pe_consumer (map_of (cg_pending g1) i))"
    using read_new_state [OF s1(2,3,6,7) _ assms(7), of u b] s1(5,8) assms(5,9) by (metis Pair_inject)
  note ids = undelivered_ids [OF wf, of "last_delivered_id g"]
  have es: "map se_id (map snd (take m ?M)) = map fst (take m ?M)"
    "map se_id (map snd (take n (drop m ?M))) = map fst (take n (drop m ?M))"
    using ids(2) by (metis take_map drop_map)+
  have d: "distinct (map fst (take m ?M @ take n (drop m ?M)))"
    using ids(3) by (metis distinct_take take_add take_map)
  let ?own = "\<lambda>i. map_option pe_consumer (map_of (cg_pending g2) i)"
  have a: "\<forall>i \<in> set (map fst (take m ?M)). ?own i = Some a"
  proof
    fix i assume i: "i \<in> set (map fst (take m ?M))"
    then have "i \<notin> set (map fst (take n (drop m ?M)))" using d by auto
    then show "?own i = Some a" using i s1(9) [of i] s2(4) [of i] by presburger
  qed
  have b: "\<forall>i \<in> set (map fst (take n (drop m ?M))). ?own i = Some b" using s2(4) by metis
  have "\<forall>i \<in> set (map fst (take m ?M @ take n (drop m ?M))). ?own i \<noteq> None"
    using a b by (simp only: map_append set_append) blast
  then have "snd (xack grp (map fst (take m ?M @ take n (drop m ?M))) s2) = Inr (length (take m ?M @ take n (drop m ?M)))"
    using xack_all [OF s2(2) d] by (metis length_map option.map_disc_iff)
  then have "snd (xack grp (map se_id (map snd (take m ?M) @ map snd (take n (drop m ?M)))) s2) = Inr (length (take m ?M) + length (take n (drop m ?M)))"
    unfolding map_append es by simp
  moreover have "list_all (\<lambda>e. ?own (se_id e) = Some a) (map snd (take m ?M))"
    "list_all (\<lambda>e. ?own (se_id e) = Some b) (map snd (take n (drop m ?M)))"
    using a b unfolding es [symmetric] list_all_iff set_map by blast+
  moreover have "map snd (take m ?M) @ map snd (take n (drop m ?M)) = take (m + n) (map snd ?M)"
    by (simp add: take_add take_map drop_map)
  ultimately show ?thesis using s1(1,4) s2(1-3) unfolding undelivered_def [symmetric]
    by (metis length_map)
qed

text \<open>
  C20. Restoring a snapshot of a stream, in a history without trimming, gives the stream back: every entry, the last
  generated ID, every group with its position, consumers with their counters, and PEL. Only the statistics are reset:
  the number of added entries becomes the number present, the greatest deleted ID becomes 0-0 and the groups lose
  \<open>entries_read\<close>.
\<close>

theorem stream_snapshot_roundtrip:
  assumes "stream_reach True s"
  shows "import_state (export_state s) =
    s\<lparr>entries_added := length (st_entries s), max_deleted_entry_id := ID_ZERO,
      st_groups := map (\<lambda>(n, g). (n, g\<lparr>entries_read := None\<rparr>)) (st_groups s)\<rparr>"
proof -
  have ok: "stream_ok True s" using assms by (rule stream_reach_ok)
  then have wf: "entries_wf s" "hm_wf (st_groups s)" by (auto simp: stream_ok_def)
  have es: "fold (\<lambda>(i, flds) m. om_insert i \<lparr>se_id = i, se_fields = flds\<rparr> m) (export_entries s) [] = st_entries s"
    using import_entries [of "[]" "st_entries s"] wf(1) by (auto simp: export_entries_def entries_wf_def)
  have top: "\<not> (st_entries s \<noteq> [] \<and> last_generated_id s < fst (last (st_entries s)))"
    using wf(1) last_in_set [of "st_entries s"] unfolding entries_wf_def case_prod_beta by (metis linorder_not_less)
  let ?ex = "\<lambda>g. \<lparr>gs_name = cg_name g, gs_last_delivered_id = last_delivered_id g,
    gs_pending = map snd (cg_pending g), gs_consumers = map snd (consumers g)\<rparr>"
  have g: "cg_name g = n" "import_group (?ex g) = g\<lparr>entries_read := None\<rparr>" if "(n, g) \<in> set (st_groups s)" for n g
  proof -
    have "cg_name g = n \<and> group_ok True g" using ok map_of_is_SomeI [OF wf(2) that] unfolding stream_ok_def by blast
    then show "cg_name g = n" "import_group (?ex g) = g\<lparr>entries_read := None\<rparr>" using import_export_group [of g] by blast+
  qed
  have "map gs_name (map (\<lambda>(_, g). ?ex g) (st_groups s)) = map fst (st_groups s)" using g(1) by auto
  moreover have "map (\<lambda>x. (gs_name x, import_group x)) (map (\<lambda>(_, g). ?ex g) (st_groups s))
      = map (\<lambda>(n, g). (n, g\<lparr>entries_read := None\<rparr>)) (st_groups s)" using g by auto
  ultimately have "fold (\<lambda>gs m. AList.update (gs_name gs) (import_group gs) m) (map (\<lambda>(_, g). ?ex g) (st_groups s)) []
      = map (\<lambda>(n, g). (n, g\<lparr>entries_read := None\<rparr>)) (st_groups s)"
    using fold_update_fresh [of gs_name "map (\<lambda>(_, g). ?ex g) (st_groups s)" "[]" import_group] wf(2) by (simp del: map_map)
  then have "import_state (export_state s) = \<lparr>st_entries = st_entries s, last_generated_id = last_generated_id s,
      entries_added = length (st_entries s), max_deleted_entry_id = ID_ZERO,
      st_groups = map (\<lambda>(n, g). (n, g\<lparr>entries_read := None\<rparr>)) (st_groups s)\<rparr>"
    using top by (auto simp: import_state_def export_state_def Let_def es)
  then show ?thesis by (cases s) simp
qed

section \<open>Witnesses\<close>

text \<open>A stream with two entries and a group at its start.\<close>

definition demo_stream :: redis_stream where
  "demo_stream =
     fst (xadd 5 (str_of ''*'') [(''b'', ''2'')] (fst (xadd 5 (str_of ''*'') [(''a'', ''1'')]
       (fst (group_create ''g'' ID_ZERO None new_stream)))))"

lemma demo_reach: "stream_reach b demo_stream"
  unfolding demo_stream_def by (intro reach_step [OF _ step_xadd] reach_step [OF _ step_group_create] reach_new) (simp_all add: usize_max_def)

lemma demo_value:
  "demo_stream = \<lparr>st_entries = [(StreamId 5 0, \<lparr>se_id = StreamId 5 0, se_fields = [(''a'', ''1'')]\<rparr>),
      (StreamId 5 1, \<lparr>se_id = StreamId 5 1, se_fields = [(''b'', ''2'')]\<rparr>)],
    last_generated_id = StreamId 5 1, entries_added = 2, max_deleted_entry_id = ID_ZERO,
    st_groups = [(''g'', new_group ''g'' ID_ZERO)]\<rparr>"
  by (simp add: demo_stream_def xadd_def xadd_id_def next_auto_id_def group_create_def new_stream_def new_group_def ID_ZERO_def
      less_stream_id_def saturating_add_def usize_max_def Let_def)

theorem xadd_appends_witness:
  "stream_reach True demo_stream \<and>
   st_entries (fst (xadd 9 (str_of ''*'') [(''c'', ''3'')] demo_stream)) =
     st_entries demo_stream @ [(StreamId 9 0, \<lparr>se_id = StreamId 9 0, se_fields = [(''c'', ''3'')]\<rparr>)]"
  using xadd_appends [OF demo_reach [of True], where t = 9 and spec = "str_of ''*''" and flds = "[(''c'', ''3'')]"] demo_reach
  by (simp add: demo_value usize_max_def xadd_def xadd_id_def next_auto_id_def Let_def)

theorem stream_invariant_witness:
  "stream_reach True demo_stream \<and> sorted_wrt (<) (map fst (st_entries demo_stream)) \<and> length (st_entries demo_stream) = 2"
  using conjunct1 [OF stream_invariant [OF demo_reach [of True]]] demo_reach by (simp add: demo_value)

theorem group_delivers_once_witness:
  "map_of (st_groups demo_stream) ''g'' = Some (new_group ''g'' ID_ZERO) \<and>
   (\<exists>s1 r1 s2 r2 es1 es2.
      xreadgroup_opts 10 ''g'' ''x'' (str_of ''>'') (Some 1) False demo_stream = (s1, r1) \<and>
      xreadgroup_opts 11 ''g'' ''y'' (str_of ''>'') (Some 5) False s1 = (s2, r2) \<and>
      r1 = Inr es1 \<and> r2 = Inr es2 \<and> map se_id (es1 @ es2) = [StreamId 5 0, StreamId 5 1])"
proof -
  obtain s1 r1 where 1: "xreadgroup_opts 10 ''g'' ''x'' (str_of ''>'') (Some 1) False demo_stream = (s1, r1)" by (rule prod.exhaust)
  obtain s2 r2 where 2: "xreadgroup_opts 11 ''g'' ''y'' (str_of ''>'') (Some 5) False s1 = (s2, r2)" by (rule prod.exhaust)
  have g: "map_of (st_groups demo_stream) ''g'' = Some (new_group ''g'' ID_ZERO)" by (simp add: demo_value)
  have "take (1 + 5) (map snd (filter (\<lambda>p. last_delivered_id (new_group ''g'' ID_ZERO) < fst p) (st_entries demo_stream))) = map snd (st_entries demo_stream)"
    by (simp add: demo_value ID_ZERO_def less_stream_id_def new_group_def)
  note all = this
  have h: "id_ok (last_delivered_id (new_group ''g'' ID_ZERO))" "last_delivered_id (new_group ''g'' ID_ZERO) \<noteq> ID_MAX"
    "last_generated_id demo_stream \<noteq> ID_MAX"
    by (simp_all add: new_group_def id_ok_def ID_MAX_def ID_ZERO_def usize_max_def demo_value)
  obtain es1 es2 where e: "r1 = Inr es1" "r2 = Inr es2" "es1 @ es2 = map snd (st_entries demo_stream)"
    using group_delivers_once [OF demo_reach g h zero_less_one zero_less_numeral 1 2] unfolding all by (elim exE conjE)
  then have "map se_id (es1 @ es2) = [StreamId 5 0, StreamId 5 1]" by (simp only: e(3)) (simp add: demo_value)
  then show ?thesis by (intro conjI exI) (rule g, rule 1, rule 2, rule e(1), rule e(2))
qed

theorem stream_snapshot_roundtrip_witness:
  "stream_reach True demo_stream \<and> st_entries (import_state (export_state demo_stream)) = st_entries demo_stream"
  using stream_snapshot_roundtrip [OF demo_reach] demo_reach by simp

end
