(* ===== verification/Rdb_Object.thy ===== *)
theory Rdb_Object
  imports Stream_Type Score_Key
begin

text \<open>
  The payloads of DUMP and RESTORE, \<open>src/src/rdb_object.rs\<close>: the CRC-64 of Redis, the length and string
  encodings, the packed encodings of foreign servers (LZF, listpack, ziplist, intset), and the object
  encoder and decoder.

  A \<open>Cursor\<close> is the list of the bytes not read yet. Masks and shifts of single bytes are written with
  \<open>div\<close> and \<open>mod\<close>: \<open>b & 0x3F\<close> is \<open>b mod 64\<close>, \<open>(b & 0xC0) >> 6\<close> is \<open>b div 64\<close>. Beside the one error
  text, decoding can end in the capacity overflow panic of \<open>Vec::with_capacity\<close>. The parameter
  \<open>parse_f64\<close> of the decoder is \<open>str::parse::<f64>\<close> on the bytes, used for textual scores only.
\<close>

section \<open>Checksum\<close>

unbundle bit_operations_syntax

definition POLY64REV :: "64 word" where "POLY64REV = 0x95ac9329ac4bc9b5"

definition crc_bit :: "64 word \<Rightarrow> 64 word" where
  "crc_bit crc = (if bit crc 0 then drop_bit 1 crc XOR POLY64REV else drop_bit 1 crc)"

definition crc64_table :: "nat \<Rightarrow> 64 word" where
  "crc64_table i = (crc_bit ^^ 8) (word_of_nat i)"

definition crc_byte :: "64 word \<Rightarrow> char \<Rightarrow> 64 word" where
  "crc_byte crc b = crc64_table (unat (take_bit 8 crc XOR word_of_nat (of_char b))) XOR drop_bit 8 crc"

definition redis_crc64 :: "bytes \<Rightarrow> 64 word" where
  "redis_crc64 bs = foldl crc_byte 0 bs"

section \<open>Reading\<close>

datatype rdb_error = BadPayload | VecCapacity \<comment> \<open>panic of \<open>Vec::with_capacity\<close>\<close>

type_synonym 'a rdb_read = "bytes \<Rightarrow> rdb_error + ('a \<times> bytes)"

definition rd_return :: "'a \<Rightarrow> 'a rdb_read" where
  "rd_return x s = Inr (x, s)"

definition rd_fail :: "'a rdb_read" where
  "rd_fail s = Inl BadPayload"

definition rd_bind :: "'a rdb_read \<Rightarrow> ('a \<Rightarrow> 'b rdb_read) \<Rightarrow> 'b rdb_read" where
  "rd_bind p f s = (case p s of Inl e \<Rightarrow> Inl e | Inr (x, s') \<Rightarrow> f x s')"

definition rd_u8 :: "nat rdb_read" where
  "rd_u8 s = (case s of [] \<Rightarrow> Inl BadPayload | c # r \<Rightarrow> Inr (of_char c, r))"

definition rd_raw :: "nat \<Rightarrow> bytes rdb_read" where
  "rd_raw n s = (if n > length s then Inl BadPayload else Inr (take n s, drop n s))"

text \<open>\<open>Vec::with_capacity(n)\<close> for elements of \<open>sz\<close> bytes.\<close>

definition rd_capacity :: "nat \<Rightarrow> nat \<Rightarrow> unit rdb_read" where
  "rd_capacity sz n s = (if int (sz * n) > i64_max then Inl VecCapacity else Inr ((), s))"

fun rd_many :: "nat \<Rightarrow> 'a rdb_read \<Rightarrow> 'a list rdb_read" where
  "rd_many 0 p = rd_return []"
| "rd_many (Suc n) p = rd_bind p (\<lambda>x. rd_bind (rd_many n p) (\<lambda>xs. rd_return (x # xs)))"

fun le_nat :: "bytes \<Rightarrow> nat" where
  "le_nat [] = 0"
| "le_nat (c # cs) = of_char c + 256 * le_nat cs"

definition be_nat :: "bytes \<Rightarrow> nat" where
  "be_nat bs = le_nat (rev bs)"

fun le_bytes :: "nat \<Rightarrow> nat \<Rightarrow> bytes" where
  "le_bytes 0 n = []"
| "le_bytes (Suc k) n = char_of n # le_bytes k (n div 256)"

definition be_bytes :: "nat \<Rightarrow> nat \<Rightarrow> bytes" where
  "be_bytes k n = rev (le_bytes k n)"

text \<open>The two's complement reading of \<open>k\<close> bits.\<close>

definition signed_bits :: "nat \<Rightarrow> nat \<Rightarrow> int" where
  "signed_bits k n = (if n \<ge> 2 ^ (k - 1) then int n - 2 ^ k else int n)"

definition rd_f64_le :: "f64 rdb_read" where
  "rd_f64_le = rd_bind (rd_raw 8) (\<lambda>b. rd_return (word_of_nat (le_nat b)))"

section \<open>Lengths and strings\<close>

definition encode_len_u64 :: "nat \<Rightarrow> bytes" where
  "encode_len_u64 n =
     (if n < 64 then [char_of n]
      else if n < 16384 then [char_of (n div 256 + 0x40), char_of (n mod 256)]
      else if n \<le> 4294967295 then char_of (0x80 :: nat) # be_bytes 4 n
      else char_of (0x81 :: nat) # be_bytes 8 n)"

definition decode_len :: "(nat \<times> bool) rdb_read" where
  "decode_len = rd_bind rd_u8 (\<lambda>byte.
     if byte div 64 = 0 then rd_return (byte mod 64, False)
     else if byte div 64 = 1 then rd_bind rd_u8 (\<lambda>nxt. rd_return (byte mod 64 * 256 + nxt, False))
     else if byte = 0x80 then rd_bind (rd_raw 4) (\<lambda>b. rd_return (be_nat b, False))
     else if byte = 0x81 then rd_bind (rd_raw 8) (\<lambda>b. rd_return (be_nat b, False))
     else if byte div 64 = 3 then rd_return (byte mod 64, True)
     else rd_fail)"

definition encode_raw_string :: "bytes \<Rightarrow> bytes" where
  "encode_raw_string s = encode_len_u64 (length s) @ s"

definition MAX_STRING :: nat where "MAX_STRING = 536870912"

definition lzf_copy :: "nat \<Rightarrow> nat \<Rightarrow> bytes \<Rightarrow> bytes" where
  "lzf_copy start len out = foldl (\<lambda>out k. out @ [out ! (start + k)]) out [0..<len]"

text \<open>The length of a back reference, with its optional extra byte.\<close>

definition lzf_len :: "nat \<Rightarrow> bytes \<Rightarrow> (nat \<times> bytes) option" where
  "lzf_len ctrl r =
     (if ctrl div 32 = 7 then (case r of [] \<Rightarrow> None | b # r' \<Rightarrow> Some (7 + of_char b + 2, r'))
      else Some (ctrl div 32 + 2, r))"

text \<open>The output is the filled prefix of the buffer; nothing beyond it is read.\<close>

function lzf_loop :: "nat \<Rightarrow> bytes \<Rightarrow> bytes \<Rightarrow> rdb_error + bytes" where
  "lzf_loop out_len [] out = (if length out = out_len then Inr out else Inl BadPayload)"
| "lzf_loop out_len (c # r) out =
     (let ctrl = of_char c
      in if ctrl < 32 then
           (if ctrl + 1 > length r \<or> length out + (ctrl + 1) > out_len then Inl BadPayload
            else lzf_loop out_len (drop (ctrl + 1) r) (out @ take (ctrl + 1) r))
         else
           (case lzf_len ctrl r of
              None \<Rightarrow> Inl BadPayload
            | Some (len, []) \<Rightarrow> Inl BadPayload
            | Some (len, b # r') \<Rightarrow>
                let start = int (length out) - int (ctrl mod 32 * 256 + of_char b) - 1
                in if start < 0 \<or> nat start \<ge> length out \<or> length out + len > out_len then Inl BadPayload
                   else lzf_loop out_len r' (lzf_copy (nat start) len out)))"
  by pat_completeness auto
termination
  by (relation "measure (\<lambda>(_, r, _). length r)")
    (auto simp: lzf_len_def split: if_splits list.splits)

declare lzf_loop.simps [simp del]

definition lzf_decompress :: "bytes \<Rightarrow> nat \<Rightarrow> rdb_error + bytes" where
  "lzf_decompress input out_len = lzf_loop out_len input []"

definition rd_lift :: "(rdb_error + 'a) \<Rightarrow> 'a rdb_read" where
  "rd_lift r s = (case r of Inl e \<Rightarrow> Inl e | Inr x \<Rightarrow> Inr (x, s))"

definition decode_string :: "bytes rdb_read" where
  "decode_string = rd_bind decode_len (\<lambda>(len, encoded).
     if \<not> encoded then (if len > MAX_STRING then rd_fail else rd_raw len)
     else if len = 0 then rd_bind rd_u8 (\<lambda>v. rd_return (show_int (signed_bits 8 v)))
     else if len = 1 then rd_bind (rd_raw 2) (\<lambda>b. rd_return (show_int (signed_bits 16 (le_nat b))))
     else if len = 2 then rd_bind (rd_raw 4) (\<lambda>b. rd_return (show_int (signed_bits 32 (le_nat b))))
     else if len = 3 then
       rd_bind decode_len (\<lambda>(clen, enc).
       if enc then rd_fail
       else
         rd_bind decode_len (\<lambda>(ulen, enc).
         if enc \<or> ulen > MAX_STRING \<or> clen > MAX_STRING then rd_fail
         else rd_bind (rd_raw clen) (\<lambda>b. rd_lift (lzf_decompress b ulen))))
     else rd_fail)"

definition decode_rdb_len :: "nat rdb_read" where
  "decode_rdb_len = rd_bind decode_len (\<lambda>(n, enc). if enc then rd_fail else rd_return n)"

section \<open>Packed encodings of other servers\<close>

text \<open>A listpack entry: its value and the length of encoding and data.\<close>

definition lp_string :: "nat \<Rightarrow> nat \<Rightarrow> bytes \<Rightarrow> rdb_error + (bytes \<times> nat)" where
  "lp_string hd_len len data =
     (if length data < hd_len + len then Inl BadPayload else Inr (take len (drop hd_len data), hd_len + len))"

definition lp_int :: "nat \<Rightarrow> nat \<Rightarrow> bytes \<Rightarrow> rdb_error + (bytes \<times> nat)" where
  "lp_int k bits data =
     (if length data < k then Inl BadPayload
      else Inr (show_int (signed_bits bits (le_nat (take (k - 1) (drop 1 data)))), k))"

definition byte_at :: "bytes \<Rightarrow> nat \<Rightarrow> nat" where
  "byte_at data i = of_char (data ! i)"

definition lp_decode_entry :: "bytes \<Rightarrow> rdb_error + (bytes \<times> nat)" where
  "lp_decode_entry data =
     (if data = [] then Inl BadPayload
      else
        let b0 = byte_at data 0
        in if b0 < 0x80 then Inr (show_int (int b0), 1)
           else if b0 div 64 = 2 then lp_string 1 (b0 mod 64) data
           else if b0 div 32 = 6 then
             (if length data < 2 then Inl BadPayload
              else Inr (show_int (signed_bits 13 (b0 mod 32 * 256 + byte_at data 1)), 2))
           else if b0 div 16 = 14 then
             (if length data < 2 then Inl BadPayload else lp_string 2 (b0 mod 16 * 256 + byte_at data 1) data)
           else if b0 = 0xF0 then
             (if length data < 5 then Inl BadPayload else lp_string 5 (le_nat (take 4 (drop 1 data))) data)
           else if b0 = 0xF1 then lp_int 3 16 data
           else if b0 = 0xF2 then lp_int 4 24 data
           else if b0 = 0xF3 then lp_int 5 32 data
           else if b0 = 0xF4 then lp_int 9 64 data
           else Inl BadPayload)"

definition lp_backlen_size :: "nat \<Rightarrow> nat" where
  "lp_backlen_size entry_len =
     (if entry_len \<le> 127 then 1
      else if entry_len < 2 ^ 14 then 2
      else if entry_len < 2 ^ 21 then 3
      else if entry_len < 2 ^ 28 then 4
      else 5)"

lemma lp_backlen_pos: "0 < lp_backlen_size n"
  by (simp add: lp_backlen_size_def)

function lp_loop :: "bytes \<Rightarrow> rdb_error + bytes list" where
  "lp_loop [] = Inr []"
| "lp_loop (c # r) =
     (if c = CHR 0xFF then Inr []
      else
        case lp_decode_entry (c # r) of
          Inl e \<Rightarrow> Inl e
        | Inr (v, n) \<Rightarrow>
            if n + lp_backlen_size n > length (c # r) then Inl BadPayload
            else (case lp_loop (drop (n + lp_backlen_size n) (c # r)) of Inl e \<Rightarrow> Inl e | Inr vs \<Rightarrow> Inr (v # vs)))"
  by pat_completeness auto
termination
proof (relation "measure length")
  fix c :: char and r :: bytes and p v n
  show "(drop (n + lp_backlen_size n) (c # r), c # r) \<in> measure length"
    using lp_backlen_pos [of n] by (simp add: less_Suc_eq_le)
qed simp

declare lp_loop.simps [simp del]

definition decode_listpack :: "bytes \<Rightarrow> rdb_error + bytes list" where
  "decode_listpack data =
     (if length data < 7 then Inl BadPayload
      else if le_nat (take 4 data) \<noteq> length data \<and> last data \<noteq> CHR 0xFF then Inl BadPayload
      else lp_loop (drop 6 data))"

text \<open>A ziplist entry after the length of its predecessor: the value and the rest.\<close>

definition zl_string :: "nat \<Rightarrow> nat \<Rightarrow> bytes \<Rightarrow> rdb_error + (bytes \<times> bytes)" where
  "zl_string hd_len len data =
     (if length data < hd_len + len then Inl BadPayload
      else Inr (take len (drop hd_len data), drop (hd_len + len) data))"

definition zl_int :: "nat \<Rightarrow> nat \<Rightarrow> bytes \<Rightarrow> rdb_error + (bytes \<times> bytes)" where
  "zl_int step bits data =
     (if length data < step then Inl BadPayload
      else Inr (show_int (signed_bits bits (le_nat (take (step - 1) (drop 1 data)))), drop step data))"

definition zl_entry :: "bytes \<Rightarrow> rdb_error + (bytes \<times> bytes)" where
  "zl_entry data =
     (let enc = byte_at data 0
      in if enc div 64 = 0 then zl_string 1 (enc mod 64) data
         else if enc div 64 = 1 then
           (if length data < 2 then Inl BadPayload else zl_string 2 (enc mod 64 * 256 + byte_at data 1) data)
         else if enc div 64 = 2 then
           (if length data < 5 then Inl BadPayload else zl_string 5 (be_nat (take 4 (drop 1 data))) data)
         else if enc = 0xC0 then zl_int 3 16 data
         else if enc = 0xD0 then zl_int 4 24 data
         else if enc = 0xE0 then zl_int 5 32 data
         else if enc = 0xF0 then zl_int 9 64 data
         else if enc = 0xFE then zl_int 2 8 data
         else if 0xF1 \<le> enc \<and> enc \<le> 0xFD then Inr (show_int (int (enc - 0xF1)), drop 1 data)
         else Inl BadPayload)"

lemma zl_entry_shorter: "zl_entry data = Inr (v, rest) \<Longrightarrow> length rest \<le> length data"
  by (auto simp: zl_entry_def zl_string_def zl_int_def Let_def split: if_splits)

function zl_loop :: "bytes \<Rightarrow> rdb_error + bytes list" where
  "zl_loop [] = Inr []"
| "zl_loop (c # r) =
     (if c = CHR 0xFF then Inr []
      else if c = CHR 0xFE \<and> length r < 4 then Inl BadPayload
      else
        let r' = (if c = CHR 0xFE then drop 4 r else r)
        in if r' = [] then Inl BadPayload
           else
             (case zl_entry r' of
                Inl e \<Rightarrow> Inl e
              | Inr (v, rest) \<Rightarrow> (case zl_loop rest of Inl e \<Rightarrow> Inl e | Inr vs \<Rightarrow> Inr (v # vs))))"
  by pat_completeness auto
termination
  by (relation "measure length") (auto dest: zl_entry_shorter split: if_splits)

declare zl_loop.simps [simp del]

definition decode_ziplist :: "bytes \<Rightarrow> rdb_error + bytes list" where
  "decode_ziplist data = (if length data < 11 then Inl BadPayload else zl_loop (drop 10 data))"

fun intset_loop :: "nat \<Rightarrow> nat \<Rightarrow> bytes \<Rightarrow> rdb_error + bytes list" where
  "intset_loop encoding 0 data = Inr []"
| "intset_loop encoding (Suc n) data =
     (if encoding \<notin> {2, 4, 8} \<or> length data < encoding then Inl BadPayload
      else
        case intset_loop encoding n (drop encoding data) of
          Inl e \<Rightarrow> Inl e
        | Inr vs \<Rightarrow> Inr (show_int (signed_bits (8 * encoding) (le_nat (take encoding data))) # vs))"

definition decode_intset :: "bytes \<Rightarrow> rdb_error + bytes list" where
  "decode_intset data =
     (if length data < 8 then Inl BadPayload
      else intset_loop (le_nat (take 4 data)) (le_nat (take 4 (drop 4 data))) (drop 8 data))"

section \<open>Objects\<close>

datatype rdb_object =
    RString bytes
  | RList "bytes list"
  | RSet "bytes list"
  | RHash "(bytes \<times> bytes) list"
  | RZSet "(bytes \<times> f64) list"
  | RStream stream_snapshot

definition RDB_VERSION :: nat where "RDB_VERSION = 9"

definition finish_dump :: "bytes \<Rightarrow> bytes" where
  "finish_dump body =
     (let body' = body @ le_bytes 2 RDB_VERSION
      in body' @ le_bytes 8 (unat (redis_crc64 body')))"

definition encode_string_dump :: "bytes \<Rightarrow> bytes" where
  "encode_string_dump value = finish_dump (CHR 0x00 # encode_raw_string value)"

definition encode_list_dump :: "bytes list \<Rightarrow> bytes" where
  "encode_list_dump es = finish_dump (CHR 0x01 # encode_len_u64 (length es) @ concat (map encode_raw_string es))"

definition encode_set_dump :: "bytes list \<Rightarrow> bytes" where
  "encode_set_dump ms = finish_dump (CHR 0x02 # encode_len_u64 (length ms) @ concat (map encode_raw_string ms))"

definition encode_pair :: "bytes \<times> bytes \<Rightarrow> bytes" where
  "encode_pair p = encode_raw_string (fst p) @ encode_raw_string (snd p)"

definition encode_hash_dump :: "(bytes \<times> bytes) list \<Rightarrow> bytes" where
  "encode_hash_dump flds = finish_dump (CHR 0x04 # encode_len_u64 (length flds) @ concat (map encode_pair flds))"

definition encode_scored :: "bytes \<times> f64 \<Rightarrow> bytes" where
  "encode_scored p = encode_raw_string (fst p) @ le_bytes 8 (unat (snd p))"

definition encode_zset_dump :: "(bytes \<times> f64) list \<Rightarrow> bytes" where
  "encode_zset_dump ms = finish_dump (CHR 0x05 # encode_len_u64 (length ms) @ concat (map encode_scored ms))"

definition encode_id :: "stream_id \<Rightarrow> bytes" where
  "encode_id i = encode_len_u64 (id_ms i) @ encode_len_u64 (id_seq i)"

definition encode_entry :: "stream_id \<times> (bytes \<times> bytes) list \<Rightarrow> bytes" where
  "encode_entry e = encode_id (fst e) @ encode_len_u64 (length (snd e)) @ concat (map encode_pair (snd e))"

definition encode_pending :: "pending_entry \<Rightarrow> bytes" where
  "encode_pending p =
     encode_id (pe_id p) @ encode_raw_string (pe_consumer p) @ encode_len_u64 (delivery_time_ms p)
       @ encode_len_u64 (delivery_count p)"

definition encode_consumer :: "consumer \<Rightarrow> bytes" where
  "encode_consumer c = encode_raw_string (cn_name c) @ encode_len_u64 (seen_time_ms c) @ encode_len_u64 (cn_pending c)"

definition encode_group :: "group_snapshot \<Rightarrow> bytes" where
  "encode_group g =
     encode_raw_string (gs_name g) @ encode_id (gs_last_delivered_id g)
       @ encode_len_u64 (length (gs_pending g)) @ concat (map encode_pending (gs_pending g))
       @ encode_len_u64 (length (gs_consumers g)) @ concat (map encode_consumer (gs_consumers g))"

definition encode_stream_dump :: "stream_snapshot \<Rightarrow> bytes" where
  "encode_stream_dump st =
     finish_dump (CHR 0x0F # encode_len_u64 0 @ encode_len_u64 (length (ss_entries st))
       @ encode_id (ss_last_generated_id st)
       @ encode_id (case ss_entries st of [] \<Rightarrow> ID_ZERO | e # _ \<Rightarrow> fst e)
       @ encode_len_u64 0 @ encode_len_u64 0 @ encode_len_u64 (length (ss_entries st)) @ encode_len_u64 0
       @ ''KST1''
       @ encode_len_u64 (length (ss_entries st)) @ concat (map encode_entry (ss_entries st))
       @ encode_len_u64 (length (ss_groups st)) @ concat (map encode_group (ss_groups st)))"

text \<open>\<open>size_of\<close> on a 64-bit target: \<open>Bytes\<close> 32, \<open>StreamId\<close> 16, \<open>Vec\<close> 24, \<open>u64\<close>, \<open>usize\<close> and \<open>f64\<close> 8.\<close>

definition decode_counted :: "nat \<Rightarrow> 'a rdb_read \<Rightarrow> 'a list rdb_read" where
  "decode_counted sz p = rd_bind decode_rdb_len (\<lambda>n. rd_bind (rd_capacity sz n) (\<lambda>_. rd_many n p))"

definition decode_pair :: "(bytes \<times> bytes) rdb_read" where
  "decode_pair = rd_bind decode_string (\<lambda>k. rd_bind decode_string (\<lambda>v. rd_return (k, v)))"

definition decode_scored :: "(bytes \<times> f64) rdb_read" where
  "decode_scored = rd_bind decode_string (\<lambda>m. rd_bind rd_f64_le (\<lambda>v. rd_return (m, v)))"

definition decode_text_scored :: "(bytes \<Rightarrow> f64 option) \<Rightarrow> (bytes \<times> f64) rdb_read" where
  "decode_text_scored parse_f64 =
     rd_bind decode_string (\<lambda>m. rd_bind decode_string (\<lambda>t.
       case parse_f64 t of None \<Rightarrow> rd_fail | Some v \<Rightarrow> rd_return (m, v)))"

definition decode_id :: "stream_id rdb_read" where
  "decode_id = rd_bind decode_rdb_len (\<lambda>ms. rd_bind decode_rdb_len (\<lambda>sq. rd_return (StreamId ms sq)))"

definition decode_entry :: "(stream_id \<times> (bytes \<times> bytes) list) rdb_read" where
  "decode_entry = rd_bind decode_id (\<lambda>i. rd_bind (decode_counted 64 decode_pair) (\<lambda>flds. rd_return (i, flds)))"

definition decode_pending :: "pending_entry rdb_read" where
  "decode_pending =
     rd_bind decode_id (\<lambda>i. rd_bind decode_string (\<lambda>c. rd_bind decode_rdb_len (\<lambda>t. rd_bind decode_rdb_len (\<lambda>n.
       rd_return \<lparr>pe_id = i, pe_consumer = c, delivery_time_ms = t, delivery_count = n\<rparr>))))"

definition decode_consumer :: "consumer rdb_read" where
  "decode_consumer =
     rd_bind decode_string (\<lambda>c. rd_bind decode_rdb_len (\<lambda>t. rd_bind decode_rdb_len (\<lambda>n.
       rd_return \<lparr>cn_name = c, seen_time_ms = t, cn_pending = n\<rparr>)))"

definition decode_group :: "group_snapshot rdb_read" where
  "decode_group =
     rd_bind decode_string (\<lambda>name. rd_bind decode_id (\<lambda>i.
     rd_bind (decode_counted 64 decode_pending) (\<lambda>pes. rd_bind (decode_counted 48 decode_consumer) (\<lambda>cs.
       rd_return \<lparr>gs_name = name, gs_last_delivered_id = i, gs_pending = pes, gs_consumers = cs\<rparr>))))"

text \<open>Any foreign group blob makes the decoder fail, after reading its head.\<close>

definition decode_foreign_groups :: "nat \<Rightarrow> unit rdb_read" where
  "decode_foreign_groups n =
     (if n = 0 then rd_return ()
      else
        rd_bind decode_string (\<lambda>_. rd_bind decode_rdb_len (\<lambda>_. rd_bind decode_rdb_len (\<lambda>_.
        rd_bind decode_rdb_len (\<lambda>_. rd_fail)))))"

definition decode_kst1 :: "stream_id \<Rightarrow> rdb_object rdb_read" where
  "decode_kst1 lst =
     rd_bind (rd_raw 4) (\<lambda>mark.
     if mark \<noteq> ''KST1'' then rd_fail
     else
       rd_bind (decode_counted 40 decode_entry) (\<lambda>es.
       rd_bind (decode_counted 96 decode_group) (\<lambda>gs.
       rd_return (RStream \<lparr>ss_last_generated_id = lst, ss_entries = es, ss_groups = gs\<rparr>))))"

definition decode_stream_type15 :: "rdb_object rdb_read" where
  "decode_stream_type15 =
     rd_bind decode_rdb_len (\<lambda>num_listpacks.
     if num_listpacks > 0 then rd_fail
     else
       rd_bind decode_rdb_len (\<lambda>len. rd_bind decode_id (\<lambda>lst. rd_bind decode_id (\<lambda>_.
       rd_bind decode_id (\<lambda>_. rd_bind decode_rdb_len (\<lambda>_. rd_bind decode_rdb_len (\<lambda>num_cgroups.
       rd_bind (decode_foreign_groups num_cgroups) (\<lambda>_ s.
         if s = [] then
           (if len = 0 then rd_return (RStream \<lparr>ss_last_generated_id = lst, ss_entries = [], ss_groups = []\<rparr>) s
            else rd_fail s)
         else decode_kst1 lst s))))))))"

fun pairs_of :: "bytes list \<Rightarrow> (bytes \<times> bytes) list" where
  "pairs_of (k # v # r) = (k, v) # pairs_of r"
| "pairs_of r = []"

fun parse_scores :: "(bytes \<Rightarrow> f64 option) \<Rightarrow> (bytes \<times> bytes) list \<Rightarrow> rdb_error + (bytes \<times> f64) list" where
  "parse_scores parse_f64 [] = Inr []"
| "parse_scores parse_f64 ((m, t) # r) =
     (case parse_f64 t of
        None \<Rightarrow> Inl BadPayload
      | Some v \<Rightarrow> (case parse_scores parse_f64 r of Inl e \<Rightarrow> Inl e | Inr ms \<Rightarrow> Inr ((m, v) # ms)))"

definition decode_packed_list :: "bytes \<Rightarrow> rdb_error + bytes list" where
  "decode_packed_list blob = (case decode_listpack blob of Inr vs \<Rightarrow> Inr vs | Inl _ \<Rightarrow> decode_ziplist blob)"

definition decode_quicklist_node :: "bool \<Rightarrow> bytes list rdb_read" where
  "decode_quicklist_node v2 =
     (if v2 then
        rd_bind decode_rdb_len (\<lambda>container. rd_bind decode_string (\<lambda>blob.
          if container = 1 then rd_return [blob]
          else if container = 2 then rd_lift (decode_packed_list blob)
          else rd_fail))
      else rd_bind decode_string (\<lambda>blob. rd_lift (decode_packed_list blob)))"

definition decode_packed_pairs :: "bool \<Rightarrow> (bytes \<times> bytes) list rdb_read" where
  "decode_packed_pairs listpack =
     rd_bind decode_string (\<lambda>blob. rd_bind (rd_lift (if listpack then decode_listpack blob else decode_ziplist blob)) (\<lambda>es.
       if odd (length es) then rd_fail else rd_return (pairs_of es)))"

definition decode_object_of_type :: "(bytes \<Rightarrow> f64 option) \<Rightarrow> nat \<Rightarrow> rdb_object rdb_read" where
  "decode_object_of_type parse_f64 ty =
     (if ty = 0 then rd_bind decode_string (\<lambda>v. rd_return (RString v))
      else if ty = 1 then rd_bind (decode_counted 32 decode_string) (\<lambda>es. rd_return (RList es))
      else if ty = 2 then rd_bind (decode_counted 32 decode_string) (\<lambda>ms. rd_return (RSet ms))
      else if ty = 3 then rd_bind (decode_counted 40 (decode_text_scored parse_f64)) (\<lambda>ms. rd_return (RZSet ms))
      else if ty = 5 then rd_bind (decode_counted 40 decode_scored) (\<lambda>ms. rd_return (RZSet ms))
      else if ty = 4 then rd_bind (decode_counted 64 decode_pair) (\<lambda>flds. rd_return (RHash flds))
      else if ty = 16 \<or> ty = 13 then rd_bind (decode_packed_pairs (ty = 16)) (\<lambda>flds. rd_return (RHash flds))
      else if ty = 17 \<or> ty = 12 then
        rd_bind (decode_packed_pairs (ty = 17)) (\<lambda>ps. rd_bind (rd_lift (parse_scores parse_f64 ps)) (\<lambda>ms. rd_return (RZSet ms)))
      else if ty = 20 then rd_bind decode_string (\<lambda>b. rd_bind (rd_lift (decode_listpack b)) (\<lambda>ms. rd_return (RSet ms)))
      else if ty = 10 then rd_bind decode_string (\<lambda>b. rd_bind (rd_lift (decode_ziplist b)) (\<lambda>es. rd_return (RList es)))
      else if ty = 14 \<or> ty = 18 then
        rd_bind decode_rdb_len (\<lambda>n. rd_bind (rd_many n (decode_quicklist_node (ty = 18))) (\<lambda>nodes. rd_return (RList (concat nodes))))
      else if ty = 11 then rd_bind decode_string (\<lambda>b. rd_bind (rd_lift (decode_intset b)) (\<lambda>ms. rd_return (RSet ms)))
      else if ty = 15 then decode_stream_type15
      else rd_fail)"

definition decode_rdb_object :: "(bytes \<Rightarrow> f64 option) \<Rightarrow> bytes \<Rightarrow> rdb_error + rdb_object" where
  "decode_rdb_object parse_f64 data =
     (case rd_bind rd_u8 (decode_object_of_type parse_f64) data of
        Inl e \<Rightarrow> Inl e
      | Inr (obj, rest) \<Rightarrow> if rest \<noteq> [] then Inl BadPayload else Inr obj)"

definition decode_redis_dump :: "(bytes \<Rightarrow> f64 option) \<Rightarrow> bytes \<Rightarrow> rdb_error + rdb_object" where
  "decode_redis_dump parse_f64 data =
     (if length data < 11 then Inl BadPayload
      else
        let body = take (length data - 8) data;
            crc_stored = word_of_nat (le_nat (drop (length data - 8) data))
        in if redis_crc64 body \<noteq> crc_stored then Inl BadPayload
           else if length body < 3 then Inl BadPayload
           else decode_rdb_object parse_f64 (take (length body - 2) body))"

end
