(* ===== verification/Rdb_Properties.thy ===== *)
theory Rdb_Properties
  imports Rdb_Object
begin

text \<open>
  Properties of DUMP and RESTORE payloads: the table-driven checksum is the bitwise one, it detects every change
  of a single byte, and decoding an encoded object returns the object.
\<close>

section \<open>The checksum\<close>

lemma crc_bit_xor: "crc_bit (x XOR y) = crc_bit x XOR crc_bit y"
  by (auto simp: crc_bit_def bit_xor_iff drop_bit_xor ac_simps)

lemma crc_bits_xor: "(crc_bit ^^ k) (x XOR y) = (crc_bit ^^ k) x XOR (crc_bit ^^ k) y"
  by (induction k) (simp_all add: crc_bit_xor)

lemma crc_bits_clear: "(\<And>i. i < k \<Longrightarrow> \<not> bit x i) \<Longrightarrow> (crc_bit ^^ k) x = drop_bit k x"
proof (induction k)
  case (Suc k)
  then have "(crc_bit ^^ Suc k) x = crc_bit (drop_bit k x)" "\<not> bit x k" by simp_all
  moreover have "crc_bit (drop_bit k x) = drop_bit (Suc k) x" if "\<not> bit x k"
    using that by (simp add: crc_bit_def bit_drop_bit_eq drop_bit_drop_bit)
  ultimately show ?case by simp
qed simp

lemma xor_cancel: "a XOR b = a XOR c \<Longrightarrow> b = c" "b XOR a = c XOR a \<Longrightarrow> b = c" for a b c :: "64 word"
proof -
  have "b = c" if "a XOR b = a XOR c"
  proof -
    have "a XOR (a XOR b) = a XOR (a XOR c)" using that by simp
    then show ?thesis by (simp add: xor.assoc [symmetric])
  qed
  then show "a XOR b = a XOR c \<Longrightarrow> b = c" "b XOR a = c XOR a \<Longrightarrow> b = c" by (simp_all add: xor.commute)
qed

text \<open>One table step is eight bit steps on the register with the byte added.\<close>

lemma crc_byte_bits: "crc_byte crc b = (crc_bit ^^ 8) (crc XOR word_of_nat (of_char b))"
proof -
  let ?b = "word_of_nat (of_char b) :: 64 word" and ?hi = "push_bit 8 (drop_bit 8 crc)"
  have "crc = take_bit 8 crc XOR ?hi"
    by (rule bit_word_eqI) (auto simp: bit_simps dest: bit_imp_le_length)
  then have "crc XOR ?b = (take_bit 8 crc XOR ?hi) XOR ?b" by (rule arg_cong)
  also have "\<dots> = (take_bit 8 crc XOR ?b) XOR ?hi" by (simp only: ac_simps)
  finally have c: "crc XOR ?b = (take_bit 8 crc XOR ?b) XOR ?hi" .
  have "(crc_bit ^^ 8) ?hi = drop_bit 8 ?hi" by (rule crc_bits_clear) (simp add: bit_simps)
  moreover have "drop_bit 8 ?hi = drop_bit 8 crc"
    by (rule bit_word_eqI) (auto simp: bit_simps dest: bit_imp_le_length)
  moreover have "(crc_bit ^^ 8) (take_bit 8 crc XOR ?b) = crc64_table (unat (take_bit 8 crc XOR ?b))"
    unfolding crc64_table_def by simp
  ultimately show ?thesis unfolding c crc_bits_xor crc_byte_def by (simp only:)
qed

lemma crc_bit_inj: "inj crc_bit"
proof (rule injI)
  fix x y assume e: "crc_bit x = crc_bit y"
  have top: "bit (crc_bit z) 63 = bit z 0" for z
    by (auto simp: crc_bit_def POLY64REV_def bit_xor_iff bit_drop_bit_eq dest: bit_imp_le_length)
  then have b: "bit x 0 = bit y 0" using e by metis
  then have d: "drop_bit 1 x = drop_bit 1 y"
    using e xor_cancel(2) [of "drop_bit 1 x" POLY64REV "drop_bit 1 y"] unfolding crc_bit_def by presburger
  have "bit x (Suc n) = bit y (Suc n)" for n
    using d bit_drop_bit_eq [of 1 x] bit_drop_bit_eq [of 1 y] by (simp add: fun_eq_iff)
  then show "x = y" using b by (intro bit_word_eqI) (metis not0_implies_Suc)
qed

lemma char_word_inj: "(word_of_nat (of_char a) :: 64 word) = word_of_nat (of_char b) \<Longrightarrow> a = b"
proof -
  assume "(word_of_nat (of_char a) :: 64 word) = word_of_nat (of_char b)"
  moreover have "(of_char a :: nat) < 256" "(of_char b :: nat) < 256" by simp_all
  ultimately have "(of_char a :: nat) = of_char b"
    by (simp add: word_of_nat_eq_iff take_bit_nat_eq_self)
  then show ?thesis by simp
qed

lemma crc_byte_inj:
  "crc_byte x b = crc_byte y b \<Longrightarrow> x = y" "crc_byte x a = crc_byte x b \<Longrightarrow> a = b"
proof -
  have i: "(crc_bit ^^ 8) u = (crc_bit ^^ 8) v \<Longrightarrow> u = v" for u v using inj_fn [OF crc_bit_inj, of 8] by (rule injD)
  show "crc_byte x b = crc_byte y b \<Longrightarrow> x = y"
    unfolding crc_byte_bits by (drule i) (rule xor_cancel(2))
  show "crc_byte x a = crc_byte x b \<Longrightarrow> a = b"
    unfolding crc_byte_bits by (drule i, drule xor_cancel(1)) (rule char_word_inj)
qed

lemma crc_foldl_inj: "foldl crc_byte x bs = foldl crc_byte y bs \<Longrightarrow> x = y"
  by (induction bs arbitrary: x y) (auto dest: crc_byte_inj(1))

lemma crc_detects:
  assumes "i < length bs" "c \<noteq> bs ! i"
  shows "redis_crc64 (bs[i := c]) \<noteq> redis_crc64 bs"
proof
  have bs: "bs = take i bs @ bs ! i # drop (Suc i) bs" using assms(1) by (rule id_take_nth_drop)
  have bs': "bs[i := c] = take i bs @ c # drop (Suc i) bs" using assms(1) by (rule upd_conv_take_nth_drop)
  let ?x = "foldl crc_byte 0 (take i bs)"
  assume "redis_crc64 (bs[i := c]) = redis_crc64 bs"
  then have "foldl crc_byte (crc_byte ?x c) (drop (Suc i) bs) = foldl crc_byte (crc_byte ?x (bs ! i)) (drop (Suc i) bs)"
    unfolding redis_crc64_def bs' by (subst (asm) (2) bs) simp
  then have "crc_byte ?x c = crc_byte ?x (bs ! i)" by (rule crc_foldl_inj)
  then show False using assms(2) crc_byte_inj(2) by blast
qed

section \<open>Numbers as bytes\<close>

lemma le_nat_bound: "le_nat bs < 256 ^ length bs"
proof (induction bs)
  case (Cons c bs)
  have c: "(of_char c :: nat) < 256" by simp
  have "x + 256 * y < 256 * z" if "x < 256" "y < z" for x y z :: nat using that by linarith
  from this [OF c Cons.IH] show ?case by (simp only: le_nat.simps length_Cons power_Suc)
qed simp

lemma le_nat_inj: "length xs = length ys \<Longrightarrow> le_nat xs = le_nat ys \<Longrightarrow> xs = ys"
proof (induction xs ys rule: list_induct2)
  case (Cons x xs y ys)
  have b: "(of_char x :: nat) < 256" "(of_char y :: nat) < 256" by simp_all
  have e: "of_char x + 256 * le_nat xs = of_char y + 256 * le_nat ys" using Cons.prems by simp
  have "(of_char x + 256 * le_nat xs) mod 256 = (of_char y + 256 * le_nat ys) mod 256" by (simp only: e)
  then have c: "(of_char x :: nat) = of_char y" using b by simp
  then have "le_nat xs = le_nat ys" using e by simp
  with c show ?case using Cons.IH by simp
qed simp

lemma le_bytes_length [simp]: "length (le_bytes k n) = k" "length (be_bytes k n) = k"
  by (induction k arbitrary: n) (simp_all add: be_bytes_def)

lemma le_nat_le_bytes [simp]: "n < 256 ^ k \<Longrightarrow> le_nat (le_bytes k n) = n" "n < 256 ^ k \<Longrightarrow> be_nat (be_bytes k n) = n"
proof -
  show a: "n < 256 ^ k \<Longrightarrow> le_nat (le_bytes k n) = n"
  proof (induction k arbitrary: n)
    case (Suc k)
    then have "n div 256 < 256 ^ k" by (simp add: less_mult_imp_div_less mult.commute)
    then show ?case using Suc.IH by (simp add: of_char_of)
  qed simp
  then show "n < 256 ^ k \<Longrightarrow> be_nat (be_bytes k n) = n" by (simp add: be_nat_def be_bytes_def)
qed

section \<open>Decoding what was encoded\<close>

text \<open>A reader that gives back what a writer wrote, whatever follows.\<close>

definition reads :: "'a rdb_read \<Rightarrow> 'a \<Rightarrow> bytes \<Rightarrow> bool" where
  "reads p x bs \<longleftrightarrow> (\<forall>r. p (bs @ r) = Inr (x, r))"

lemma reads_return: "reads (rd_return x) x []"
  by (simp add: reads_def rd_return_def)

lemma reads_bind: "reads p x bs \<Longrightarrow> reads (f x) y bs' \<Longrightarrow> reads (rd_bind p f) y (bs @ bs')"
  by (simp add: reads_def rd_bind_def)

lemma reads_bind_return: "reads p x bs \<Longrightarrow> reads (rd_bind p (\<lambda>x. rd_return (f x))) (f x) bs"
  using reads_bind [where bs' = "[]", OF _ reads_return] by force

lemma reads_raw: "reads (rd_raw (length bs)) bs bs"
  by (simp add: reads_def rd_raw_def)

lemma reads_u8: "reads rd_u8 (of_char c) [c]"
  by (simp add: reads_def rd_u8_def)

lemma reads_many:
  assumes "list_all (\<lambda>x. reads p x (e x)) xs"
  shows "reads (rd_many (length xs) p) xs (concat (map e xs))"
  using assms
proof (induction xs)
  case (Cons x xs)
  then have "reads (rd_bind p (\<lambda>x. rd_bind (rd_many (length xs) p) (\<lambda>xs. rd_return (x # xs)))) (x # xs) (e x @ concat (map e xs))"
    by (intro reads_bind [where x = x] reads_bind_return) simp_all
  then show ?case by simp
qed (simp add: reads_return)

lemma decode_len_Cons:
  assumes "b < 256"
  shows "decode_len (char_of b # r) =
    (if b div 64 = 0 then Inr ((b mod 64, False), r)
     else if b div 64 = 1 then (case r of [] \<Rightarrow> Inl BadPayload | x # r' \<Rightarrow> Inr ((b mod 64 * 256 + of_char x, False), r'))
     else if b = 128 then rd_bind (rd_raw 4) (\<lambda>bs. rd_return (be_nat bs, False)) r
     else if b = 129 then rd_bind (rd_raw 8) (\<lambda>bs. rd_return (be_nat bs, False)) r
     else if b div 64 = 3 then Inr ((b mod 64, True), r)
     else Inl BadPayload)"
proof -
  have "(of_char (char_of b) :: nat) = b" using assms by (simp add: of_char_of)
  then have "rd_u8 (char_of b # r) = Inr (b, r)" by (simp only: rd_u8_def list.case)
  then show ?thesis
    by (simp add: decode_len_def rd_bind_def rd_return_def rd_fail_def) (simp add: rd_u8_def rd_return_def split: list.split)
qed

lemma decode_len_wide:
  "decode_len (char_of (128 :: nat) # r) = rd_bind (rd_raw 4) (\<lambda>bs. rd_return (be_nat bs, False)) r"
  "decode_len (char_of (129 :: nat) # r) = rd_bind (rd_raw 8) (\<lambda>bs. rd_return (be_nat bs, False)) r"
  using decode_len_Cons [of 128 r] decode_len_Cons [of 129 r] by simp_all

lemma reads_len:
  assumes "n \<le> usize_max"
  shows "reads decode_len (n, False) (encode_len_u64 n)"
proof -
  consider "n < 64" | "64 \<le> n" "n < 16384" | "16384 \<le> n" "n \<le> 4294967295" | "4294967295 < n" by linarith
  then show ?thesis
  proof cases
    case 1
    then show ?thesis by (simp add: reads_def encode_len_u64_def decode_len_Cons)
  next
    case 2
    then have q: "n div 256 < 64" by (simp add: less_mult_imp_div_less)
    then have d: "n div 256 + 64 < 256" "(n div 256 + 64) div 64 = 1" "(n div 256 + 64) mod 64 = n div 256" by simp_all
    have "(of_char (char_of (n mod 256)) :: nat) = n mod 256" by (simp add: of_char_of)
    then have "decode_len (char_of (n div 256 + 64) # char_of (n mod 256) # r) = Inr ((n div 256 * 256 + n mod 256, False), r)" for r
      unfolding decode_len_Cons [OF d(1)] d(2,3) by (simp only: list.case one_neq_zero if_False if_True refl)
    then show ?thesis using 2 by (simp add: reads_def encode_len_u64_def)
  next
    case 3
    then have "encode_len_u64 n = char_of (128 :: nat) # be_bytes 4 n" "be_nat (be_bytes 4 n) = n"
      by (simp_all add: encode_len_u64_def del: char_of_eq_iff)
    moreover have "reads (rd_bind (rd_raw 4) (\<lambda>bs. rd_return (be_nat bs, False))) (be_nat (be_bytes 4 n), False) (be_bytes 4 n)"
      using reads_bind_return [OF reads_raw [of "be_bytes 4 n"]] by simp
    ultimately show ?thesis unfolding reads_def by (simp only: append_Cons decode_len_wide simp_thms)
  next
    case 4
    moreover have "n < 256 ^ 8" using assms by (simp add: usize_max_def)
    ultimately have "encode_len_u64 n = char_of (129 :: nat) # be_bytes 8 n" "be_nat (be_bytes 8 n) = n"
      by (simp_all add: encode_len_u64_def del: char_of_eq_iff)
    moreover have "reads (rd_bind (rd_raw 8) (\<lambda>bs. rd_return (be_nat bs, False))) (be_nat (be_bytes 8 n), False) (be_bytes 8 n)"
      using reads_bind_return [OF reads_raw [of "be_bytes 8 n"]] by simp
    ultimately show ?thesis unfolding reads_def by (simp only: append_Cons decode_len_wide simp_thms)
  qed
qed

lemma reads_rdb_len: "n \<le> usize_max \<Longrightarrow> reads decode_rdb_len n (encode_len_u64 n)"
  using reads_bind [OF reads_len, where bs' = "[]" and f = "\<lambda>(n, enc). if enc then rd_fail else rd_return n" and y = n] reads_return [of n]
  by (simp add: decode_rdb_len_def)

lemma reads_string: "length v \<le> MAX_STRING \<Longrightarrow> reads decode_string v (encode_raw_string v)"
  unfolding decode_string_def encode_raw_string_def
  by (rule reads_bind [OF reads_len]) (simp_all add: MAX_STRING_def usize_max_def reads_raw)

lemma reads_capacity: "int (sz * n) \<le> i64_max \<Longrightarrow> reads (rd_capacity sz n) () []"
  by (simp add: reads_def rd_capacity_def)

lemma reads_counted:
  assumes "int (sz * length xs) \<le> i64_max" "0 < sz" "list_all (\<lambda>x. reads p x (e x)) xs"
  shows "reads (decode_counted sz p) xs (encode_len_u64 (length xs) @ concat (map e xs))"
proof -
  have "length xs \<le> sz * length xs" using assms(2) by simp
  then have "length xs \<le> usize_max" using assms(1) unfolding i64_max_def usize_max_def by linarith
  moreover have "reads (rd_bind (rd_capacity sz (length xs)) (\<lambda>_. rd_many (length xs) p)) xs (concat (map e xs))"
    using reads_bind [OF reads_capacity [OF assms(1)], where f = "\<lambda>_. rd_many (length xs) p"] reads_many [OF assms(3)] by force
  ultimately show ?thesis unfolding decode_counted_def by (intro reads_bind [OF reads_rdb_len])
qed

text \<open>What a dump can hold: \<open>u64\<close> numbers, strings of at most 512 MiB, vectors whose allocation the standard library accepts.\<close>

definition string_ok :: "bytes \<Rightarrow> bool" where
  "string_ok v \<longleftrightarrow> length v \<le> MAX_STRING"

definition pair_ok :: "bytes \<times> bytes \<Rightarrow> bool" where
  "pair_ok p \<longleftrightarrow> string_ok (fst p) \<and> string_ok (snd p)"

definition vec_ok :: "nat \<Rightarrow> ('a \<Rightarrow> bool) \<Rightarrow> 'a list \<Rightarrow> bool" where
  "vec_ok sz P xs \<longleftrightarrow> int (sz * length xs) \<le> i64_max \<and> list_all P xs"

definition u64_id :: "stream_id \<Rightarrow> bool" where
  "u64_id i \<longleftrightarrow> id_ms i \<le> usize_max \<and> id_seq i \<le> usize_max"

definition pending_ok :: "pending_entry \<Rightarrow> bool" where
  "pending_ok p \<longleftrightarrow> u64_id (pe_id p) \<and> string_ok (pe_consumer p) \<and> delivery_time_ms p \<le> usize_max \<and> delivery_count p \<le> usize_max"

definition consumer_ok :: "consumer \<Rightarrow> bool" where
  "consumer_ok c \<longleftrightarrow> string_ok (cn_name c) \<and> seen_time_ms c \<le> usize_max \<and> cn_pending c \<le> usize_max"

definition group_snapshot_ok :: "group_snapshot \<Rightarrow> bool" where
  "group_snapshot_ok g \<longleftrightarrow> string_ok (gs_name g) \<and> u64_id (gs_last_delivered_id g)
     \<and> vec_ok 64 pending_ok (gs_pending g) \<and> vec_ok 48 consumer_ok (gs_consumers g)"

definition snapshot_ok :: "stream_snapshot \<Rightarrow> bool" where
  "snapshot_ok st \<longleftrightarrow> u64_id (ss_last_generated_id st)
     \<and> vec_ok 40 (\<lambda>(i, flds). u64_id i \<and> vec_ok 64 pair_ok flds) (ss_entries st)
     \<and> vec_ok 96 group_snapshot_ok (ss_groups st)"

fun dumpable :: "rdb_object \<Rightarrow> bool" where
  "dumpable (RString v) = string_ok v"
| "dumpable (RList es) = vec_ok 32 string_ok es"
| "dumpable (RSet ms) = vec_ok 32 string_ok ms"
| "dumpable (RHash flds) = vec_ok 64 pair_ok flds"
| "dumpable (RZSet ms) = vec_ok 40 (string_ok \<circ> fst) ms"
| "dumpable (RStream st) = snapshot_ok st"

fun encode_dump :: "rdb_object \<Rightarrow> bytes" where
  "encode_dump (RString v) = encode_string_dump v"
| "encode_dump (RList es) = encode_list_dump es"
| "encode_dump (RSet ms) = encode_set_dump ms"
| "encode_dump (RHash flds) = encode_hash_dump flds"
| "encode_dump (RZSet ms) = encode_zset_dump ms"
| "encode_dump (RStream st) = encode_stream_dump st"

lemma reads_vec:
  assumes "vec_ok sz P xs" "0 < sz" "\<And>x. P x \<Longrightarrow> reads p x (e x)"
  shows "reads (decode_counted sz p) xs (encode_len_u64 (length xs) @ concat (map e xs))"
  using assms by (intro reads_counted) (auto simp: vec_ok_def list_all_iff)

lemma reads_strings:
  "vec_ok 32 string_ok vs \<Longrightarrow> reads (decode_counted 32 decode_string) vs (encode_len_u64 (length vs) @ concat (map encode_raw_string vs))"
  by (rule reads_vec [where P = string_ok]) (simp_all add: string_ok_def reads_string)

lemma reads_pair: "pair_ok p \<Longrightarrow> reads decode_pair p (encode_pair p)"
  using reads_bind [OF reads_string reads_bind_return [OF reads_string], of "fst p" "snd p" Pair]
  by (simp add: decode_pair_def encode_pair_def pair_ok_def string_ok_def)

lemma reads_scored: "string_ok (fst p) \<Longrightarrow> reads decode_scored p (encode_scored p)"
proof -
  have "unat (snd p) < 256 ^ 8" using unsigned_less [of "snd p"] by simp
  then have "reads rd_f64_le (snd p) (le_bytes 8 (unat (snd p)))"
    using reads_bind_return [OF reads_raw [of "le_bytes 8 (unat (snd p))"], of "\<lambda>b. word_of_nat (le_nat b) :: f64"]
    by (simp add: rd_f64_le_def)
  then have "string_ok (fst p) \<Longrightarrow> reads decode_scored (fst p, snd p) (encode_scored p)"
    unfolding decode_scored_def encode_scored_def
    by (intro reads_bind [OF reads_string] reads_bind_return) (simp_all add: string_ok_def)
  then show "string_ok (fst p) \<Longrightarrow> reads decode_scored p (encode_scored p)" by simp
qed

lemma reads_scores:
  "vec_ok 40 (string_ok \<circ> fst) ms \<Longrightarrow> reads (decode_counted 40 decode_scored) ms (encode_len_u64 (length ms) @ concat (map encode_scored ms))"
  by (rule reads_vec [where P = "string_ok \<circ> fst"]) (simp_all add: reads_scored)

lemma reads_id: "u64_id i \<Longrightarrow> reads decode_id i (encode_id i)"
  using reads_bind [OF reads_rdb_len reads_bind_return [OF reads_rdb_len], of "id_ms i" "id_seq i" StreamId]
  by (simp add: decode_id_def encode_id_def u64_id_def)

lemma reads_entry: "u64_id i \<Longrightarrow> vec_ok 64 pair_ok flds \<Longrightarrow> reads decode_entry (i, flds) (encode_entry (i, flds))"
  unfolding decode_entry_def encode_entry_def fst_conv snd_conv
  by (intro reads_bind [OF reads_id] reads_bind_return [OF reads_vec [OF _ _ reads_pair]]) simp_all

lemma reads_pending:
  assumes "pending_ok p"
  shows "reads decode_pending p (encode_pending p)"
proof -
  have "reads decode_pending \<lparr>pe_id = pe_id p, pe_consumer = pe_consumer p, delivery_time_ms = delivery_time_ms p, delivery_count = delivery_count p\<rparr>
    (encode_id (pe_id p) @ encode_raw_string (pe_consumer p) @ encode_len_u64 (delivery_time_ms p) @ encode_len_u64 (delivery_count p))"
    unfolding decode_pending_def using assms
    by (intro reads_bind [OF reads_id] reads_bind [OF reads_string] reads_bind [OF reads_rdb_len] reads_bind_return [OF reads_rdb_len])
      (simp_all add: pending_ok_def string_ok_def)
  then show ?thesis by (cases p) (simp add: encode_pending_def)
qed

lemma reads_consumer:
  assumes "consumer_ok c"
  shows "reads decode_consumer c (encode_consumer c)"
proof -
  have "reads decode_consumer \<lparr>cn_name = cn_name c, seen_time_ms = seen_time_ms c, cn_pending = cn_pending c\<rparr>
    (encode_raw_string (cn_name c) @ encode_len_u64 (seen_time_ms c) @ encode_len_u64 (cn_pending c))"
    unfolding decode_consumer_def using assms
    by (intro reads_bind [OF reads_string] reads_bind [OF reads_rdb_len] reads_bind_return [OF reads_rdb_len])
      (simp_all add: consumer_ok_def string_ok_def)
  then show ?thesis by (cases c) (simp add: encode_consumer_def)
qed

lemma reads_group:
  assumes "group_snapshot_ok g"
  shows "reads decode_group g (encode_group g)"
proof -
  have "reads decode_group \<lparr>gs_name = gs_name g, gs_last_delivered_id = gs_last_delivered_id g, gs_pending = gs_pending g, gs_consumers = gs_consumers g\<rparr>
    (encode_raw_string (gs_name g) @ encode_id (gs_last_delivered_id g)
      @ (encode_len_u64 (length (gs_pending g)) @ concat (map encode_pending (gs_pending g)))
      @ (encode_len_u64 (length (gs_consumers g)) @ concat (map encode_consumer (gs_consumers g))))"
    unfolding decode_group_def using assms
    by (intro reads_bind [OF reads_string] reads_bind [OF reads_id] reads_bind [OF reads_vec [OF _ _ reads_pending]]
        reads_bind_return [OF reads_vec [OF _ _ reads_consumer]]) (simp_all add: group_snapshot_ok_def string_ok_def)
  then show ?thesis by (cases g) (simp add: encode_group_def)
qed

lemma reads_kst1:
  assumes "snapshot_ok st"
  shows "reads (decode_kst1 (ss_last_generated_id st)) (RStream st)
    (''KST1'' @ (encode_len_u64 (length (ss_entries st)) @ concat (map encode_entry (ss_entries st)))
      @ (encode_len_u64 (length (ss_groups st)) @ concat (map encode_group (ss_groups st))))"
proof -
  let ?es = "encode_len_u64 (length (ss_entries st)) @ concat (map encode_entry (ss_entries st))"
  let ?gs = "encode_len_u64 (length (ss_groups st)) @ concat (map encode_group (ss_groups st))"
  let ?out = "RStream \<lparr>ss_last_generated_id = ss_last_generated_id st, ss_entries = ss_entries st, ss_groups = ss_groups st\<rparr>"
  have es: "reads (decode_counted 40 decode_entry) (ss_entries st) ?es"
    by (rule reads_vec [where P = "\<lambda>(i, flds). u64_id i \<and> vec_ok 64 pair_ok flds"])
      (use assms in \<open>auto simp: snapshot_ok_def intro: reads_entry\<close>)
  have gs: "reads (decode_counted 96 decode_group) (ss_groups st) ?gs"
    using assms by (intro reads_vec [OF _ _ reads_group]) (auto simp: snapshot_ok_def)
  have body: "reads (rd_bind (decode_counted 40 decode_entry) (\<lambda>es. rd_bind (decode_counted 96 decode_group) (\<lambda>gs.
      rd_return (RStream \<lparr>ss_last_generated_id = ss_last_generated_id st, ss_entries = es, ss_groups = gs\<rparr>)))) ?out (?es @ ?gs)"
    by (rule reads_bind [OF es reads_bind_return [OF gs]])
  have "reads (rd_raw 4) ''KST1'' ''KST1''" using reads_raw [of "''KST1''"] by (simp add: eval_nat_numeral)
  then have "reads (decode_kst1 (ss_last_generated_id st)) ?out (''KST1'' @ ?es @ ?gs)"
    unfolding decode_kst1_def by (rule reads_bind) (use body in simp)
  then show ?thesis by (cases st) simp
qed

lemma reads_stream:
  assumes "snapshot_ok st"
  defines "kst \<equiv> ''KST1'' @ (encode_len_u64 (length (ss_entries st)) @ concat (map encode_entry (ss_entries st)))
      @ (encode_len_u64 (length (ss_groups st)) @ concat (map encode_group (ss_groups st)))"
  shows "reads decode_stream_type15 (RStream st) (encode_len_u64 0 @ encode_len_u64 (length (ss_entries st))
       @ encode_id (ss_last_generated_id st) @ encode_id (case ss_entries st of [] \<Rightarrow> ID_ZERO | e # _ \<Rightarrow> fst e)
       @ encode_id ID_ZERO @ encode_len_u64 (length (ss_entries st)) @ encode_len_u64 0 @ kst)"
proof -
  have z: "u64_id ID_ZERO" by (simp add: u64_id_def ID_ZERO_def)
  have first: "u64_id (case ss_entries st of [] \<Rightarrow> ID_ZERO | e # _ \<Rightarrow> fst e)"
    using assms(1) z by (auto simp: snapshot_ok_def vec_ok_def split: list.split)
  have len: "length (ss_entries st) \<le> usize_max"
    using assms(1) unfolding snapshot_ok_def vec_ok_def i64_max_def usize_max_def by linarith
  have k: "reads (\<lambda>s. if s = [] then
           (if length (ss_entries st) = 0 then rd_return (RStream \<lparr>ss_last_generated_id = ss_last_generated_id st, ss_entries = [], ss_groups = []\<rparr>) s
            else rd_fail s)
         else decode_kst1 (ss_last_generated_id st) s) (RStream st) kst"
    using reads_kst1 [OF assms(1)] by (simp add: reads_def kst_def)
  have g: "reads (rd_bind (decode_foreign_groups 0) f) y bs" if "reads (f ()) y bs" for f and y :: rdb_object and bs
    using that by (simp add: reads_def rd_bind_def decode_foreign_groups_def rd_return_def)
  have n: "reads (if (0 :: nat) < 0 then rd_fail else p) y bs" if "reads p y bs" for p and y :: rdb_object and bs
    using that by simp
  show ?thesis unfolding decode_stream_type15_def
    by (intro reads_bind [OF reads_rdb_len] n reads_bind [OF reads_id] g k)
      (use assms(1) z first len in \<open>simp_all add: snapshot_ok_def\<close>)
qed

lemma finish_dump_decode:
  assumes "reads (rd_bind rd_u8 (decode_object_of_type pf)) obj body"
  shows "decode_redis_dump pf (finish_dump body) = Inr obj"
proof -
  let ?b = "body @ le_bytes 2 RDB_VERSION"
  have "rd_bind rd_u8 (decode_object_of_type pf) body = Inr (obj, [])"
    using assms by (metis append_Nil2 reads_def)
  moreover from this have "body \<noteq> []" by (auto simp: rd_bind_def rd_u8_def)
  moreover have "unat (redis_crc64 ?b) < 256 ^ 8" using unsigned_less [of "redis_crc64 ?b"] by simp
  ultimately show ?thesis
    by (simp add: decode_redis_dump_def finish_dump_def Let_def decode_rdb_object_def Suc_le_eq)
qed

lemma reads_typed:
  "reads (decode_object_of_type pf (of_char c)) obj body \<Longrightarrow> reads (rd_bind rd_u8 (decode_object_of_type pf)) obj (c # body)"
  using reads_bind [OF reads_u8] by force

section \<open>The properties\<close>

text \<open>
  C16. RESTORE of a DUMP: decoding the payload of any string, list, set, hash, sorted set or stream snapshot within the
  limits of the format gives back exactly that value, with no byte left over, whatever the parser of textual scores is.
\<close>

theorem dump_roundtrip:
  assumes "dumpable obj"
  shows "decode_redis_dump parse_f64 (encode_dump obj) = Inr obj"
proof (cases obj)
  case (RString v)
  then show ?thesis using assms unfolding RString encode_dump.simps encode_string_dump_def
    by (intro finish_dump_decode reads_typed)
      (simp add: decode_object_of_type_def string_ok_def reads_bind_return [OF reads_string, of _ RString])
next
  case (RList es)
  then show ?thesis using assms unfolding RList encode_dump.simps encode_list_dump_def
    by (intro finish_dump_decode reads_typed)
      (simp add: decode_object_of_type_def reads_bind_return [OF reads_strings, of _ RList])
next
  case (RSet ms)
  then show ?thesis using assms unfolding RSet encode_dump.simps encode_set_dump_def
    by (intro finish_dump_decode reads_typed)
      (simp add: decode_object_of_type_def reads_bind_return [OF reads_strings, of _ RSet])
next
  case (RHash flds)
  then show ?thesis using assms unfolding RHash encode_dump.simps encode_hash_dump_def
    by (intro finish_dump_decode reads_typed)
      (simp add: decode_object_of_type_def reads_bind_return [OF reads_vec [OF _ _ reads_pair], where f = RHash])
next
  case (RZSet ms)
  then show ?thesis using assms unfolding RZSet encode_dump.simps encode_zset_dump_def
    by (intro finish_dump_decode reads_typed)
      (simp add: decode_object_of_type_def reads_bind_return [OF reads_scores, of _ RZSet])
next
  case (RStream st)
  then show ?thesis using assms reads_stream [of st] unfolding RStream encode_dump.simps encode_stream_dump_def
    by (intro finish_dump_decode reads_typed) (simp add: decode_object_of_type_def encode_id_def ID_ZERO_def)
qed

text \<open>
  C17. The checksum detects every change of one byte: if a payload decodes, the same payload with any single byte
  replaced by another is refused.
\<close>

theorem corrupted_dump_refused:
  assumes "decode_redis_dump parse_f64 data = Inr obj" "i < length data" "c \<noteq> data ! i"
  shows "decode_redis_dump parse_f64 (data[i := c]) = Inl BadPayload"
proof -
  let ?n = "length data - 8" and ?d = "data[i := c]"
  have n: "11 \<le> length data" and crc: "redis_crc64 (take ?n data) = word_of_nat (le_nat (drop ?n data))"
    using assms(1) by (auto simp: decode_redis_dump_def Let_def split: if_splits)
  have "redis_crc64 (take ?n ?d) \<noteq> word_of_nat (le_nat (drop ?n ?d))"
  proof (cases "i < ?n")
    case True
    then have "take ?n ?d = (take ?n data)[i := c]" "drop ?n ?d = drop ?n data" by (simp_all add: take_update_swap)
    then show ?thesis using crc_detects [of i "take ?n data" c] True assms(3) crc by simp
  next
    case False
    then have t: "take ?n ?d = take ?n data" and d: "drop ?n ?d = (drop ?n data)[i - ?n := c]"
      by (simp_all add: drop_update_swap)
    have "i - ?n < length (drop ?n data)" using False assms(2) n by simp
    then have "drop ?n ?d ! (i - ?n) = c" "drop ?n data ! (i - ?n) = data ! i" using False unfolding d by simp_all
    then have "drop ?n ?d \<noteq> drop ?n data" using assms(3) by metis
    then have ne: "le_nat (drop ?n ?d) \<noteq> le_nat (drop ?n data)" using le_nat_inj [of "drop ?n ?d" "drop ?n data"] by auto
    have "le_nat (drop ?n ?d) < 2 ^ 64" "le_nat (drop ?n data) < 2 ^ 64"
      using le_nat_bound [of "drop ?n ?d"] le_nat_bound [of "drop ?n data"] n by simp_all
    then have "(word_of_nat (le_nat (drop ?n ?d)) :: 64 word) \<noteq> word_of_nat (le_nat (drop ?n data))"
      using ne by (simp add: word_of_nat_eq_iff take_bit_nat_eq_self)
    then show ?thesis using crc t by simp
  qed
  then show ?thesis by (simp add: decode_redis_dump_def Let_def)
qed

section \<open>Witnesses\<close>

theorem dump_roundtrip_witness:
  "dumpable (RList [''ab'', '''']) \<and> decode_redis_dump (\<lambda>_. None) (encode_dump (RList [''ab'', ''''])) = Inr (RList [''ab'', ''''])"
  using dump_roundtrip [of "RList [''ab'', '''']" "\<lambda>_. None"]
  by (simp add: vec_ok_def string_ok_def MAX_STRING_def i64_max_def)

theorem corrupted_dump_refused_witness:
  "decode_redis_dump (\<lambda>_. None) (encode_string_dump ''hi'') = Inr (RString ''hi'') \<and>
   encode_string_dump ''hi'' ! 2 = CHR ''h'' \<and>
   decode_redis_dump (\<lambda>_. None) ((encode_string_dump ''hi'')[2 := CHR ''y'']) = Inl BadPayload"
proof -
  have d: "decode_redis_dump (\<lambda>_. None) (encode_string_dump ''hi'') = Inr (RString ''hi'')"
    by (simp add: encode_string_dump_def finish_dump_decode reads_typed decode_object_of_type_def string_ok_def
        reads_bind_return [OF reads_string, of _ RString] MAX_STRING_def)
  have l: "2 < length (encode_string_dump ''hi'')" and h: "encode_string_dump ''hi'' ! 2 = CHR ''h''"
    by (simp_all add: encode_string_dump_def finish_dump_def Let_def encode_raw_string_def encode_len_u64_def nth_append)
  show ?thesis using corrupted_dump_refused [OF d l, of "CHR ''y''"] d h by simp
qed

end
