(* ===== verification/Spec2Isabelle.thy ===== *)
theory Spec2Isabelle
  imports Resp Memory Fair_Queue List_Type Set_Type Hash_Type Lfu Hash_Slot Sorted_Set Key_Command_Properties Stream_Properties Rdb_Properties
begin

text \<open>
  Verification of the kore key-value server.
\<close>

end
